(* ===== verification/Prelude.thy ===== *)
theory Prelude imports Main "HOL-Library.Word" "HOL-Library.Monad_Syntax" begin

text \<open>
  Shared vocabulary of the development: the machine types of the 32-bit Native Client target
  (\<open>size_t\<close>, \<open>int\<close>, \<open>long\<close> and pointers have 32 bits, \<open>wchar_t\<close> 32 and \<open>char16\<close> 16), the
  little-endian image of a word in memory, bounds-checked loads and stores on a block of bytes
  (\<open>None\<close> is undefined behaviour: an access outside the block), and the list and arithmetic lemmas
  that the components share.
\<close>

unbundle bit_operations_syntax

type_synonym u8 = "8 word"
type_synonym u16 = "16 word"
type_synonym u32 = "32 word"
type_synonym u64 = "64 word"

text \<open>Collections of facts that the component theories extend and use.\<close>

named_theorems le_simps "little-endian encodings"
named_theorems mem_simps "loads and stores on a block of bytes"

section \<open>Little-endian images\<close>

fun le_bytes :: "nat \<Rightarrow> nat \<Rightarrow> u8 list" where
  "le_bytes 0 v = []"
| "le_bytes (Suc n) v = word_of_nat (v mod 256) # le_bytes n (v div 256)"

fun le_nat :: "u8 list \<Rightarrow> nat" where
  "le_nat [] = 0"
| "le_nat (b # bs) = unat b + 256 * le_nat bs"

definition w16_bytes :: "u16 \<Rightarrow> u8 list" where
  "w16_bytes w = le_bytes 2 (unat w)"

definition w32_bytes :: "u32 \<Rightarrow> u8 list" where
  "w32_bytes w = le_bytes 4 (unat w)"

definition w64_bytes :: "u64 \<Rightarrow> u8 list" where
  "w64_bytes w = le_bytes 8 (unat w)"

definition bytes_w16 :: "u8 list \<Rightarrow> u16" where
  "bytes_w16 bs = word_of_nat (le_nat bs)"

definition bytes_w32 :: "u8 list \<Rightarrow> u32" where
  "bytes_w32 bs = word_of_nat (le_nat bs)"

definition bytes_w64 :: "u8 list \<Rightarrow> u64" where
  "bytes_w64 bs = word_of_nat (le_nat bs)"

lemma unat_u8: "unat (w :: u8) < 256"
  using unsigned_less [of w, where 'a = nat] by simp

lemma unat_u16: "unat (w :: u16) < 65536"
  using unsigned_less [of w, where 'a = nat] by simp

lemma unat_u32: "unat (w :: u32) < 4294967296"
  using unsigned_less [of w, where 'a = nat] by simp

lemma unat_u64: "unat (w :: u64) < 18446744073709551616"
  using unsigned_less [of w, where 'a = nat] by simp

lemma length_le_bytes [simp]: "length (le_bytes n v) = n"
  by (induction n arbitrary: v) auto

lemma le_nat_le_bytes: "le_nat (le_bytes n v) = v mod 256 ^ n"
proof (induction n arbitrary: v)
  case 0
  then show ?case by simp
next
  case (Suc n)
  have "unat (word_of_nat (v mod 256) :: u8) = v mod 256"
    by (simp add: unat_of_nat)
  then show ?case using Suc
    by (simp add: mod_mult2_eq)
qed

lemma le_nat_bound: "le_nat bs < 256 ^ length bs"
proof (induction bs)
  case Nil
  then show ?case by simp
next
  case (Cons b bs)
  have "unat b < 256" by (rule unat_u8)
  with Cons show ?case by simp
qed

lemma le_bytes_le_nat: "le_bytes (length bs) (le_nat bs) = bs"
proof (induction bs)
  case Nil
  then show ?case by simp
next
  case (Cons b bs)
  have b: "unat b < 256" by (rule unat_u8)
  then have "(unat b + 256 * le_nat bs) mod 256 = unat b"
    and "(unat b + 256 * le_nat bs) div 256 = le_nat bs" by simp_all
  with Cons show ?case by simp
qed

lemma length_w16_bytes [simp]: "length (w16_bytes w) = 2"
  by (simp add: w16_bytes_def)

lemma length_w32_bytes [simp]: "length (w32_bytes w) = 4"
  by (simp add: w32_bytes_def)

lemma length_w64_bytes [simp]: "length (w64_bytes w) = 8"
  by (simp add: w64_bytes_def)

lemma bytes_w16_w16_bytes [simp, le_simps]: "bytes_w16 (w16_bytes w) = w"
proof -
  have "unat w < 256 ^ 2" using unat_u16 [of w] by simp
  then show ?thesis by (simp add: bytes_w16_def w16_bytes_def le_nat_le_bytes)
qed

lemma bytes_w32_w32_bytes [simp, le_simps]: "bytes_w32 (w32_bytes w) = w"
proof -
  have "unat w < 256 ^ 4" using unat_u32 [of w] by simp
  then show ?thesis by (simp add: bytes_w32_def w32_bytes_def le_nat_le_bytes)
qed

lemma bytes_w64_w64_bytes [simp, le_simps]: "bytes_w64 (w64_bytes w) = w"
proof -
  have "unat w < 256 ^ 8" using unat_u64 [of w] by simp
  then show ?thesis by (simp add: bytes_w64_def w64_bytes_def le_nat_le_bytes)
qed

lemma w32_bytes_bytes_w32 [le_simps]:
  assumes "length bs = 4"
  shows "w32_bytes (bytes_w32 bs) = bs"
proof -
  have "le_nat bs < 2 ^ 32" using le_nat_bound [of bs] assms by simp
  then have "unat (bytes_w32 bs) = le_nat bs"
    by (simp add: bytes_w32_def unat_of_nat)
  then show ?thesis using le_bytes_le_nat [of bs] assms by (simp add: w32_bytes_def)
qed

section \<open>Bounds-checked loads and stores\<close>

definition mload :: "nat \<Rightarrow> nat \<Rightarrow> u8 list \<Rightarrow> u8 list option" where
  "mload off n mem = (if off + n \<le> length mem then Some (take n (drop off mem)) else None)"

definition mstore :: "nat \<Rightarrow> u8 list \<Rightarrow> u8 list \<Rightarrow> u8 list option" where
  "mstore off bs mem = (if off + length bs \<le> length mem
     then Some (take off mem @ bs @ drop (off + length bs) mem) else None)"

lemma mload_Some [mem_simps]: "off + n \<le> length mem \<Longrightarrow> mload off n mem = Some (take n (drop off mem))"
  by (simp add: mload_def)

lemma mstore_Some [mem_simps]: "off + length bs \<le> length mem \<Longrightarrow>
    mstore off bs mem = Some (take off mem @ bs @ drop (off + length bs) mem)"
  by (simp add: mstore_def)

lemma mload_length: "mload off n mem = Some bs \<Longrightarrow> length bs = n"
  by (auto simp: mload_def split: if_splits)

lemma mstore_length: "mstore off bs mem = Some mem' \<Longrightarrow> length mem' = length mem"
  by (auto simp: mstore_def split: if_splits)

section \<open>Alignment\<close>

text \<open>\<open>align_up a n\<close> is the least multiple of \<open>a\<close> that is at least \<open>n\<close>.\<close>

definition align_up :: "nat \<Rightarrow> nat \<Rightarrow> nat" where
  "align_up a n = n + (a - n mod a) mod a"

lemma align_up_ge: "n \<le> align_up a n"
  by (simp add: align_up_def)

lemma align_up_dvd: "0 < a \<Longrightarrow> a dvd align_up a n"
proof -
  assume a: "0 < a"
  have "(n + (a - n mod a) mod a) mod a = (n mod a + (a - n mod a)) mod a"
    by (simp only: mod_add_right_eq mod_add_left_eq)
  also have "\<dots> = 0"
    using a by (simp add: less_imp_le)
  finally show ?thesis unfolding align_up_def by (rule mod_0_imp_dvd)
qed

lemma align_up_lt: "0 < a \<Longrightarrow> align_up a n < n + a"
  by (simp add: align_up_def)

lemma align_up_id: "a dvd n \<Longrightarrow> align_up a n = n"
  by (simp add: align_up_def)

lemma align_up_least:
  assumes "0 < a" "a dvd m" "n \<le> m"
  shows "align_up a n \<le> m"
proof (rule ccontr)
  assume "\<not> align_up a n \<le> m"
  then have lt: "m < align_up a n" by simp
  have "a dvd align_up a n - m"
    using align_up_dvd [OF assms(1)] assms(2) by (rule dvd_diff_nat)
  then have "a \<le> align_up a n - m" using lt by (simp add: dvd_imp_le)
  then show False using align_up_lt [OF assms(1), of n] assms(1,3) lt by linarith
qed

lemma align_up_mono:
  assumes "0 < a" "m \<le> n"
  shows "align_up a m \<le> align_up a n"
proof (rule align_up_least [OF assms(1)])
  show "a dvd align_up a n" by (rule align_up_dvd [OF assms(1)])
  show "m \<le> align_up a n" using assms(2) align_up_ge [of n a] by linarith
qed

lemma align_up_add: "a dvd k \<Longrightarrow> align_up a (k + n) = k + align_up a n"
  by (auto simp: align_up_def elim!: dvdE)

section \<open>Words as numbers\<close>

lemma unat_add_lt: "unat (a :: 32 word) + unat b < 4294967296 \<Longrightarrow> unat (a + b) = unat a + unat b"
  by (simp add: unat_word_ariths)

lemma unat_word_of_nat32: "n < 4294967296 \<Longrightarrow> unat (word_of_nat n :: u32) = n"
  by (simp add: unat_of_nat)

lemma sint_neg_iff: "sint (w :: u32) < 0 \<longleftrightarrow> 2147483648 \<le> unat w"
proof -
  have "sint w < 0 \<longleftrightarrow> bit (unat w) 31"
    using bit_last_iff [of w] by (simp add: bit_unsigned_iff)
  also have "\<dots> \<longleftrightarrow> odd (unat w div 2147483648)"
    by (simp add: bit_iff_odd)
  also have "\<dots> \<longleftrightarrow> 2147483648 \<le> unat w"
  proof -
    have "unat w div 2147483648 < 2"
      using unat_u32 [of w] by (simp add: less_mult_imp_div_less)
    then have "unat w div 2147483648 = 0 \<or> unat w div 2147483648 = 1" by linarith
    moreover have "unat w div 2147483648 = 0 \<longleftrightarrow> unat w < 2147483648"
      by (simp add: div_eq_0_iff)
    ultimately show ?thesis by auto
  qed
  finally show ?thesis .
qed


lemma sint_nonneg:
  assumes "unat (w :: u32) < 2147483648"
  shows "sint w = int (unat w)"
proof -
  have u: "uint w = int (unat w)" by simp
  have b: "uint w < 2147483648" using assms u by linarith
  have "0 \<le> uint w" by simp
  then have "- 2147483648 \<le> uint w" by linarith
  with b have "signed_take_bit 31 (uint w) = uint w"
    by (intro signed_take_bit_int_eq_self) simp_all
  then show ?thesis by (simp add: sint_uint)
qed

lemma sint_of_bounded:
  "- (2 ^ (LENGTH('v) - 1)) \<le> k \<Longrightarrow> k < 2 ^ (LENGTH('v) - 1) \<Longrightarrow> sint (word_of_int k :: 'v :: len word) = k"
  by (simp add: signed_of_int signed_take_bit_int_eq_self)

lemma take_drop_prefix: "off + n \<le> k \<Longrightarrow> take n (drop off (take k xs)) = take n (drop off xs)"
  by (simp add: drop_take)

section \<open>Machines\<close>

text \<open>
  What the interleaved models share: a partial step function and its iteration over a list of events.
\<close>

locale machine =
  fixes step :: "'e \<Rightarrow> 's \<Rightarrow> 's option" and run :: "'e list \<Rightarrow> 's \<Rightarrow> 's option"
  assumes run_Nil: "run [] s = Some s"
    and run_Cons: "run (e # es) s = Option.bind (step e s) (run es)"
begin

lemma run_append: "run (es @ fs) s = Option.bind (run es s) (run fs)"
proof (induction es arbitrary: s)
  case (Cons e es)
  then show ?case by (cases "step e s") (simp_all add: run_Cons)
qed (simp add: run_Nil)

lemma run_step:
  assumes "run (e # es) s = Some s'"
  obtains s1 where "step e s = Some s1" "run es s1 = Some s'"
  using assms by (auto simp: run_Cons bind_eq_Some_conv)

lemma run_invariant_of:
  assumes "\<And>e s s'. e \<in> set es \<Longrightarrow> step e s = Some s' \<Longrightarrow> I s \<Longrightarrow> I s'" and "run es s = Some s'" "I s"
  shows "I s'"
  using assms
proof (induction es arbitrary: s)
  case (Cons e es)
  from Cons.prems(2) obtain s1 where s1: "step e s = Some s1" "run es s1 = Some s'" by (rule run_step)
  show ?case by (rule Cons.IH [OF _ s1(2)]) (use Cons.prems(1,3) s1(1) in auto)
qed (simp add: run_Nil)

lemma run_invariant:
  assumes "\<And>e s s'. step e s = Some s' \<Longrightarrow> I s \<Longrightarrow> I s'" and "run es s = Some s'" "I s"
  shows "I s'"
  using run_invariant_of [of es I] assms by blast

lemma run_simulated:
  assumes "\<And>e s s'. step e s = Some s' \<Longrightarrow> I s \<Longrightarrow> I s' \<and> R\<^sup>*\<^sup>* (view s) (view s')"
    and "run es s = Some s'" "I s"
  shows "I s' \<and> R\<^sup>*\<^sup>* (view s) (view s')"
proof (rule run_invariant [OF _ assms(2), of "\<lambda>x. I x \<and> R\<^sup>*\<^sup>* (view s) (view x)"])
  fix e t t'
  assume "step e t = Some t'" "I t \<and> R\<^sup>*\<^sup>* (view s) (view t)"
  with assms(1) [of e t t'] show "I t' \<and> R\<^sup>*\<^sup>* (view s) (view t')" by (auto intro: rtranclp_trans)
qed (simp add: assms(3))

end

end
