(* ===== verification/Pickle.thy ===== *)
theory Pickle imports Prelude begin

text \<open>
  The binary serialiser of \<open>base/pickle.h\<close> and \<open>base/pickle.cc\<close>, on which every IPC message is
  built. A pickle is the address of its heap block (0 is \<open>NULL\<close>), the bytes of that block, and the
  three words of bookkeeping the class keeps. Iterators are raw 32-bit addresses, as in the code, so
  the pointer comparisons of \<open>IteratorHasRoomFor\<close> wrap as they do on the machine. Every load and
  store is bounds-checked: the outer option is \<open>None\<close> when the code would touch memory outside its
  block (or fail a \<open>CHECK\<close>), so "never \<open>None\<close>" is memory safety. \<open>DCHECK\<close>s are the no-ops of the
  \<open>NDEBUG\<close> build. \<open>realloc\<close> is a parameter: the address it returns (0 on failure) and the
  indeterminate bytes of fresh memory.
\<close>

section \<open>State\<close>

record pickle =
  hdr :: u32
  hdr_mem :: "u8 list"
  hdr_size :: u32
  capacity :: u32
  variable_buffer_offset :: u32

record heap =
  realloc_at :: "u32 \<Rightarrow> u32 \<Rightarrow> u32"
  realloc_fill :: "nat \<Rightarrow> u8"

definition kPayloadUnit :: u32 where
  "kPayloadUnit = 64"

definition kCapacityReadOnly :: u32 where
  "kCapacityReadOnly = - 1"

definition sizeof_Header :: u32 where
  "sizeof_Header = 4"

definition AlignInt :: "u32 \<Rightarrow> u32 \<Rightarrow> u32" where
  "AlignInt i alignment = i + (alignment - (i mod alignment)) mod alignment"

definition UpdateIter :: "u32 \<Rightarrow> u32 \<Rightarrow> u32" where
  "UpdateIter iter bytes = iter + AlignInt bytes 4"

section \<open>Access to the block\<close>

definition pload :: "'a pickle_scheme \<Rightarrow> u32 \<Rightarrow> nat \<Rightarrow> u8 list option" where
  "pload p addr n = mload (unat (addr - hdr p)) n (hdr_mem p)"

definition pstore :: "u32 \<Rightarrow> u8 list \<Rightarrow> 'a pickle_scheme \<Rightarrow> 'a pickle_scheme option" where
  "pstore addr bs p = map_option (\<lambda>m. p\<lparr>hdr_mem := m\<rparr>)
     (mstore (unat (addr - hdr p)) bs (hdr_mem p))"

definition payload_size :: "'a pickle_scheme \<Rightarrow> u32 option" where
  "payload_size p = map_option bytes_w32 (pload p (hdr p) 4)"

definition payload :: "'a pickle_scheme \<Rightarrow> u32" where
  "payload p = hdr p + hdr_size p"

definition end_of_payload :: "'a pickle_scheme \<Rightarrow> u32 option" where
  "end_of_payload p = (if hdr p \<noteq> 0
     then map_option (\<lambda>n. payload p + n) (payload_size p) else Some 0)"

definition pickle_size :: "'a pickle_scheme \<Rightarrow> u32 option" where
  "pickle_size p = map_option (\<lambda>n. hdr_size p + n) (payload_size p)"

definition IteratorHasRoomFor :: "'a pickle_scheme \<Rightarrow> u32 \<Rightarrow> u32 \<Rightarrow> bool option" where
  "IteratorHasRoomFor p iter len =
     (if sint len < 0 \<or> iter < hdr p then Some False
      else do {
        e \<leftarrow> end_of_payload p;
        if iter > e then Some False
        else (let end_of_region = iter + len in
              Some (iter \<le> end_of_region \<and> end_of_region \<le> e)) })"

section \<open>Readers\<close>

text \<open>
  A reader returns the value (\<open>None\<close> where the code returns \<open>false\<close>) and the iterator as the code
  leaves it, which has been moved off \<open>NULL\<close> even when the read fails.
\<close>

type_synonym 'a read_result = "('a option \<times> u32) option"

definition start_iter :: "'a pickle_scheme \<Rightarrow> u32 \<Rightarrow> u32" where
  "start_iter p iter = (if iter = 0 then payload p else iter)"

definition read_chunk :: "'a pickle_scheme \<Rightarrow> u32 \<Rightarrow> u32 \<Rightarrow> u8 list read_result" where
  "read_chunk p iter len = do {
     room \<leftarrow> IteratorHasRoomFor p iter len;
     if \<not> room then Some (None, iter)
     else do {
       bs \<leftarrow> pload p iter (unat len);
       Some (Some bs, UpdateIter iter len) } }"

definition ReadInt :: "'a pickle_scheme \<Rightarrow> u32 \<Rightarrow> u32 read_result" where
  "ReadInt p iter = do {
     (r, it) \<leftarrow> read_chunk p (start_iter p iter) 4;
     Some (map_option bytes_w32 r, it) }"

definition ReadBool :: "'a pickle_scheme \<Rightarrow> u32 \<Rightarrow> bool read_result" where
  "ReadBool p iter = do {
     (r, it) \<leftarrow> ReadInt p iter;
     Some (map_option (\<lambda>tmp. tmp \<noteq> 0) r, it) }"

definition ReadLong :: "'a pickle_scheme \<Rightarrow> u32 \<Rightarrow> u32 read_result" where
  "ReadLong p iter = do {
     (r, it) \<leftarrow> read_chunk p (start_iter p iter) 4;
     Some (map_option bytes_w32 r, it) }"

definition ReadLength :: "'a pickle_scheme \<Rightarrow> u32 \<Rightarrow> u32 read_result" where
  "ReadLength p iter = do {
     (r, it) \<leftarrow> ReadInt p iter;
     case r of None \<Rightarrow> Some (None, it)
     | Some n \<Rightarrow> Some (if sint n \<ge> 0 then Some n else None, it) }"

definition ReadSize :: "'a pickle_scheme \<Rightarrow> u32 \<Rightarrow> u32 read_result" where
  "ReadSize p iter = do {
     (r, it) \<leftarrow> read_chunk p (start_iter p iter) 4;
     Some (map_option bytes_w32 r, it) }"

definition ReadUInt32 :: "'a pickle_scheme \<Rightarrow> u32 \<Rightarrow> u32 read_result" where
  "ReadUInt32 p iter = do {
     (r, it) \<leftarrow> read_chunk p (start_iter p iter) 4;
     Some (map_option bytes_w32 r, it) }"

definition ReadInt64 :: "'a pickle_scheme \<Rightarrow> u32 \<Rightarrow> u64 read_result" where
  "ReadInt64 p iter = do {
     (r, it) \<leftarrow> read_chunk p (start_iter p iter) 8;
     Some (map_option bytes_w64 r, it) }"

definition ReadUInt64 :: "'a pickle_scheme \<Rightarrow> u32 \<Rightarrow> u64 read_result" where
  "ReadUInt64 p iter = do {
     (r, it) \<leftarrow> read_chunk p (start_iter p iter) 8;
     Some (map_option bytes_w64 r, it) }"

definition ReadString :: "'a pickle_scheme \<Rightarrow> u32 \<Rightarrow> u8 list read_result" where
  "ReadString p iter = do {
     (r, it) \<leftarrow> ReadLength p iter;
     case r of None \<Rightarrow> Some (None, it)
     | Some len \<Rightarrow> read_chunk p it len }"

fun w32_list :: "u8 list \<Rightarrow> u32 list" where
  "w32_list (a # b # c # d # bs) = bytes_w32 [a, b, c, d] # w32_list bs"
| "w32_list _ = []"

fun w16_list :: "u8 list \<Rightarrow> u16 list" where
  "w16_list (a # b # bs) = bytes_w16 [a, b] # w16_list bs"
| "w16_list _ = []"

definition ReadWString :: "'a pickle_scheme \<Rightarrow> u32 \<Rightarrow> u32 list read_result" where
  "ReadWString p iter = do {
     (r, it) \<leftarrow> ReadLength p iter;
     case r of None \<Rightarrow> Some (None, it)
     | Some len \<Rightarrow>
         if sint len > 0x7fffffff div 4 then Some (None, it)
         else do {
           (bs, it') \<leftarrow> read_chunk p it (len * 4);
           Some (map_option w32_list bs, it') } }"

definition ReadString16 :: "'a pickle_scheme \<Rightarrow> u32 \<Rightarrow> u16 list read_result" where
  "ReadString16 p iter = do {
     (r, it) \<leftarrow> ReadLength p iter;
     case r of None \<Rightarrow> Some (None, it)
     | Some len \<Rightarrow> do {
         (bs, it') \<leftarrow> read_chunk p it (len * 2);
         Some (map_option w16_list bs, it') } }"

definition ReadBytes :: "'a pickle_scheme \<Rightarrow> u32 \<Rightarrow> u32 \<Rightarrow> u8 list read_result" where
  "ReadBytes p iter len = read_chunk p (start_iter p iter) len"

definition ReadData :: "'a pickle_scheme \<Rightarrow> u32 \<Rightarrow> u8 list read_result" where
  "ReadData p iter = do {
     (r, it) \<leftarrow> ReadLength p iter;
     case r of None \<Rightarrow> Some (None, it)
     | Some len \<Rightarrow> ReadBytes p it len }"

section \<open>Writers\<close>

definition Resize :: "heap \<Rightarrow> u32 \<Rightarrow> 'a pickle_scheme \<Rightarrow> (bool \<times> 'a pickle_scheme) option" where
  "Resize h new_capacity p =
     (let n = AlignInt new_capacity kPayloadUnit in
      if capacity p = kCapacityReadOnly then None
      else (let a = realloc_at h (hdr p) n; kept = take (unat n) (hdr_mem p) in
        if a = 0 then Some (False, p)
        else Some (True, p\<lparr>hdr := a, capacity := n,
          hdr_mem := kept @ map (realloc_fill h) [length kept..<unat n]\<rparr>)))"

definition BeginWrite :: "heap \<Rightarrow> u32 \<Rightarrow> 'a pickle_scheme \<Rightarrow> (u32 option \<times> 'a pickle_scheme) option" where
  "BeginWrite h len p = do {
     psz \<leftarrow> payload_size p;
     let offset = AlignInt psz 4;
     let new_size = offset + len;
     let needed_size = hdr_size p + new_size;
     (ok, p1) \<leftarrow> (if needed_size > capacity p
       then Resize h (max (capacity p * 2) needed_size) p else Some (True, p));
     if \<not> ok then Some (None, p1)
     else do {
       p2 \<leftarrow> pstore (hdr p1) (w32_bytes new_size) p1;
       Some (Some (payload p2 + offset), p2) } }"

definition EndWrite :: "u32 \<Rightarrow> u32 \<Rightarrow> 'a pickle_scheme \<Rightarrow> 'a pickle_scheme option" where
  "EndWrite dest len p =
     (if len mod 4 \<noteq> 0
      then pstore (dest + len) (replicate (unat (4 - len mod 4)) 0) p
      else Some p)"

definition WriteBytes :: "heap \<Rightarrow> u8 list \<Rightarrow> 'a pickle_scheme \<Rightarrow> (bool \<times> 'a pickle_scheme) option" where
  "WriteBytes h data p = do {
     let data_len = word_of_nat (length data);
     (dest, p1) \<leftarrow> BeginWrite h data_len p;
     case dest of None \<Rightarrow> Some (False, p1)
     | Some d \<Rightarrow> do {
         p2 \<leftarrow> pstore d data p1;
         p3 \<leftarrow> EndWrite d data_len p2;
         Some (True, p3) } }"

definition WriteInt :: "heap \<Rightarrow> u32 \<Rightarrow> 'a pickle_scheme \<Rightarrow> (bool \<times> 'a pickle_scheme) option" where
  "WriteInt h value p = WriteBytes h (w32_bytes value) p"

definition WriteBool :: "heap \<Rightarrow> bool \<Rightarrow> 'a pickle_scheme \<Rightarrow> (bool \<times> 'a pickle_scheme) option" where
  "WriteBool h value p = WriteInt h (if value then 1 else 0) p"

definition WriteLong :: "heap \<Rightarrow> u32 \<Rightarrow> 'a pickle_scheme \<Rightarrow> (bool \<times> 'a pickle_scheme) option" where
  "WriteLong h value p = WriteBytes h (w32_bytes value) p"

definition WriteSize :: "heap \<Rightarrow> u32 \<Rightarrow> 'a pickle_scheme \<Rightarrow> (bool \<times> 'a pickle_scheme) option" where
  "WriteSize h value p = WriteBytes h (w32_bytes value) p"

definition WriteUInt32 :: "heap \<Rightarrow> u32 \<Rightarrow> 'a pickle_scheme \<Rightarrow> (bool \<times> 'a pickle_scheme) option" where
  "WriteUInt32 h value p = WriteBytes h (w32_bytes value) p"

definition WriteInt64 :: "heap \<Rightarrow> u64 \<Rightarrow> 'a pickle_scheme \<Rightarrow> (bool \<times> 'a pickle_scheme) option" where
  "WriteInt64 h value p = WriteBytes h (w64_bytes value) p"

definition WriteUInt64 :: "heap \<Rightarrow> u64 \<Rightarrow> 'a pickle_scheme \<Rightarrow> (bool \<times> 'a pickle_scheme) option" where
  "WriteUInt64 h value p = WriteBytes h (w64_bytes value) p"

text \<open>A length word, then the bytes, giving up at the first failure.\<close>

definition write_sized :: "heap \<Rightarrow> u32 \<Rightarrow> u8 list \<Rightarrow> 'a pickle_scheme \<Rightarrow> (bool \<times> 'a pickle_scheme) option" where
  "write_sized h n data p = do {
     (ok, p1) \<leftarrow> WriteInt h n p;
     if \<not> ok then Some (False, p1) else WriteBytes h data p1 }"

definition WriteString :: "heap \<Rightarrow> u8 list \<Rightarrow> 'a pickle_scheme \<Rightarrow> (bool \<times> 'a pickle_scheme) option" where
  "WriteString h value p = write_sized h (word_of_nat (length value)) value p"

definition WriteWString :: "heap \<Rightarrow> u32 list \<Rightarrow> 'a pickle_scheme \<Rightarrow> (bool \<times> 'a pickle_scheme) option" where
  "WriteWString h value p =
     write_sized h (word_of_nat (length value)) (concat (map w32_bytes value)) p"

definition WriteString16 :: "heap \<Rightarrow> u16 list \<Rightarrow> 'a pickle_scheme \<Rightarrow> (bool \<times> 'a pickle_scheme) option" where
  "WriteString16 h value p =
     write_sized h (word_of_nat (length value)) (concat (map w16_bytes value)) p"

definition WriteData :: "heap \<Rightarrow> u8 list \<Rightarrow> 'a pickle_scheme \<Rightarrow> (bool \<times> 'a pickle_scheme) option" where
  "WriteData h data p = (let len = word_of_nat (length data) :: u32 in
     if sint len \<ge> 0 then write_sized h len data p else Some (False, p))"

definition BeginWriteData :: "heap \<Rightarrow> u32 \<Rightarrow> 'a pickle_scheme \<Rightarrow> (u32 option \<times> 'a pickle_scheme) option" where
  "BeginWriteData h len p =
     (if sint len < 0 then Some (None, p)
      else do {
        (ok, p1) \<leftarrow> WriteInt h len p;
        if \<not> ok then Some (None, p1)
        else do {
          (d, p2) \<leftarrow> BeginWrite h len p1;
          case d of None \<Rightarrow> Some (None, p2)
          | Some data_ptr \<Rightarrow> do {
              let p3 = p2\<lparr>variable_buffer_offset := data_ptr - hdr p2 - 4\<rparr>;
              p4 \<leftarrow> EndWrite data_ptr len p3;
              Some (Some data_ptr, p4) } } })"

definition TrimWriteData :: "u32 \<Rightarrow> 'a pickle_scheme \<Rightarrow> 'a pickle_scheme option" where
  "TrimWriteData new_length p = do {
     let at = hdr p + variable_buffer_offset p;
     cur \<leftarrow> pload p at 4;
     let cur_length = bytes_w32 cur;
     if sint new_length < 0 \<or> sint new_length > sint cur_length then Some p
     else do {
       psz \<leftarrow> payload_size p;
       p1 \<leftarrow> pstore (hdr p) (w32_bytes (psz - (cur_length - new_length))) p;
       pstore at (w32_bytes new_length) p1 } }"

section \<open>Construction, copy and framing\<close>

definition Pickle_init :: "heap \<Rightarrow> u32 \<Rightarrow> pickle option" where
  "Pickle_init h hsize = do {
     (ok, p) \<leftarrow> Resize h kPayloadUnit \<lparr>hdr = 0, hdr_mem = [], hdr_size = hsize,
        capacity = 0, variable_buffer_offset = 0\<rparr>;
     pstore (hdr p) (w32_bytes 0) p }"

definition Pickle_default :: "heap \<Rightarrow> pickle option" where
  "Pickle_default h = Pickle_init h sizeof_Header"

definition Pickle_header :: "heap \<Rightarrow> u32 \<Rightarrow> pickle option" where
  "Pickle_header h header_size = Pickle_init h (AlignInt header_size 4)"

definition Pickle_const :: "u32 \<Rightarrow> u8 list \<Rightarrow> pickle option" where
  "Pickle_const addr data = do {
     let data_len = (word_of_nat (length data) :: u32);
     hs0 \<leftarrow> (if sint data_len \<ge> 4
       then do { h4 \<leftarrow> mload 0 4 data; Some (data_len - bytes_w32 h4) } else Some 0);
     let hs1 = (if hs0 > data_len then 0 else hs0);
     let hs2 = (if hs1 \<noteq> AlignInt hs1 4 then 0 else hs1);
     Some \<lparr>hdr = (if hs2 = 0 then 0 else addr), hdr_mem = (if hs2 = 0 then [] else data),
       hdr_size = hs2, capacity = kCapacityReadOnly, variable_buffer_offset = 0\<rparr> }"

definition copy_block :: "heap \<Rightarrow> 'a pickle_scheme \<Rightarrow> 'b pickle_scheme \<Rightarrow> 'b pickle_scheme option" where
  "copy_block h other p = do {
     n \<leftarrow> pickle_size other;
     (resized, p1) \<leftarrow> Resize h n p;
     if \<not> resized then None
     else do {
       bs \<leftarrow> pload other (hdr other) (unat n);
       pstore (hdr p1) bs p1 } }"

definition Pickle_copy :: "heap \<Rightarrow> 'a pickle_scheme \<Rightarrow> pickle option" where
  "Pickle_copy h other = copy_block h other
     \<lparr>hdr = 0, hdr_mem = [], hdr_size = hdr_size other, capacity = 0,
      variable_buffer_offset = variable_buffer_offset other\<rparr>"

definition Pickle_assign :: "heap \<Rightarrow> 'a pickle_scheme \<Rightarrow> 'b pickle_scheme \<Rightarrow> 'b pickle_scheme option" where
  "Pickle_assign h other p = do {
     let p1 = (if capacity p = kCapacityReadOnly
       then p\<lparr>hdr := 0, hdr_mem := [], capacity := 0\<rparr> else p);
     let p2 = (if hdr_size p1 \<noteq> hdr_size other
       then p1\<lparr>hdr := 0, hdr_mem := [], hdr_size := hdr_size other\<rparr> else p1);
     p3 \<leftarrow> copy_block h other p2;
     Some (p3\<lparr>variable_buffer_offset := variable_buffer_offset other\<rparr>) }"

text \<open>
  \<open>FindNext\<close> on the bytes readable from \<open>start\<close> on; 0 is the \<open>NULL\<close> result. The code reads the
  size word before it knows that four bytes are there, so \<open>readable\<close> may reach past \<open>fin\<close>.
\<close>

definition FindNext :: "u32 \<Rightarrow> u8 list \<Rightarrow> u32 \<Rightarrow> u32 \<Rightarrow> u32 option" where
  "FindNext header_size readable start fin = do {
     h4 \<leftarrow> mload 0 4 readable;
     let payload_base = start + header_size;
     let payload_end = payload_base + bytes_w32 h4;
     if payload_end < payload_base then Some 0
     else Some (if payload_end > fin then 0 else payload_end) }"

lemma unat_AlignInt:
  assumes "unat i + unat a < 4294967296" "0 < unat a"
  shows "unat (AlignInt i a) = align_up (unat a) (unat i)"
proof -
  have m: "unat i mod unat a < unat a" using assms(2) by simp
  have 1: "unat (i mod a) = unat i mod unat a" by (rule unat_mod)
  have "i mod a \<le> a" using m 1 by (simp add: word_le_nat_alt)
  then have 2: "unat (a - i mod a) = unat a - unat i mod unat a"
    by (simp add: unat_sub 1)
  have 3: "unat ((a - i mod a) mod a) = (unat a - unat i mod unat a) mod unat a"
    by (simp add: unat_mod 2)
  have "(unat a - unat i mod unat a) mod unat a < unat a" using assms(2) by simp
  then show ?thesis using assms(1) unfolding AlignInt_def align_up_def
    by (subst unat_add_lt) (simp_all add: 3)
qed

section \<open>Well-formed pickles\<close>

text \<open>The size word and the payload as the bytes of the block give them.\<close>

definition psize :: "'a pickle_scheme \<Rightarrow> nat" where
  "psize p = le_nat (take 4 (hdr_mem p))"

definition payload_bytes :: "'a pickle_scheme \<Rightarrow> u8 list" where
  "payload_bytes p = take (psize p) (drop (unat (hdr_size p)) (hdr_mem p))"

text \<open>
  A pickle that can be read: it was found invalid and has no block, or its header and payload lie
  inside a block that does not wrap around the address space.
\<close>

definition in_block :: "'a pickle_scheme \<Rightarrow> bool" where
  "in_block p \<longleftrightarrow> hdr p \<noteq> 0 \<and> unat (hdr p) + length (hdr_mem p) + 4 < 4294967296 \<and>
     4 \<le> unat (hdr_size p) \<and> unat (hdr_size p) + psize p \<le> length (hdr_mem p)"

definition readable :: "'a pickle_scheme \<Rightarrow> bool" where
  "readable p \<longleftrightarrow> (hdr p = 0 \<and> hdr_size p = 0) \<or> in_block p"

lemma le_nat_take4: "4 \<le> length bs \<Longrightarrow> le_nat (take 4 bs) < 4294967296"
  using le_nat_bound [of "take 4 bs"] by simp

lemma in_block_payload_size:
  assumes "in_block p"
  shows "payload_size p = Some (word_of_nat (psize p))" "psize p < 4294967296"
    "unat (word_of_nat (psize p) :: u32) = psize p"
proof -
  have l: "4 \<le> length (hdr_mem p)" using assms by (simp add: in_block_def)
  then show b: "psize p < 4294967296" by (simp add: psize_def le_nat_take4)
  show "payload_size p = Some (word_of_nat (psize p))"
    using l by (simp add: payload_size_def pload_def mload_def psize_def bytes_w32_def)
  show "unat (word_of_nat (psize p) :: u32) = psize p"
    using b by (rule unat_word_of_nat32)
qed

lemma length_payload_bytes: "in_block p \<Longrightarrow> length (payload_bytes p) = psize p"
  by (auto simp: payload_bytes_def in_block_def)

lemma unat_payload: "in_block p \<Longrightarrow> unat (payload p) = unat (hdr p) + unat (hdr_size p)"
  unfolding payload_def in_block_def by (subst unat_add_lt) linarith+

lemma in_block_end:
  assumes "in_block p"
  obtains e where "end_of_payload p = Some e"
    "unat e = unat (hdr p) + unat (hdr_size p) + psize p"
proof
  show "end_of_payload p = Some (payload p + word_of_nat (psize p))"
    using assms in_block_payload_size [OF assms] by (simp add: end_of_payload_def in_block_def)
  have "unat (payload p) + psize p < 4294967296"
    using assms unat_payload [OF assms] by (simp add: in_block_def)
  then show "unat (payload p + word_of_nat (psize p)) = unat (hdr p) + unat (hdr_size p) + psize p"
    using in_block_payload_size [OF assms] unat_payload [OF assms]
    by (subst unat_add_lt) simp_all
qed

text \<open>What the pointer comparisons of \<open>IteratorHasRoomFor\<close> amount to, wrap-around included.\<close>

lemma IteratorHasRoomFor_in_block:
  assumes "in_block p"
  shows "IteratorHasRoomFor p it len = Some (unat len < 2147483648 \<and> unat (hdr p) \<le> unat it \<and>
    unat it + unat len \<le> unat (hdr p) + unat (hdr_size p) + psize p)"
proof -
  obtain e where e: "end_of_payload p = Some e"
    and ue: "unat e = unat (hdr p) + unat (hdr_size p) + psize p"
    by (rule in_block_end [OF assms])
  have ue_lt: "unat e < 4294967296" by (rule unat_u32)
  show ?thesis
  proof (cases "unat len < 2147483648 \<and> hdr p \<le> it \<and> it \<le> e")
    case True
    then have "\<not> sint len < 0" by (simp add: sint_neg_iff)
    have "it \<le> it + len \<and> it + len \<le> e \<longleftrightarrow> unat it + unat len \<le> unat e"
    proof (cases "unat it + unat len < 4294967296")
      case lt: True
      then show ?thesis by (simp add: word_le_nat_alt unat_add_lt)
    next
      case False
      then have "unat (it + len) = unat it + unat len - 4294967296"
        using unat_u32 [of it] unat_u32 [of len] by (simp add: unat_plus_if')
      then have "\<not> it \<le> it + len"
        using unat_u32 [of len] False by (simp add: word_le_nat_alt)
      then show ?thesis using False ue_lt by linarith
    qed
    moreover have "IteratorHasRoomFor p it len = Some (it \<le> it + len \<and> it + len \<le> e)"
      using True \<open>\<not> sint len < 0\<close> e
      by (simp add: IteratorHasRoomFor_def Let_def leD)
    ultimately show ?thesis using True ue by (simp add: word_le_nat_alt)
  next
    case False
    then have out: "sint len < 0 \<or> it < hdr p \<or> e < it"
      by (auto simp: sint_neg_iff)
    then have "IteratorHasRoomFor p it len = Some False"
      using e by (auto simp: IteratorHasRoomFor_def Let_def)
    moreover have "2147483648 \<le> unat len \<or> unat it < unat (hdr p) \<or> unat e < unat it"
      using out by (simp add: sint_neg_iff word_less_nat_alt)
    ultimately show ?thesis using ue by auto
  qed
qed

lemma IteratorHasRoomFor_null:
  assumes "hdr p = 0"
  shows "IteratorHasRoomFor p it len = Some (it = 0 \<and> len = 0)"
proof -
  have "sint len < 0 \<Longrightarrow> len \<noteq> 0" by auto
  then show ?thesis using assms
    by (auto simp: IteratorHasRoomFor_def end_of_payload_def Let_def word_less_nat_alt unat_eq_0)
qed

text \<open>One read of \<open>len\<close> bytes never leaves the block, whatever the iterator.\<close>

lemma read_chunk_cases:
  assumes "readable p"
  obtains (fail) "read_chunk p it len = Some (None, it)"
  | (ok) bs where "read_chunk p it len = Some (Some bs, UpdateIter it len)"
      "length bs = unat len"
proof (cases "in_block p")
  case True
  then have hs: "4 \<le> unat (hdr_size p)" and bd: "unat (hdr_size p) + psize p \<le> length (hdr_mem p)"
    by (simp_all add: in_block_def)
  show ?thesis
  proof (cases "unat len < 2147483648 \<and> unat (hdr p) \<le> unat it \<and>
      unat it + unat len \<le> unat (hdr p) + unat (hdr_size p) + psize p")
    case room: True
    then have "unat (it - hdr p) = unat it - unat (hdr p)"
      by (simp add: unat_sub word_le_nat_alt)
    with room bd have "unat (it - hdr p) + unat len \<le> length (hdr_mem p)" by linarith
    then have "pload p it (unat len) = Some (take (unat len) (drop (unat (it - hdr p)) (hdr_mem p)))"
      (is "_ = Some ?bs") by (simp add: pload_def mload_def)
    moreover from this have "length ?bs = unat len"
      unfolding pload_def by (rule mload_length)
    ultimately show ?thesis using room
      by (intro ok [of ?bs]) (simp_all add: read_chunk_def IteratorHasRoomFor_in_block [OF True])
  next
    case False
    then show ?thesis
      by (intro fail) (auto simp: read_chunk_def IteratorHasRoomFor_in_block [OF True])
  qed
next
  case False
  with assms have "hdr p = 0" by (simp add: readable_def)
  then show ?thesis
    using fail ok by (cases "it = 0 \<and> len = 0")
      (auto simp: read_chunk_def IteratorHasRoomFor_null pload_def mload_def)
qed

lemma read_chunk_safe [mem_simps]: "readable p \<Longrightarrow> read_chunk p it len \<noteq> None"
  by (rule read_chunk_cases [of p it len]) auto

text \<open>No reader makes an access outside the block, for any iterator and any block contents.\<close>

lemma fixed_read_safe [mem_simps]:
  assumes "readable p"
  shows "ReadInt p it \<noteq> None" "ReadLong p it \<noteq> None" "ReadSize p it \<noteq> None"
    "ReadUInt32 p it \<noteq> None" "ReadInt64 p it \<noteq> None" "ReadUInt64 p it \<noteq> None"
    "ReadBytes p it n \<noteq> None"
  using read_chunk_safe [OF assms, of "start_iter p it"]
  by (auto simp: ReadInt_def ReadLong_def ReadSize_def ReadUInt32_def ReadInt64_def ReadUInt64_def
    ReadBytes_def bind_eq_None_conv simp del: not_None_eq split: prod.splits)

lemma sized_read_safe [mem_simps]:
  assumes "readable p"
  shows "ReadBool p it \<noteq> None" "ReadLength p it \<noteq> None" "ReadString p it \<noteq> None"
    "ReadWString p it \<noteq> None" "ReadString16 p it \<noteq> None" "ReadData p it \<noteq> None"
  using fixed_read_safe [OF assms] read_chunk_safe [OF assms]
  by (auto simp: ReadBool_def ReadLength_def ReadString_def ReadWString_def ReadString16_def
    ReadData_def bind_eq_None_conv simp del: not_None_eq split: option.splits prod.splits)

section \<open>Writers on a well-formed pickle\<close>

text \<open>
  A pickle that owns its block: the capacity is the size of the block and a multiple of the
  allocation unit, and the header is word aligned.
\<close>

definition writable :: "'a pickle_scheme \<Rightarrow> bool" where
  "writable p \<longleftrightarrow> in_block p \<and> length (hdr_mem p) = unat (capacity p) \<and>
     64 dvd unat (capacity p) \<and> 4 dvd unat (hdr_size p)"

text \<open>What is assumed of \<open>realloc\<close> up to a size limit: it succeeds, and the block does not wrap.\<close>

definition heap_ok :: "heap \<Rightarrow> nat \<Rightarrow> bool" where
  "heap_ok h L \<longleftrightarrow> (\<forall>old n. 0 < unat n \<and> unat n \<le> L \<longrightarrow>
     realloc_at h old n \<noteq> 0 \<and> unat (realloc_at h old n) + unat n + 4 < 4294967296)"

text \<open>A heap with this property, for the examples.\<close>

definition sample_heap :: heap where
  "sample_heap = \<lparr>realloc_at = (\<lambda>old n. 4096), realloc_fill = (\<lambda>i. 0)\<rparr>"

lemma sample_heap_ok: "L \<le> 268435456 \<Longrightarrow> heap_ok sample_heap L"
  by (simp add: heap_ok_def sample_heap_def)

definition extra_header :: "'a pickle_scheme \<Rightarrow> u8 list" where
  "extra_header p = drop 4 (take (unat (hdr_size p)) (hdr_mem p))"

definition padded_payload :: "'a pickle_scheme \<Rightarrow> u8 list" where
  "padded_payload p = take (align_up 4 (psize p)) (drop (unat (hdr_size p)) (hdr_mem p))"

definition pad4 :: "u8 list \<Rightarrow> u8 list" where
  "pad4 d = d @ replicate (align_up 4 (length d) - length d) 0"

fun chunks_end :: "nat \<Rightarrow> u8 list list \<Rightarrow> nat" where
  "chunks_end n [] = n"
| "chunks_end n (c # cs) = chunks_end (align_up 4 n + length c) cs"

definition appended :: "'a pickle_scheme \<Rightarrow> u8 list list \<Rightarrow> 'a pickle_scheme \<Rightarrow> bool" where
  "appended p cs p' \<longleftrightarrow> writable p' \<and> hdr_size p' = hdr_size p \<and>
     variable_buffer_offset p' = variable_buffer_offset p \<and> pickle.more p' = pickle.more p \<and>
     psize p' = chunks_end (psize p) cs \<and>
     padded_payload p' = padded_payload p @ concat (map pad4 cs) \<and>
     extra_header p' = extra_header p"

lemma length_pad4 [simp]: "length (pad4 d) = align_up 4 (length d)"
  using align_up_ge [of "length d" 4] by (simp add: pad4_def)

lemma writable_room: "writable p \<Longrightarrow>
    unat (hdr_size p) + align_up 4 (psize p) \<le> length (hdr_mem p)"
proof -
  assume w: "writable p"
  have d: "4 dvd length (hdr_mem p)" using w dvd_trans [of 4 "64 :: nat"] by (simp add: writable_def)
  have "align_up 4 (unat (hdr_size p) + psize p) \<le> length (hdr_mem p)"
    using w d by (intro align_up_least) (simp_all add: writable_def in_block_def)
  then show ?thesis using w by (simp add: writable_def align_up_add)
qed

lemma writable_split:
  assumes "writable p"
  obtains D where "hdr_mem p = w32_bytes (word_of_nat (psize p)) @ extra_header p @ padded_payload p @ D"
    "length (extra_header p) = unat (hdr_size p) - 4"
    "length (padded_payload p) = align_up 4 (psize p)"
proof
  let ?m = "hdr_mem p" and ?hs = "unat (hdr_size p)"
  have hs: "4 \<le> ?hs" "?hs \<le> length ?m" using assms by (simp_all add: writable_def in_block_def)
  have room: "?hs + align_up 4 (psize p) \<le> length ?m" by (rule writable_room [OF assms])
  show "length (extra_header p) = ?hs - 4" using hs by (simp add: extra_header_def)
  show "length (padded_payload p) = align_up 4 (psize p)" using room by (simp add: padded_payload_def)
  have "w32_bytes (word_of_nat (psize p)) = take 4 ?m"
    using hs w32_bytes_bytes_w32 [of "take 4 ?m"] by (simp add: psize_def bytes_w32_def)
  moreover have "take 4 ?m @ extra_header p = take ?hs ?m"
    using hs by (metis append_take_drop_id extra_header_def min.absorb1 take_take)
  moreover have "take ?hs ?m @ padded_payload p @ drop (?hs + align_up 4 (psize p)) ?m = ?m"
    by (metis append_take_drop_id drop_drop padded_payload_def add.commute)
  ultimately show "?m = w32_bytes (word_of_nat (psize p)) @ extra_header p @ padded_payload p @
      drop (?hs + align_up 4 (psize p)) ?m"
    by (metis append.assoc)
qed

lemma mstore_append [mem_simps]:
  "length xs \<le> off \<Longrightarrow> mstore off bs (xs @ ys) = map_option ((@) xs) (mstore (off - length xs) bs ys)"
  by (auto simp: mstore_def)

lemma pstore_at:
  assumes "unat (addr - hdr p) = off" "off + length bs \<le> length (hdr_mem p)"
  shows "pstore addr bs p = Some (p\<lparr>hdr_mem := take off (hdr_mem p) @ bs @ drop (off + length bs) (hdr_mem p)\<rparr>)"
  using assms by (simp add: pstore_def mstore_def)

lemma Resize_ok:
  assumes h: "heap_ok h L" and n: "unat n = align_up 64 (unat c)" "0 < unat c"
    and L: "unat c + 64 \<le> L" "L < 4294967296" and ro: "capacity p \<noteq> kCapacityReadOnly"
    and al: "AlignInt c kPayloadUnit = n"
  obtains a where "Resize h c p = Some (True, p\<lparr>hdr := a, capacity := n, hdr_mem :=
      take (unat n) (hdr_mem p) @ map (realloc_fill h) [length (take (unat n) (hdr_mem p))..<unat n]\<rparr>)"
    "a \<noteq> 0" "unat a + unat n + 4 < 4294967296"
proof
  let ?a = "realloc_at h (hdr p) n"
  have "0 < unat n" "unat n \<le> L"
    using n L align_up_ge [of "unat c" 64] align_up_lt [of 64 "unat c"] by linarith+
  then show "?a \<noteq> 0" and "unat ?a + unat n + 4 < 4294967296"
    using h by (auto simp: heap_ok_def)
  then show "Resize h c p = Some (True, p\<lparr>hdr := ?a, capacity := n, hdr_mem :=
      take (unat n) (hdr_mem p) @ map (realloc_fill h) [length (take (unat n) (hdr_mem p))..<unat n]\<rparr>)"
    using ro by (simp add: Resize_def al Let_def)
qed


lemma kPayloadUnit_align:
  assumes "unat c + 64 < 4294967296"
  shows "unat (AlignInt c kPayloadUnit) = align_up 64 (unat c)"
  using unat_AlignInt [of c kPayloadUnit] assms by (simp add: kPayloadUnit_def)

lemma readonly_not_aligned: "64 dvd unat (c :: u32) \<Longrightarrow> c \<noteq> kCapacityReadOnly"
proof
  assume d: "64 dvd unat c" and "c = kCapacityReadOnly"
  then have "unat c = 4294967295" by (simp add: kCapacityReadOnly_def unsigned_minus_1_eq_mask mask_eq_exp_minus_1)
  with d show False by simp
qed

text \<open>\<open>BeginWrite\<close> first makes room: the block grows if it has to and keeps its contents.\<close>

lemma grow_ok:
  assumes w: "writable p" and h: "heap_ok h L" and need: "0 < unat needed"
    and L: "2 * unat needed + 64 \<le> L" "L < 4294967296"
  obtains p1 where "(if needed > capacity p then Resize h (max (capacity p * 2) needed) p
      else Some (True, p)) = Some (True, p1)"
    "writable p1" "unat needed \<le> length (hdr_mem p1)"
    "take (length (hdr_mem p)) (hdr_mem p1) = hdr_mem p" "psize p1 = psize p"
    "hdr_size p1 = hdr_size p" "variable_buffer_offset p1 = variable_buffer_offset p"
    "pickle.more p1 = pickle.more p" "length (hdr_mem p) \<le> length (hdr_mem p1)"
proof (cases "needed > capacity p")
  case False
  moreover have "unat needed \<le> unat (capacity p)"
    using False by (simp add: word_le_nat_alt not_less)
  ultimately show ?thesis using w by (intro that [of p]) (simp_all add: writable_def)
next
  case True
  define c where "c = max (capacity p * 2) needed"
  have cap: "length (hdr_mem p) = unat (capacity p)" "64 dvd unat (capacity p)"
    and ib: "in_block p" and hs4: "4 dvd unat (hdr_size p)"
    using w by (simp_all add: writable_def)
  have lt: "unat (capacity p) < unat needed" using True by (simp add: word_less_nat_alt)
  have "unat (capacity p * 2) = unat (capacity p) * 2"
    using lt L by (simp add: unat_word_ariths)
  then have c: "unat needed \<le> unat c" "unat c \<le> 2 * unat needed" "unat (capacity p) \<le> unat c"
    using lt by (auto simp: c_def max_def word_le_nat_alt)
  have al: "unat (AlignInt c kPayloadUnit) = align_up 64 (unat c)"
    using c L by (intro kPayloadUnit_align) linarith
  let ?n = "AlignInt c kPayloadUnit"
  have nge: "unat c \<le> unat ?n" using al align_up_ge by simp
  have pos: "0 < unat c" and Lc: "unat c + 64 \<le> L" using c need L by linarith+
  from Resize_ok [OF h al pos Lc L(2) readonly_not_aligned [OF cap(2)] refl]
  obtain a where r: "Resize h c p = Some (True, p\<lparr>hdr := a, capacity := ?n, hdr_mem :=
      take (unat ?n) (hdr_mem p) @ map (realloc_fill h) [length (take (unat ?n) (hdr_mem p))..<unat ?n]\<rparr>)"
      (is "_ = Some (True, ?p1)")
    and a: "a \<noteq> 0" "unat a + unat ?n + 4 < 4294967296" .
  have k: "take (unat ?n) (hdr_mem p) = hdr_mem p" using cap c nge by simp
  have len: "length (hdr_mem ?p1) = unat ?n" using cap c nge k by simp
  have tk: "take (length (hdr_mem p)) (hdr_mem ?p1) = hdr_mem p" by (simp add: k)
  have "4 \<le> length (hdr_mem p)" using ib by (simp add: in_block_def)
  then have "take 4 (hdr_mem ?p1) = take 4 (hdr_mem p)"
    using k by simp
  then have ps: "psize ?p1 = psize p" by (simp add: psize_def)
  have "in_block ?p1" using ib a len ps cap c nge by (simp add: in_block_def)
  moreover have "64 dvd unat ?n" by (simp add: al align_up_dvd)
  ultimately have "writable ?p1" using len hs4 by (simp add: writable_def)
  moreover have "(if needed > capacity p then Resize h (max (capacity p * 2) needed) p
      else Some (True, p)) = Some (True, ?p1)" using True r by (simp add: c_def)
  moreover have "unat needed \<le> length (hdr_mem ?p1)" using len c nge by simp
  moreover have "length (hdr_mem p) \<le> length (hdr_mem ?p1)" using len cap c nge by simp
  ultimately show ?thesis using ps tk that [of ?p1] by simp
qed

lemma grow_views:
  assumes "writable p" "take (length (hdr_mem p)) (hdr_mem p1) = hdr_mem p" "psize p1 = psize p"
    "hdr_size p1 = hdr_size p"
  shows "padded_payload p1 = padded_payload p" "extra_header p1 = extra_header p"
proof -
  have room: "unat (hdr_size p) + align_up 4 (psize p) \<le> length (hdr_mem p)"
    by (rule writable_room [OF assms(1)])
  have e: "take (unat (hdr_size p)) (hdr_mem p1) = take (unat (hdr_size p)) (hdr_mem p)"
    using room assms(2) by (metis add_leD1 min.absorb1 take_take)
  then show "extra_header p1 = extra_header p" by (simp add: extra_header_def assms(4))
  have "take (unat (hdr_size p) + align_up 4 (psize p)) (hdr_mem p1) =
      take (unat (hdr_size p) + align_up 4 (psize p)) (hdr_mem p)"
    using room assms(2) by (metis min.absorb1 take_take)
  then show "padded_payload p1 = padded_payload p"
    by (simp add: padded_payload_def assms(3,4) take_drop add.commute)
qed


lemma unat_minus_base: "unat (a :: u32) + k < 4294967296 \<Longrightarrow> unat (a + word_of_nat k - a) = k"
  by (simp add: unat_word_of_nat32)

lemma psize_w32: "psize (p\<lparr>hdr_mem := w32_bytes n @ xs\<rparr>) = unat n"
proof -
  have "le_nat (w32_bytes n) = unat n"
    using unat_u32 [of n] by (simp add: w32_bytes_def le_nat_le_bytes)
  then show ?thesis by (simp add: psize_def)
qed

text \<open>
  The main fact about writing: with memory at hand, \<open>WriteBytes\<close> appends the bytes at the next
  word boundary, zero-padded, keeps everything before them, and stays inside its block.
\<close>

lemma WriteBytes_appends:
  assumes w: "writable p" and h: "heap_ok h L" and Lm: "L < 4294967296"
    and room: "2 * (unat (hdr_size p) + align_up 4 (psize p) + length data) + 64 \<le> L"
  obtains p' where "WriteBytes h data p = Some (True, p')" "appended p [data] p'"
proof -
  define off n where "off = align_up 4 (psize p)" and "n = length data"
  define hs where "hs = unat (hdr_size p)"
  have ib: "in_block p" and hs4: "4 \<le> hs" "4 dvd hs"
    using w by (simp_all add: writable_def in_block_def hs_def)
  note psz = in_block_payload_size [OF ib]
  have small: "2 * (hs + off + n) + 64 \<le> L" using room by (simp add: hs_def off_def n_def)
  have ps_off: "psize p \<le> off" by (simp add: off_def align_up_ge)
  let ?off = "AlignInt (word_of_nat (psize p)) 4" and ?n = "word_of_nat n :: u32"
  have uoff: "unat ?off = off"
    using unat_AlignInt [of "word_of_nat (psize p)" 4] psz(3) small Lm ps_off
    by (simp add: off_def)
  have un: "unat ?n = n" using small Lm by (intro unat_word_of_nat32) simp
  have unew: "unat (?off + ?n) = off + n"
    using small Lm by (subst unat_add_lt) (simp_all add: uoff un)
  have uneed: "unat (hdr_size p + (?off + ?n)) = hs + off + n"
    using small Lm by (subst unat_add_lt) (simp_all add: unew hs_def)
  obtain p1 where g: "(if hdr_size p + (?off + ?n) > capacity p
      then Resize h (max (capacity p * 2) (hdr_size p + (?off + ?n))) p else Some (True, p)) = Some (True, p1)"
    and w1: "writable p1" and cap1: "hs + off + n \<le> length (hdr_mem p1)"
    and keep: "take (length (hdr_mem p)) (hdr_mem p1) = hdr_mem p" "psize p1 = psize p"
      "hdr_size p1 = hdr_size p" "variable_buffer_offset p1 = variable_buffer_offset p"
      "pickle.more p1 = pickle.more p"
    using grow_ok [OF w h, of "hdr_size p + (?off + ?n)"] small Lm hs4 uneed by auto
  note views = grow_views [OF w keep(1-3)]
  obtain D where m1: "hdr_mem p1 = w32_bytes (word_of_nat (psize p1)) @ extra_header p1 @ padded_payload p1 @ D"
    and le: "length (extra_header p1) = hs - 4" and lp: "length (padded_payload p1) = off"
    using writable_split [OF w1] keep unfolding hs_def off_def by metis
  have ib1: "in_block p1" and c64: "64 dvd length (hdr_mem p1)"
    using w1 by (simp_all add: writable_def)
  have lm1: "length (hdr_mem p1) = hs + off + length D" using m1 le lp hs4 by simp
  have c4: "4 dvd length (hdr_mem p1)" using c64 dvd_trans [of 4 "64 :: nat"] by simp
  have "hs + off + align_up 4 n \<le> hs + off + length D"
  proof -
    have "align_up 4 (hs + off + n) \<le> length (hdr_mem p1)"
      using c4 cap1 by (intro align_up_least) simp_all
    moreover have "4 dvd hs + off" using hs4 by (simp add: off_def align_up_dvd)
    ultimately show ?thesis by (simp add: align_up_add lm1)
  qed
  then have pad_room: "align_up 4 n \<le> length D" by simp
  then have n_room: "n \<le> length D" using align_up_ge [of n 4] by linarith
  let ?h = "hdr p1" and ?dest = "payload p1 + ?off"
  have bound: "unat ?h + length (hdr_mem p1) + 4 < 4294967296" using ib1 by (simp add: in_block_def)
  have dest: "unat (?dest - ?h) = hs + off"
  proof -
    have d: "?dest - ?h = hdr_size p + ?off" by (simp add: payload_def keep)
    have "unat (hdr_size p + ?off) = hs + off"
      using small Lm by (subst unat_add_lt) (simp_all add: uoff hs_def)
    then show ?thesis by (simp only: d)
  qed
  define mA where "mA = w32_bytes (?off + ?n) @ extra_header p1 @ padded_payload p1 @ D"
  define mB where "mB = w32_bytes (?off + ?n) @ extra_header p1 @ padded_payload p1 @ data @ drop n D"
  have sA: "pstore ?h (w32_bytes (?off + ?n)) p1 = Some (p1\<lparr>hdr_mem := mA\<rparr>)"
    by (simp add: pstore_def mstore_def m1 mA_def)
  have sB: "pstore ?dest data (p1\<lparr>hdr_mem := mA\<rparr>) = Some (p1\<lparr>hdr_mem := mB\<rparr>)"
    using n_room le lp hs4 dest
    by (simp add: pstore_def mstore_def mA_def mB_def n_def)
  have bw: "BeginWrite h ?n p = Some (Some ?dest, p1\<lparr>hdr_mem := mA\<rparr>)"
    by (simp add: BeginWrite_def psz(1) Let_def g sA payload_def)
  define z where "z = align_up 4 n - n"
  define mC where "mC = w32_bytes (?off + ?n) @ extra_header p1 @ padded_payload p1 @ pad4 data @ drop (align_up 4 n) D"
  have ew: "EndWrite ?dest ?n (p1\<lparr>hdr_mem := mB\<rparr>) = Some (p1\<lparr>hdr_mem := mC\<rparr>)"
  proof (cases "n mod 4 = 0")
    case True
    then have "?n mod 4 = 0" by (simp add: word_eq_iff_unsigned unat_mod un flip: unat_eq_0)
    moreover have "mB = mC" using True by (simp add: mB_def mC_def pad4_def n_def align_up_id mod_0_imp_dvd)
    ultimately show ?thesis by (simp add: EndWrite_def)
  next
    case False
    have um: "unat (?n mod 4) = n mod 4" by (simp add: unat_mod un)
    then have nz: "?n mod 4 \<noteq> 0" using False by (metis unat_0)
    have "unat (4 - ?n mod 4) = 4 - n mod 4"
      using um by (simp add: unat_sub word_le_nat_alt less_imp_le)
    then have zz: "unat (4 - ?n mod 4) = z" using False by (simp add: z_def align_up_def)
    have d: "?dest + ?n - ?h = hdr_size p + (?off + ?n)" by (simp add: payload_def keep)
    have "unat (?dest + ?n - ?h) = hs + off + n" by (simp only: d uneed)
    then show ?thesis using nz zz pad_room le lp hs4 align_up_ge [of n 4]
      by (simp add: EndWrite_def pstore_def mstore_def mB_def mC_def pad4_def n_def z_def)
  qed
  let ?p' = "p1\<lparr>hdr_mem := mC\<rparr>"
  have wb: "WriteBytes h data p = Some (True, ?p')"
    using bw sB ew by (simp add: WriteBytes_def Let_def n_def)
  have ps': "psize ?p' = off + n" unfolding mC_def by (simp add: psize_w32 unew)
  have lmC: "length mC = length (hdr_mem p1)" using lm1 le lp hs4 pad_room by (simp add: mC_def n_def)
  have "in_block ?p'" using ib1 lmC ps' cap1 keep(3) by (simp add: in_block_def hs_def)
  then have "writable ?p'" using w1 lmC by (simp add: writable_def)
  moreover have "padded_payload ?p' = padded_payload p @ pad4 data"
  proof -
    have "align_up 4 (off + n) = off + align_up 4 n"
      by (intro align_up_add) (simp add: off_def align_up_dvd)
    then have "padded_payload ?p' = take (off + align_up 4 n) (drop hs mC)"
      unfolding padded_payload_def ps' by (simp add: keep hs_def)
    also have "drop hs mC = padded_payload p1 @ pad4 data @ drop (align_up 4 n) D"
      using le hs4 by (simp add: mC_def)
    finally show ?thesis using lp views by (simp add: n_def)
  qed
  moreover have "extra_header ?p' = extra_header p"
  proof -
    have "extra_header ?p' = drop 4 (take hs mC)"
      unfolding extra_header_def by (simp add: keep hs_def)
    also have "\<dots> = extra_header p1" using le hs4 by (simp add: mC_def)
    finally show ?thesis using views by simp
  qed
  ultimately have "appended p [data] ?p'"
    using keep ps' by (simp add: appended_def off_def n_def)
  with wb show thesis by (rule that)
qed


text \<open>Chunks already written can be read back at their offset.\<close>

fun has_chunks :: "'a pickle_scheme \<Rightarrow> nat \<Rightarrow> u8 list list \<Rightarrow> bool" where
  "has_chunks p off [] = True"
| "has_chunks p off (c # cs) = (off + length c \<le> psize p \<and> length c < 2147483648 \<and>
     take (length c) (drop off (padded_payload p)) = c \<and> has_chunks p (off + align_up 4 (length c)) cs)"

fun chunks_len :: "u8 list list \<Rightarrow> nat" where
  "chunks_len [] = 0"
| "chunks_len (c # cs) = align_up 4 (length c) + chunks_len cs"

definition at_off :: "'a pickle_scheme \<Rightarrow> nat \<Rightarrow> u32" where
  "at_off p off = payload p + word_of_nat off"

lemma chunks_len_append [simp]: "chunks_len (as @ bs) = chunks_len as + chunks_len bs"
  by (induction as) simp_all

lemma chunks_end_append [simp]: "chunks_end n (as @ bs) = chunks_end (chunks_end n as) bs"
  by (induction as arbitrary: n) simp_all

lemma has_chunks_append [simp]:
  "has_chunks p off (as @ bs) \<longleftrightarrow> has_chunks p off as \<and> has_chunks p (off + chunks_len as) bs"
  by (induction as arbitrary: off) (auto simp: add.assoc)


lemma in_block_at_off:
  assumes "in_block p" "off \<le> psize p + 3"
  shows "unat (at_off p off) = unat (hdr p) + unat (hdr_size p) + off"
  using assms unat_payload [OF assms(1)] unfolding at_off_def in_block_def
  by (subst unat_add_lt) (simp_all add: unat_word_of_nat32)

text \<open>A read at an offset of the payload, in terms of the payload's bytes.\<close>

lemma read_chunk_at:
  assumes ib: "in_block p" and c: "off + length c \<le> psize p" "length c < 2147483648"
    and b: "take (length c) (drop off (padded_payload p)) = c" and n: "unat len = length c"
  shows "read_chunk p (at_off p off) len = Some (Some c, at_off p (off + align_up 4 (length c)))"
proof -
  let ?h = "unat (hdr p)" and ?hs = "unat (hdr_size p)"
  have at: "unat (at_off p off) = ?h + ?hs + off" using ib c by (intro in_block_at_off) simp_all
  have r: "IteratorHasRoomFor p (at_off p off) len = Some True"
    using c n at by (simp add: IteratorHasRoomFor_in_block [OF ib])
  have "hdr p \<le> at_off p off" by (simp add: word_le_nat_alt at)
  then have d: "unat (at_off p off - hdr p) = ?hs + off" by (simp add: unat_sub at)
  have fits: "?hs + off + length c \<le> length (hdr_mem p)" using ib c by (simp add: in_block_def)
  have le: "off + length c \<le> align_up 4 (psize p)" using c align_up_ge [of "psize p" 4] by linarith
  have "take (length c) (drop (?hs + off) (hdr_mem p)) = take (length c) (drop off (drop ?hs (hdr_mem p)))"
    by (simp add: add.commute)
  also have "\<dots> = take (length c) (drop off (padded_payload p))"
    unfolding padded_payload_def using le by (rule take_drop_prefix [symmetric])
  finally have "take (length c) (drop (?hs + off) (hdr_mem p)) = c" using b by simp
  then have l: "pload p (at_off p off) (length c) = Some c"
    using fits by (simp add: pload_def mload_def d)
  have al: "AlignInt len 4 = word_of_nat (align_up 4 (length c))"
  proof -
    have "unat (AlignInt len 4) = align_up 4 (length c)"
      using unat_AlignInt [of len 4] c n by simp
    then have "word_of_nat (unat (AlignInt len 4)) = (word_of_nat (align_up 4 (length c)) :: u32)"
      by (simp only:)
    then show ?thesis by simp
  qed
  have "UpdateIter (at_off p off) len = at_off p (off + align_up 4 (length c))"
    by (simp add: UpdateIter_def at_off_def al)
  then show ?thesis using r l n by (simp add: read_chunk_def)
qed

lemma appended_readable: "appended p cs p' \<Longrightarrow> in_block p'"
  by (simp add: appended_def writable_def)

lemma appended_trans:
  "appended p as p1 \<Longrightarrow> appended p1 bs p2 \<Longrightarrow> appended p (as @ bs) p2"
  by (simp add: appended_def)

lemma chunks_end_mono: "n \<le> chunks_end n cs"
proof (induction cs arbitrary: n)
  case Nil
  then show ?case by simp
next
  case (Cons c cs)
  have "n \<le> align_up 4 n + length c" using align_up_ge [of n 4] by linarith
  also have "\<dots> \<le> chunks_end (align_up 4 n + length c) cs" by (rule Cons.IH)
  finally show ?case by simp
qed

lemma chunks_end_len: "align_up 4 (chunks_end n cs) = align_up 4 n + chunks_len cs"
proof (induction cs arbitrary: n)
  case Nil
  then show ?case by simp
next
  case (Cons c cs)
  have "align_up 4 (align_up 4 n + length c) = align_up 4 n + align_up 4 (length c)"
    by (intro align_up_add) (simp add: align_up_dvd)
  with Cons show ?case by simp
qed

lemma chunks_end_align: "cs \<noteq> [] \<Longrightarrow> chunks_end (align_up 4 n) cs = chunks_end n cs"
  by (cases cs) (simp_all add: align_up_id align_up_dvd)

lemma pad4_take [simp]: "length c \<le> n \<Longrightarrow> take (length c) (pad4 c @ xs) = c"
  by (simp add: pad4_def)

lemma has_chunks_in:
  assumes "padded_payload p = xs @ concat (map pad4 cs)" "4 dvd length xs"
    "cs \<noteq> [] \<Longrightarrow> chunks_end (length xs) cs \<le> psize p" "\<forall>c \<in> set cs. length c < 2147483648"
  shows "has_chunks p (length xs) cs"
  using assms
proof (induction cs arbitrary: xs)
  case Nil
  then show ?case by simp
next
  case (Cons c cs)
  let ?ys = "xs @ pad4 c"
  have al: "align_up 4 (length xs) = length xs" using Cons.prems(2) by (rule align_up_id)
  have yl: "length ?ys = length xs + align_up 4 (length c)" by simp
  have "has_chunks p (length ?ys) cs"
  proof (rule Cons.IH)
    show "padded_payload p = ?ys @ concat (map pad4 cs)" using Cons.prems(1) by simp
    show "4 dvd length ?ys" unfolding yl using Cons.prems(2) by (simp add: align_up_dvd)
    have "align_up 4 (length xs + length c) = length ?ys"
      using Cons.prems(2) by (simp add: align_up_add)
    then show "chunks_end (length ?ys) cs \<le> psize p" if "cs \<noteq> []"
      using Cons.prems(3) chunks_end_align [OF that, of "length xs + length c"] by (simp add: al)
    show "\<forall>c \<in> set cs. length c < 2147483648" using Cons.prems(4) by simp
  qed
  moreover have "length xs + length c \<le> psize p"
    using Cons.prems(3) chunks_end_mono [of "length xs + length c" cs] by (simp add: al)
  moreover have "take (length c) (drop (length xs) (padded_payload p)) = c"
    unfolding Cons.prems(1) by (simp add: pad4_def)
  ultimately show ?case using Cons.prems(4) by (simp add: yl)
qed

end
