(* ===== verification/PickleFrame.thy ===== *)
theory PickleFrame imports Pickle begin

text \<open>
  Construction, copying and framing of pickles: a fresh pickle can be written to, a pickle over
  any received bytes can be read, the bytes of a pickle give it back on the other side, and
  \<open>FindNext\<close> finds the end of a pickle exactly when all of it has arrived.
\<close>

section \<open>Construction\<close>

lemma Pickle_init_ok:
  assumes h: "heap_ok h L" and L: "128 \<le> L" "L < 4294967296"
    and hs: "4 \<le> unat hsize" "unat hsize \<le> 64" "4 dvd unat hsize"
  obtains p where "Pickle_init h hsize = Some p" "writable p" "hdr_size p = hsize" "psize p = 0"
proof -
  let ?p0 = "\<lparr>hdr = 0, hdr_mem = [], hdr_size = hsize, capacity = 0, variable_buffer_offset = 0\<rparr> :: pickle"
  have al: "unat (AlignInt kPayloadUnit kPayloadUnit) = align_up 64 64"
    using kPayloadUnit_align [of kPayloadUnit] by (simp add: kPayloadUnit_def)
  then have n64: "unat (AlignInt kPayloadUnit kPayloadUnit) = 64" by (simp add: align_up_def)
  have ro: "capacity ?p0 \<noteq> kCapacityReadOnly" by (simp add: kCapacityReadOnly_def)
  obtain a where r: "Resize h kPayloadUnit ?p0 = Some (True, ?p0\<lparr>hdr := a,
      capacity := AlignInt kPayloadUnit kPayloadUnit, hdr_mem := map (realloc_fill h) [0..<64]\<rparr>)"
    (is "_ = Some (True, ?p1)")
    and a: "a \<noteq> 0" "unat a + 64 + 4 < 4294967296"
    using Resize_ok [OF h, of "AlignInt kPayloadUnit kPayloadUnit" kPayloadUnit ?p0] ro L al n64
    by (auto simp: kPayloadUnit_def)
  let ?mem = "w32_bytes 0 @ map (realloc_fill h) [4..<64]"
  let ?p = "?p1\<lparr>hdr_mem := ?mem\<rparr>"
  have "drop 4 (map (realloc_fill h) [0..<64]) = map (realloc_fill h) [4..<64]"
    by (simp add: drop_map)
  then have "pstore (hdr ?p1) (w32_bytes 0) ?p1 = Some ?p"
    by (simp add: pstore_def mstore_def)
  then have i: "Pickle_init h hsize = Some ?p" using r by (simp add: Pickle_init_def)
  have ps: "psize ?p = 0" by (subst psize_w32) simp
  have "in_block ?p" using a hs ps by (simp add: in_block_def)
  then have "writable ?p" using hs n64 by (simp add: writable_def)
  with i ps show thesis by (intro that [of ?p]) simp_all
qed

lemma AlignInt_fix: "AlignInt i 4 = i \<Longrightarrow> 4 dvd unat (i :: u32)"
proof -
  assume "AlignInt i 4 = i"
  then have z: "(4 - i mod 4) mod 4 = 0" by (simp add: AlignInt_def)
  have m: "unat (i mod 4) = unat i mod 4" by (simp add: unat_mod)
  then have "i mod 4 \<le> 4" by (simp add: word_le_nat_alt)
  then have "unat (4 - i mod 4) = 4 - unat i mod 4" by (simp add: unat_sub m)
  then have "unat ((4 - i mod 4) mod 4) = (4 - unat i mod 4) mod 4" by (simp add: unat_mod)
  then have "(4 - unat i mod 4) mod 4 = 0" using z by simp
  then have "unat i mod 4 = 0" by presburger
  then show ?thesis by (simp add: dvd_eq_mod_eq_0)
qed

text \<open>A pickle laid over received bytes: either found invalid, or inside its bytes exactly.\<close>

lemma Pickle_const_cases:
  assumes addr: "addr \<noteq> 0" "unat addr + length data + 4 < 4294967296" and len: "length data < 2147483648"
  obtains (invalid) p where "Pickle_const addr data = Some p" "hdr p = 0" "hdr_size p = 0"
  | (ok) p where "Pickle_const addr data = Some p" "in_block p" "hdr p = addr" "hdr_mem p = data"
      "4 dvd unat (hdr_size p)" "unat (hdr_size p) + psize p = length data"
proof -
  let ?n = "word_of_nat (length data) :: u32"
  have un: "unat ?n = length data" using len by (intro unat_word_of_nat32) simp
  have sn: "sint ?n = int (length data)" using len by (simp add: sint_nonneg un)
  show thesis
  proof (cases "4 \<le> length data")
    case False
    then have "Pickle_const addr data = Some \<lparr>hdr = 0, hdr_mem = [], hdr_size = 0,
        capacity = kCapacityReadOnly, variable_buffer_offset = 0\<rparr>"
      by (simp add: Pickle_const_def Let_def sn AlignInt_def)
    then show thesis by (rule invalid) simp_all
  next
    case True
    define w where "w = bytes_w32 (take 4 data)"
    have uw: "unat w = le_nat (take 4 data)"
      using le_nat_take4 [OF True] by (simp add: w_def bytes_w32_def unat_word_of_nat32)
    have l: "mload 0 4 data = Some (take 4 data)" using True by (simp add: mload_def)
    define hs where "hs = (let hs1 = (if ?n - w > ?n then 0 else ?n - w) in
      if hs1 \<noteq> AlignInt hs1 4 then 0 else hs1)"
    have c: "Pickle_const addr data = Some \<lparr>hdr = (if hs = 0 then 0 else addr),
        hdr_mem = (if hs = 0 then [] else data), hdr_size = hs, capacity = kCapacityReadOnly,
        variable_buffer_offset = 0\<rparr>"
      using True sn l by (simp add: Pickle_const_def Let_def hs_def w_def)
    show thesis
    proof (cases "hs = 0")
      case True
      then show thesis by (intro invalid [OF c]) simp_all
    next
      case nz: False
      then have h: "hs = ?n - w" "?n - w \<le> ?n" "AlignInt hs 4 = hs"
        unfolding hs_def Let_def by (auto split: if_splits)
      have le: "w \<le> ?n"
      proof (rule ccontr)
        assume "\<not> w \<le> ?n"
        then have lt: "unat ?n < unat w" by (simp add: word_le_nat_alt)
        then have "unat (?n - w) = 4294967296 + unat ?n - unat w"
          by (simp add: unat_sub_if')
        then show False using h(2) lt unat_u32 [of w] by (simp add: word_le_nat_alt)
      qed
      have uhs: "unat hs + unat w = length data"
        using le by (simp add: h(1) unat_sub un word_le_nat_alt)
      have d4: "4 dvd unat hs" by (rule AlignInt_fix) (rule h(3))
      moreover have "unat hs \<noteq> 0" using nz by (simp add: unat_eq_0)
      ultimately have "4 \<le> unat hs" by (simp add: dvd_imp_le)
      then show thesis using c nz uhs d4 addr
        by (intro ok [OF c]) (simp_all add: in_block_def psize_def flip: uw)
    qed
  qed
qed



section \<open>Framing\<close>

text \<open>
  \<open>FindNext\<close> on a range that holds at least the size word: the end of the pickle when the whole
  pickle has arrived, and \<open>NULL\<close> when it has not or when the size would wrap the address space.
\<close>

lemma FindNext_spec:
  assumes n: "4 \<le> length bytes" and st: "unat start + length bytes < 4294967296"
    and fin: "unat fin = unat start + length bytes" and hs: "unat hs \<le> 64" "unat start + 64 < 4294967296"
  shows "FindNext hs bytes start fin =
    Some (if unat hs + le_nat (take 4 bytes) \<le> length bytes
      then start + hs + word_of_nat (le_nat (take 4 bytes)) else 0)"
proof -
  let ?w = "bytes_w32 (take 4 bytes)"
  have uw: "unat ?w = le_nat (take 4 bytes)"
    using le_nat_take4 [OF n] by (simp add: bytes_w32_def unat_word_of_nat32)
  have ub: "unat (start + hs) = unat start + unat hs" using hs by (intro unat_add_lt) simp
  have l: "mload 0 4 bytes = Some (take 4 bytes)" using n by (simp add: mload_def)
  show ?thesis
  proof (cases "unat start + unat hs + unat ?w < 4294967296")
    case True
    then have ue: "unat (start + hs + ?w) = unat start + unat hs + unat ?w"
      using ub by (subst unat_add_lt) simp_all
    then have "\<not> start + hs + ?w < start + hs" by (simp add: word_less_nat_alt ub)
    moreover have "(start + hs + ?w > fin) = (\<not> unat hs + le_nat (take 4 bytes) \<le> length bytes)"
      using ue fin uw by (simp add: word_less_nat_alt) linarith
    ultimately show ?thesis using l by (simp add: FindNext_def Let_def bytes_w32_def)
  next
    case False
    then have "unat (start + hs + ?w) = unat start + unat hs + unat ?w - 4294967296"
      using ub unat_u32 [of "start + hs"] unat_u32 [of ?w] by (simp add: unat_plus_if')
    then have "start + hs + ?w < start + hs"
      using unat_u32 [of ?w] ub False by (simp add: word_less_nat_alt)
    moreover have "\<not> unat hs + le_nat (take 4 bytes) \<le> length bytes"
      using False uw st by linarith
    ultimately show ?thesis using l by (simp add: FindNext_def Let_def)
  qed
qed

text \<open>The bytes \<open>data()\<close> points to, \<open>size()\<close> of them.\<close>

definition wire :: "'a pickle_scheme \<Rightarrow> u8 list option" where
  "wire p = do { n \<leftarrow> pickle_size p; pload p (hdr p) (unat n) }"

lemma wire_in_block:
  assumes "in_block p"
  shows "wire p = Some (take (unat (hdr_size p) + psize p) (hdr_mem p))"
proof -
  have "unat (hdr_size p) + psize p < 4294967296" using assms by (simp add: in_block_def)
  then have "unat (hdr_size p + word_of_nat (psize p)) = unat (hdr_size p) + psize p"
    using in_block_payload_size [OF assms] by (subst unat_add_lt) simp_all
  then show ?thesis using assms in_block_payload_size(1) [OF assms]
    by (simp add: wire_def pickle_size_def pload_def mload_def in_block_def)
qed

text \<open>The receiver of the bytes of a pickle has the same header and payload.\<close>

lemma wire_received:
  assumes p: "in_block p" "4 dvd unat (hdr_size p)" and b: "wire p = Some bytes"
    and addr: "addr \<noteq> 0" "unat addr + length bytes + 4 < 4294967296" "length bytes < 2147483648"
  obtains q where "Pickle_const addr bytes = Some q" "in_block q" "hdr_size q = hdr_size p"
    "psize q = psize p" "extra_header q = extra_header p" "payload_bytes q = payload_bytes p" "hdr q = addr"
proof -
  let ?hs = "unat (hdr_size p)"
  have bytes: "bytes = take (?hs + psize p) (hdr_mem p)" using b wire_in_block [OF p(1)] by simp
  have ib: "4 \<le> ?hs" "?hs + psize p \<le> length (hdr_mem p)" using p(1) by (simp_all add: in_block_def)
  have len: "length bytes = ?hs + psize p" using bytes ib by simp
  have ps: "le_nat (take 4 bytes) = psize p" using ib by (simp add: bytes psize_def)
  show thesis
  proof (rule Pickle_const_cases [OF addr])
    fix q assume q: "Pickle_const addr bytes = Some q" "hdr q = 0" "hdr_size q = 0"
    let ?n = "word_of_nat (length bytes) :: u32"
    have un: "unat ?n = length bytes" using addr(3) by (intro unat_word_of_nat32) simp
    have sn: "sint ?n = int (length bytes)" using addr(3) by (simp add: sint_nonneg un)
    have l4: "4 \<le> length bytes" using len ib by simp
    have w: "unat (bytes_w32 (take 4 bytes)) = psize p"
      using in_block_payload_size(2) [OF p(1)] by (simp add: bytes_w32_def ps unat_word_of_nat32)
    have le: "bytes_w32 (take 4 bytes) \<le> ?n" using w un len by (simp add: word_le_nat_alt)
    have uh: "unat (?n - bytes_w32 (take 4 bytes)) = ?hs" using le w un len by (simp add: unat_sub)
    then have h: "?n - bytes_w32 (take 4 bytes) = hdr_size p" by (simp add: unsigned_word_eqI)
    have "hdr_size p \<le> ?n" using un len by (simp add: word_le_nat_alt)
    moreover have "AlignInt (hdr_size p) 4 = hdr_size p"
    proof -
      have "?hs mod 4 = 0" using p(2) by (simp add: dvd_eq_mod_eq_0)
      then have "hdr_size p mod 4 = 0" by (simp add: unat_mod word_unat_eq_iff)
      then show ?thesis by (simp add: AlignInt_def)
    qed
    moreover have "hdr_size p \<noteq> 0" using ib(1) by auto
    ultimately have "hdr q = addr" using q(1) l4 h sn
      by (auto simp: Pickle_const_def Let_def mload_def)
    with q(2) addr(1) show thesis by simp
  next
    fix q assume q: "Pickle_const addr bytes = Some q" "in_block q" "hdr q = addr" "hdr_mem q = bytes"
      "4 dvd unat (hdr_size q)" "unat (hdr_size q) + psize q = length bytes"
    have pq: "psize q = psize p" using q(4) ps by (simp add: psize_def)
    then have hq: "unat (hdr_size q) = ?hs" using q(6) len by simp
    then have h: "hdr_size q = hdr_size p" by (simp add: word_unat_eq_iff)
    show thesis
    proof (rule that [OF q(1,2) h pq _ _ q(3)])
      show "extra_header q = extra_header p"
        by (simp add: extra_header_def h q(4) bytes)
      show "payload_bytes q = payload_bytes p"
        by (simp add: payload_bytes_def h pq q(4) bytes drop_take)
    qed
  qed
qed


section \<open>Copies\<close>

text \<open>What two pickles share when one is a copy of the other.\<close>

definition same_content :: "'a pickle_scheme \<Rightarrow> 'b pickle_scheme \<Rightarrow> bool" where
  "same_content p q \<longleftrightarrow> hdr_size q = hdr_size p \<and> psize q = psize p \<and>
     extra_header q = extra_header p \<and> payload_bytes q = payload_bytes p"

lemma same_content_prefix:
  assumes "in_block p" "take (unat (hdr_size p) + psize p) (hdr_mem q) = take (unat (hdr_size p) + psize p) (hdr_mem p)"
    "hdr_size q = hdr_size p"
  shows "same_content p q"
proof -
  let ?hs = "unat (hdr_size p)" and ?n = "unat (hdr_size p) + psize p"
  have hs: "4 \<le> ?hs" using assms(1) by (simp add: in_block_def)
  have t: "take k (hdr_mem q) = take k (hdr_mem p)" if "k \<le> ?n" for k
  proof -
    have "take k (take ?n (hdr_mem q)) = take k (take ?n (hdr_mem p))" by (simp only: assms(2))
    then show ?thesis using that by (simp add: min_absorb1)
  qed
  have ps: "psize q = psize p" using t [of 4] hs by (simp add: psize_def)
  have d: "drop ?hs (take ?n xs) = take (psize p) (drop ?hs xs)" for xs :: "u8 list"
    by (simp add: drop_take)
  have "take (psize p) (drop ?hs (hdr_mem q)) = take (psize p) (drop ?hs (hdr_mem p))"
    using arg_cong [OF assms(2), of "drop ?hs"] by (simp only: d)
  then show ?thesis using ps t [of ?hs] assms(3)
    by (simp add: same_content_def extra_header_def payload_bytes_def)
qed

lemma vbo_views [simp]:
  "writable (p\<lparr>variable_buffer_offset := v\<rparr>) = writable p"
  "same_content o1 (p\<lparr>variable_buffer_offset := v\<rparr>) = same_content o1 p"
  by (simp_all add: writable_def in_block_def psize_def same_content_def extra_header_def payload_bytes_def)

lemma copy_block_ok:
  assumes o: "in_block other" "4 dvd unat (hdr_size other)" and h: "heap_ok h L"
    and L: "unat (hdr_size other) + psize other + 64 \<le> L" "L < 4294967296"
    and p: "capacity p \<noteq> kCapacityReadOnly" "hdr_size p = hdr_size other"
  obtains q where "copy_block h other p = Some q" "writable q" "same_content other q"
    "variable_buffer_offset q = variable_buffer_offset p" "pickle.more q = pickle.more p"
proof -
  let ?n = "unat (hdr_size other) + psize other"
  have n: "?n \<le> length (hdr_mem other)" "4 \<le> unat (hdr_size other)" using o(1) by (simp_all add: in_block_def)
  define c where "c = hdr_size other + word_of_nat (psize other)"
  have uc: "unat c = ?n"
    using L in_block_payload_size(3) [OF o(1)] unfolding c_def by (subst unat_add_lt) simp_all
  have sz: "pickle_size other = Some c"
    using in_block_payload_size(1) [OF o(1)] by (simp add: pickle_size_def c_def)
  have al: "unat (AlignInt c kPayloadUnit) = align_up 64 ?n"
    using kPayloadUnit_align [of c] L uc by simp
  let ?cap = "AlignInt c kPayloadUnit"
  have nge: "?n \<le> unat ?cap" using al align_up_ge [of ?n 64] by simp
  define X where "X = take (unat ?cap) (hdr_mem p) @
      map (realloc_fill h) [length (take (unat ?cap) (hdr_mem p))..<unat ?cap]"
  have lX: "length X = unat ?cap" by (simp add: X_def)
  obtain a where r: "Resize h c p = Some (True, p\<lparr>hdr := a, capacity := ?cap, hdr_mem := X\<rparr>)"
      (is "_ = Some (True, ?p1)")
    and a: "a \<noteq> 0" "unat a + unat ?cap + 4 < 4294967296"
    unfolding X_def using Resize_ok [OF h, of ?cap c p] al uc n L p(1) by auto
  let ?bs = "take ?n (hdr_mem other)"
  have l: "pload other (hdr other) (unat c) = Some ?bs" using n uc by (simp add: pload_def mload_def)
  let ?q = "?p1\<lparr>hdr_mem := ?bs @ drop ?n X\<rparr>"
  have st: "pstore (hdr ?p1) ?bs ?p1 = Some ?q"
    using n nge lX by (simp add: pstore_def mstore_def)
  have cb: "copy_block h other p = Some ?q"
    unfolding copy_block_def sz using r l st by (simp add: uc)
  have lq: "length (hdr_mem ?q) = unat ?cap" using n nge by (simp add: lX)
  have sc: "same_content other ?q"
    using n p(2) by (intro same_content_prefix [OF o(1)]) simp_all
  have "in_block ?q" using a lq sc n nge p(2) by (simp add: in_block_def same_content_def)
  moreover have "64 dvd unat ?cap" by (simp add: al align_up_dvd)
  ultimately have "writable ?q" using lq p(2) o(2) by (simp add: writable_def)
  then show thesis using that [OF cb _ sc] by simp
qed

text \<open>
  the copy constructor and the assignment give a pickle of their own block with the same
  header and payload, whatever the assigned pickle was before.
\<close>

theorem Pickle_copy_same:
  assumes "in_block other" "4 dvd unat (hdr_size other)" "heap_ok h L"
    "unat (hdr_size other) + psize other + 64 \<le> L" "L < 4294967296"
  shows "(\<exists>q. Pickle_copy h other = Some q \<and> writable q \<and> same_content other q) \<and>
    (\<exists>q. Pickle_assign h other p = Some q \<and> writable q \<and> same_content other q)"
proof
  let ?p = "\<lparr>hdr = 0, hdr_mem = [], hdr_size = hdr_size other, capacity = 0,
      variable_buffer_offset = variable_buffer_offset other\<rparr> :: pickle"
  have "capacity ?p \<noteq> kCapacityReadOnly" by (simp add: kCapacityReadOnly_def)
  then obtain q where "copy_block h other ?p = Some q" "writable q" "same_content other q"
    using copy_block_ok [OF assms, of ?p] by auto
  then show "\<exists>q. Pickle_copy h other = Some q \<and> writable q \<and> same_content other q"
    by (simp add: Pickle_copy_def)
next
  define p1 where "p1 = (if capacity p = kCapacityReadOnly then p\<lparr>hdr := 0, hdr_mem := [], capacity := 0\<rparr> else p)"
  define p2 where "p2 = (if hdr_size p1 \<noteq> hdr_size other
    then p1\<lparr>hdr := 0, hdr_mem := [], hdr_size := hdr_size other\<rparr> else p1)"
  have "capacity p1 \<noteq> kCapacityReadOnly" by (simp add: p1_def kCapacityReadOnly_def)
  then have p2: "capacity p2 \<noteq> kCapacityReadOnly" "hdr_size p2 = hdr_size other" by (simp_all add: p2_def)
  obtain q where q: "copy_block h other p2 = Some q" "writable q" "same_content other q"
    by (rule copy_block_ok [OF assms p2])
  let ?q = "q\<lparr>variable_buffer_offset := variable_buffer_offset other\<rparr>"
  have "Pickle_assign h other p = Some ?q"
    unfolding Pickle_assign_def Let_def p1_def [symmetric] p2_def [symmetric] using q(1) by simp
  moreover have "writable ?q" "same_content other ?q"
    using q(2,3) by simp_all
  ultimately show "\<exists>q. Pickle_assign h other p = Some q \<and> writable q \<and> same_content other q" by blast
qed

theorem Pickle_copy_same_witness:
  "(\<exists>q. Pickle_copy sample_heap \<lparr>hdr = 4096, hdr_mem = [4, 0, 0, 0, 9, 8, 7, 6], hdr_size = 4, capacity = 8,
      variable_buffer_offset = 0\<rparr> = Some q \<and> writable q \<and> same_content \<lparr>hdr = 4096, hdr_mem = [4, 0, 0, 0, 9, 8, 7, 6], hdr_size = 4, capacity = 8,
      variable_buffer_offset = 0\<rparr> q) \<and>
    (\<exists>q. Pickle_assign sample_heap \<lparr>hdr = 4096, hdr_mem = [4, 0, 0, 0, 9, 8, 7, 6], hdr_size = 4, capacity = 8,
      variable_buffer_offset = 0\<rparr> \<lparr>hdr = 4096, hdr_mem = [4, 0, 0, 0, 9, 8, 7, 6], hdr_size = 4, capacity = 8,
      variable_buffer_offset = 0\<rparr> = Some q \<and> writable q \<and> same_content \<lparr>hdr = 4096, hdr_mem = [4, 0, 0, 0, 9, 8, 7, 6], hdr_size = 4, capacity = 8,
      variable_buffer_offset = 0\<rparr> q)"
  by (rule Pickle_copy_same [OF _ _ sample_heap_ok [of 128]]) (simp_all add: in_block_def psize_def)

end
