(* ===== verification/FdSet.thy ===== *)
theory FdSet imports Prelude begin

text \<open>
  \<open>ipc/file_descriptor_set_posix.h\<close> and \<open>.cc\<close>: the descriptors that travel beside a message. A
  descriptor is an \<open>int\<close> as the kernel numbers it. What the code closes is returned as a list of
  the descriptors in the order of the \<open>close\<close> calls; the result of \<open>close\<close> is only logged by the
  code and not modelled. \<open>GetDescriptorAt\<close> is \<open>const\<close> in the code but moves the mutable high-water
  mark, so it returns the set as it leaves it.
\<close>

section \<open>The set and its operations\<close>

record FileDescriptor =
  fd :: int
  auto_close :: bool

record FileDescriptorSet =
  descriptors_of :: "FileDescriptor list"
  highwater :: nat

definition MAX_DESCRIPTORS_PER_MESSAGE :: nat where
  "MAX_DESCRIPTORS_PER_MESSAGE = 4"

definition FileDescriptorSet_new :: FileDescriptorSet where
  "FileDescriptorSet_new = \<lparr>descriptors_of = [], highwater = 0\<rparr>"

definition FileDescriptorSet_destroy :: "FileDescriptorSet \<Rightarrow> int list" where
  "FileDescriptorSet_destroy s =
     (if highwater s = length (descriptors_of s) then []
      else map fd (filter auto_close (drop (highwater s) (descriptors_of s))))"

definition fds_Add :: "int \<Rightarrow> FileDescriptorSet \<Rightarrow> bool \<times> FileDescriptorSet" where
  "fds_Add f s =
     (if length (descriptors_of s) = MAX_DESCRIPTORS_PER_MESSAGE then (False, s)
      else (True, s\<lparr>descriptors_of := descriptors_of s @ [\<lparr>fd = f, auto_close = False\<rparr>]\<rparr>))"

definition fds_AddAndAutoClose :: "int \<Rightarrow> FileDescriptorSet \<Rightarrow> bool \<times> FileDescriptorSet" where
  "fds_AddAndAutoClose f s =
     (if length (descriptors_of s) = MAX_DESCRIPTORS_PER_MESSAGE then (False, s)
      else (True, s\<lparr>descriptors_of := descriptors_of s @ [\<lparr>fd = f, auto_close = True\<rparr>]\<rparr>))"

definition fds_size :: "FileDescriptorSet \<Rightarrow> nat" where
  "fds_size s = length (descriptors_of s)"

definition fds_empty :: "FileDescriptorSet \<Rightarrow> bool" where
  "fds_empty s = (descriptors_of s = [])"

definition GetDescriptorAt :: "nat \<Rightarrow> FileDescriptorSet \<Rightarrow> int \<times> FileDescriptorSet" where
  "GetDescriptorAt index s =
     (if index \<ge> length (descriptors_of s) then (- 1, s)
      else (let s1 = (if index = 0 \<and> highwater s = length (descriptors_of s)
                      then s\<lparr>highwater := 0\<rparr> else s)
            in if index \<noteq> highwater s1 then (- 1, s1)
               else (fd (descriptors_of s1 ! index), s1\<lparr>highwater := index + 1\<rparr>)))"

definition GetDescriptors :: "FileDescriptorSet \<Rightarrow> int list" where
  "GetDescriptors s = map fd (descriptors_of s)"

text \<open>\<open>is_dir\<close> is the answer of \<open>fstat\<close>: it succeeded and says directory.\<close>

definition ContainsDirectoryDescriptor :: "(int \<Rightarrow> bool) \<Rightarrow> FileDescriptorSet \<Rightarrow> bool" where
  "ContainsDirectoryDescriptor is_dir s = list_ex (\<lambda>d. is_dir (fd d)) (descriptors_of s)"

definition CommitAll :: "FileDescriptorSet \<Rightarrow> int list \<times> FileDescriptorSet" where
  "CommitAll s = (map fd (filter auto_close (descriptors_of s)), \<lparr>descriptors_of = [], highwater = 0\<rparr>)"

definition SetDescriptors :: "int list \<Rightarrow> FileDescriptorSet \<Rightarrow> FileDescriptorSet" where
  "SetDescriptors buffer s = s\<lparr>descriptors_of :=
     descriptors_of s @ map (\<lambda>f. \<lparr>fd = f, auto_close = True\<rparr>) buffer\<rparr>"

section \<open>Invariant\<close>

definition fds_inv :: "FileDescriptorSet \<Rightarrow> bool" where
  "fds_inv s \<longleftrightarrow> highwater s \<le> length (descriptors_of s)"

lemma fds_inv_steps [intro]:
  "fds_inv FileDescriptorSet_new"
  "fds_inv s \<Longrightarrow> fds_inv (snd (fds_Add f s))"
  "fds_inv s \<Longrightarrow> fds_inv (snd (fds_AddAndAutoClose f s))"
  "fds_inv s \<Longrightarrow> fds_inv (snd (GetDescriptorAt i s))"
  "fds_inv (snd (CommitAll s))"
  "fds_inv s \<Longrightarrow> fds_inv (SetDescriptors b s)"
  by (auto simp: fds_inv_def FileDescriptorSet_new_def fds_Add_def fds_AddAndAutoClose_def
    GetDescriptorAt_def CommitAll_def SetDescriptors_def Let_def Suc_le_eq)

lemma fds_Add_size:
  "length (descriptors_of s) \<le> MAX_DESCRIPTORS_PER_MESSAGE \<Longrightarrow>
    length (descriptors_of (snd (fds_Add f s))) \<le> MAX_DESCRIPTORS_PER_MESSAGE"
  "length (descriptors_of s) \<le> MAX_DESCRIPTORS_PER_MESSAGE \<Longrightarrow>
    length (descriptors_of (snd (fds_AddAndAutoClose f s))) \<le> MAX_DESCRIPTORS_PER_MESSAGE"
  by (auto simp: fds_Add_def fds_AddAndAutoClose_def)

section \<open>Runs of reads\<close>

text \<open>A sequence of reads: the descriptors handed out, and the set that is left.\<close>

fun read_fds :: "nat list \<Rightarrow> FileDescriptorSet \<Rightarrow> int list \<times> FileDescriptorSet" where
  "read_fds [] s = ([], s)"
| "read_fds (i # is) s =
     (case GetDescriptorAt i s of (f, s1) \<Rightarrow>
      case read_fds is s1 of (fs, s2) \<Rightarrow> (if f < 0 then fs else f # fs, s2))"

lemma GetDescriptorAt_cases:
  assumes "fds_inv s" "i = 0 \<Longrightarrow> highwater s = 0"
  shows "(i < length (descriptors_of s) \<and> i = highwater s \<and>
      GetDescriptorAt i s = (fd (descriptors_of s ! i), s\<lparr>highwater := Suc (highwater s)\<rparr>)) \<or>
    GetDescriptorAt i s = (- 1, s)"
  using assms by (auto simp: GetDescriptorAt_def fds_inv_def Let_def)

lemma GetDescriptorAt_descriptors [simp]:
  "descriptors_of (snd (GetDescriptorAt i s)) = descriptors_of s"
  by (simp add: GetDescriptorAt_def Let_def)

text \<open>
  Until index 0 is asked for again, the descriptors handed out are those between the high-water
  marks, so every received descriptor is either handed out once or closed by the destructor.
\<close>

lemma read_fds_span:
  assumes "fds_inv s" "\<forall>d \<in> set (descriptors_of s). 0 \<le> fd d"
    "0 \<in> set is \<longrightarrow> highwater s = 0 \<and> count_list is 0 = 1"
  shows "\<exists>n. snd (read_fds is s) = s\<lparr>highwater := n\<rparr> \<and> highwater s \<le> n \<and> n \<le> length (descriptors_of s) \<and>
    fst (read_fds is s) = map fd (take (n - highwater s) (drop (highwater s) (descriptors_of s)))"
  using assms
proof (induction "is" arbitrary: s)
  case Nil
  then show ?case by (intro exI [of _ "highwater s"]) (simp add: fds_inv_def)
next
  case (Cons i "is")
  let ?ds = "descriptors_of s" and ?hw = "highwater s"
  have "i = 0 \<Longrightarrow> ?hw = 0" using Cons.prems(3) by simp
  from GetDescriptorAt_cases [OF Cons.prems(1) this]
  consider (hit) "i < length ?ds" "i = ?hw" "GetDescriptorAt i s = (fd (?ds ! i), s\<lparr>highwater := Suc ?hw\<rparr>)"
    | (miss) "GetDescriptorAt i s = (- 1, s)" by blast
  then show ?case
  proof cases
    case hit
    let ?s1 = "s\<lparr>highwater := Suc ?hw\<rparr>"
    have "0 \<notin> set is"
    proof
      assume 0: "0 \<in> set is"
      then have "?hw = 0" "count_list (i # is) 0 = 1" using Cons.prems(3) by simp_all
      then have "count_list is 0 = 0" using hit(2) by simp
      with 0 show False by (simp add: count_list_0_iff)
    qed
    moreover have "fds_inv ?s1" using hit(1,2) by (simp add: fds_inv_def)
    ultimately obtain n where n: "snd (read_fds is ?s1) = ?s1\<lparr>highwater := n\<rparr>" "Suc ?hw \<le> n" "n \<le> length ?ds"
      "fst (read_fds is ?s1) = map fd (take (n - Suc ?hw) (drop (Suc ?hw) ?ds))"
      using Cons.IH [of ?s1] Cons.prems(2) by auto
    have "0 \<le> fd (?ds ! i)" using Cons.prems(2) hit(1) by simp
    moreover have "take (n - ?hw) (drop ?hw ?ds) = ?ds ! i # take (n - Suc ?hw) (drop (Suc ?hw) ?ds)"
      using n(2) hit(1,2) by (simp add: Cons_nth_drop_Suc [symmetric] Suc_diff_Suc take_Cons' Suc_le_eq)
    ultimately show ?thesis using n hit(3)
      by (intro exI [of _ n]) (auto simp: split_def)
  next
    case miss
    have "0 \<in> set is \<longrightarrow> ?hw = 0 \<and> count_list is 0 = 1"
    proof
      assume 0: "0 \<in> set is"
      then have "count_list is 0 \<noteq> 0" by (simp add: count_list_0_iff)
      then show "?hw = 0 \<and> count_list is 0 = 1" using Cons.prems(3) 0 by (auto split: if_splits)
    qed
    then show ?thesis using Cons.IH [of s] Cons.prems(1,2) miss by (auto simp: split_def)
  qed
qed



end
