(* ===== verification/Message.thy ===== *)
theory Message imports PickleFrame FdSet begin

text \<open>
  \<open>ipc/ipc_message.h\<close> and \<open>.cc\<close>: a message is a pickle with a 20-byte header (payload size,
  routing id, type, flags, number of descriptors, padding) and the set of descriptors that travels
  with it. The header is read and written in the bytes of the pickle's block, as the code does
  through \<open>headerT\<close>. The set is held by value: the reference-counted sharing between a message and
  its copies is not modelled.
\<close>

section \<open>State and header\<close>

record message = pickle +
  fd_set :: "FileDescriptorSet option"

definition PRIORITY_MASK :: u32 where "PRIORITY_MASK = 0x0003"
definition SYNC_BIT :: u32 where "SYNC_BIT = 0x0004"
definition REPLY_BIT :: u32 where "REPLY_BIT = 0x0008"
definition REPLY_ERROR_BIT :: u32 where "REPLY_ERROR_BIT = 0x0010"
definition UNBLOCK_BIT :: u32 where "UNBLOCK_BIT = 0x0020"
definition PUMPING_MSGS_BIT :: u32 where "PUMPING_MSGS_BIT = 0x0040"
definition HAS_SENT_TIME_BIT :: u32 where "HAS_SENT_TIME_BIT = 0x0080"

lemmas flag_bits = PRIORITY_MASK_def SYNC_BIT_def REPLY_BIT_def REPLY_ERROR_BIT_def UNBLOCK_BIT_def
  PUMPING_MSGS_BIT_def HAS_SENT_TIME_BIT_def

definition PRIORITY_LOW :: u32 where "PRIORITY_LOW = 1"
definition PRIORITY_NORMAL :: u32 where "PRIORITY_NORMAL = 2"
definition PRIORITY_HIGH :: u32 where "PRIORITY_HIGH = 3"

definition MSG_ROUTING_NONE :: u32 where "MSG_ROUTING_NONE = - 2"
definition MSG_ROUTING_CONTROL :: u32 where "MSG_ROUTING_CONTROL = 0x7FFFFFFF"
definition IPC_REPLY_ID :: u32 where "IPC_REPLY_ID = 0xFFFFFFF0"
definition IPC_LOGGING_ID :: u32 where "IPC_LOGGING_ID = 0xFFFFFFF1"

definition sizeof_MessageHeader :: u32 where
  "sizeof_MessageHeader = 20"

definition field32 :: "u32 \<Rightarrow> 'a pickle_scheme \<Rightarrow> u32 option" where
  "field32 off m = map_option bytes_w32 (pload m (hdr m + off) 4)"

definition field16 :: "u32 \<Rightarrow> 'a pickle_scheme \<Rightarrow> u16 option" where
  "field16 off m = map_option bytes_w16 (pload m (hdr m + off) 2)"

definition set_field32 :: "u32 \<Rightarrow> u32 \<Rightarrow> 'a pickle_scheme \<Rightarrow> 'a pickle_scheme option" where
  "set_field32 off v m = pstore (hdr m + off) (w32_bytes v) m"

definition set_field16 :: "u32 \<Rightarrow> u16 \<Rightarrow> 'a pickle_scheme \<Rightarrow> 'a pickle_scheme option" where
  "set_field16 off v m = pstore (hdr m + off) (w16_bytes v) m"

definition routing_id :: "'a pickle_scheme \<Rightarrow> u32 option" where
  "routing_id m = field32 4 m"

definition set_routing_id :: "u32 \<Rightarrow> 'a pickle_scheme \<Rightarrow> 'a pickle_scheme option" where
  "set_routing_id new_id m = set_field32 4 new_id m"

definition msg_type :: "'a pickle_scheme \<Rightarrow> u32 option" where
  "msg_type m = field32 8 m"

definition flags :: "'a pickle_scheme \<Rightarrow> u32 option" where
  "flags m = field32 12 m"

definition set_flags :: "u32 \<Rightarrow> 'a pickle_scheme \<Rightarrow> 'a pickle_scheme option" where
  "set_flags f m = set_field32 12 f m"

definition num_fds :: "'a pickle_scheme \<Rightarrow> u16 option" where
  "num_fds m = field16 16 m"

definition set_num_fds :: "u16 \<Rightarrow> 'a pickle_scheme \<Rightarrow> 'a pickle_scheme option" where
  "set_num_fds n m = set_field16 16 n m"

definition priority :: "'a pickle_scheme \<Rightarrow> u32 option" where
  "priority m = map_option (\<lambda>f. f AND PRIORITY_MASK) (flags m)"

definition is_sync :: "'a pickle_scheme \<Rightarrow> bool option" where
  "is_sync m = map_option (\<lambda>f. f AND SYNC_BIT \<noteq> 0) (flags m)"

definition set_sync :: "'a pickle_scheme \<Rightarrow> 'a pickle_scheme option" where
  "set_sync m = do { f \<leftarrow> flags m; set_flags (f OR SYNC_BIT) m }"

definition set_reply :: "'a pickle_scheme \<Rightarrow> 'a pickle_scheme option" where
  "set_reply m = do { f \<leftarrow> flags m; set_flags (f OR REPLY_BIT) m }"

definition is_reply :: "'a pickle_scheme \<Rightarrow> bool option" where
  "is_reply m = map_option (\<lambda>f. f AND REPLY_BIT \<noteq> 0) (flags m)"

definition set_reply_error :: "'a pickle_scheme \<Rightarrow> 'a pickle_scheme option" where
  "set_reply_error m = do { f \<leftarrow> flags m; set_flags (f OR REPLY_ERROR_BIT) m }"

definition is_reply_error :: "'a pickle_scheme \<Rightarrow> bool option" where
  "is_reply_error m = map_option (\<lambda>f. f AND REPLY_ERROR_BIT \<noteq> 0) (flags m)"

definition set_unblock :: "bool \<Rightarrow> 'a pickle_scheme \<Rightarrow> 'a pickle_scheme option" where
  "set_unblock unblock m = do { f \<leftarrow> flags m;
     set_flags (if unblock then f OR UNBLOCK_BIT else f AND NOT UNBLOCK_BIT) m }"

definition should_unblock :: "'a pickle_scheme \<Rightarrow> bool option" where
  "should_unblock m = map_option (\<lambda>f. f AND UNBLOCK_BIT \<noteq> 0) (flags m)"

definition is_caller_pumping_messages :: "'a pickle_scheme \<Rightarrow> bool option" where
  "is_caller_pumping_messages m = map_option (\<lambda>f. f AND PUMPING_MSGS_BIT \<noteq> 0) (flags m)"

section \<open>Construction, copy and framing\<close>

definition as_message :: "pickle \<Rightarrow> FileDescriptorSet option \<Rightarrow> message" where
  "as_message p s = pickle.extend p (message.fields s)"

definition init_header :: "u32 \<Rightarrow> u32 \<Rightarrow> u32 \<Rightarrow> message \<Rightarrow> message option" where
  "init_header routing typ flgs m = do {
     m1 \<leftarrow> set_field32 4 routing m;
     m2 \<leftarrow> set_field32 8 typ m1;
     m3 \<leftarrow> set_field32 12 flgs m2;
     m4 \<leftarrow> set_field16 16 0 m3;
     set_field16 18 0 m4 }"

definition Message_default :: "heap \<Rightarrow> message option" where
  "Message_default h = do {
     p \<leftarrow> Pickle_header h sizeof_MessageHeader;
     init_header 0 0 0 (as_message p None) }"

definition Message_new :: "heap \<Rightarrow> u32 \<Rightarrow> u32 \<Rightarrow> u32 \<Rightarrow> message option" where
  "Message_new h routing typ prio = do {
     p \<leftarrow> Pickle_header h sizeof_MessageHeader;
     init_header routing typ prio (as_message p None) }"

definition Message_const :: "u32 \<Rightarrow> u8 list \<Rightarrow> message option" where
  "Message_const addr data = map_option (\<lambda>p. as_message p None) (Pickle_const addr data)"

definition Message_copy :: "heap \<Rightarrow> message \<Rightarrow> message option" where
  "Message_copy h other = map_option (\<lambda>p. as_message p (fd_set other)) (Pickle_copy h other)"

definition Message_assign :: "heap \<Rightarrow> message \<Rightarrow> message \<Rightarrow> message option" where
  "Message_assign h other m =
     map_option (\<lambda>m'. m'\<lparr>fd_set := fd_set other\<rparr>) (Pickle_assign h other m)"

definition Message_FindNext :: "u8 list \<Rightarrow> u32 \<Rightarrow> u32 \<Rightarrow> u32 option" where
  "Message_FindNext bytes range_start range_end =
     FindNext sizeof_MessageHeader bytes range_start range_end"

section \<open>Descriptors\<close>

definition EnsureFileDescriptorSet :: "message \<Rightarrow> message" where
  "EnsureFileDescriptorSet m =
     (if fd_set m = None then m\<lparr>fd_set := Some FileDescriptorSet_new\<rparr> else m)"

definition file_descriptor_set :: "message \<Rightarrow> FileDescriptorSet" where
  "file_descriptor_set m = (case fd_set (EnsureFileDescriptorSet m) of Some s \<Rightarrow> s
     | None \<Rightarrow> FileDescriptorSet_new)"

definition WriteFileDescriptor :: "heap \<Rightarrow> FileDescriptor \<Rightarrow> message \<Rightarrow> (bool \<times> message) option" where
  "WriteFileDescriptor h descriptor m = do {
     let m0 = EnsureFileDescriptorSet m;
     (_, m1) \<leftarrow> WriteInt h (word_of_nat (fds_size (file_descriptor_set m0))) m0;
     let s = file_descriptor_set m1;
     let (ok, s') = (if auto_close descriptor then fds_AddAndAutoClose (fd descriptor) s
       else fds_Add (fd descriptor) s);
     Some (ok, m1\<lparr>fd_set := Some s'\<rparr>) }"

text \<open>A read that may move the high-water mark of the set returns the message as well.\<close>

type_synonym 'a reading = "('a option \<times> u32 \<times> message) option"

definition ReadFileDescriptor :: "message \<Rightarrow> u32 \<Rightarrow> FileDescriptor reading" where
  "ReadFileDescriptor m iter = do {
     (r, it) \<leftarrow> ReadInt m iter;
     case r of None \<Rightarrow> Some (None, it, m)
     | Some descriptor_index \<Rightarrow>
         (case fd_set m of None \<Rightarrow> Some (None, it, m)
          | Some s \<Rightarrow>
              (case GetDescriptorAt (unat descriptor_index) s of (f, s') \<Rightarrow>
                 Some (if f \<ge> 0 then Some \<lparr>fd = f, auto_close = True\<rparr> else None, it,
                   m\<lparr>fd_set := Some s'\<rparr>))) }"


section \<open>The header of a well-formed message\<close>

text \<open>A message whose header and payload lie in its block, as built or as received whole.\<close>

definition msg_ok :: "'a pickle_scheme \<Rightarrow> bool" where
  "msg_ok m \<longleftrightarrow> in_block m \<and> hdr_size m = 20"

lemma msg_okD:
  assumes "msg_ok m"
  shows "in_block m" "hdr_size m = 20" "20 + psize m \<le> length (hdr_mem m)"
proof -
  show i: "in_block m" and h: "hdr_size m = 20" using assms by (simp_all add: msg_ok_def)
  from i show "20 + psize m \<le> length (hdr_mem m)" unfolding in_block_def h by simp
qed

lemma length_extra_header [simp]: "msg_ok m \<Longrightarrow> length (extra_header m) = 16"
  using msg_okD [of m] by (simp add: extra_header_def)

lemma hdr_bytes:
  assumes "msg_ok m" "4 \<le> unat off" "unat off + n \<le> 20"
  shows "pload m (hdr m + off) n = Some (take n (drop (unat off - 4) (extra_header m)))"
proof -
  have "take n (drop (unat off) (hdr_mem m)) = take n (drop (unat off) (take 20 (hdr_mem m)))"
    using assms(3) by (rule take_drop_prefix [symmetric])
  also have "\<dots> = take n (drop (unat off - 4) (drop 4 (take 20 (hdr_mem m))))"
    using assms(2) by simp
  finally have "take n (drop (unat off) (hdr_mem m)) = take n (drop (unat off - 4) (extra_header m))"
    using assms(1) by (simp add: extra_header_def msg_ok_def)
  moreover have "20 \<le> length (hdr_mem m)" using msg_okD [OF assms(1)] by simp
  ultimately show ?thesis using assms(3) by (simp add: pload_def mload_def)
qed

lemma header_fields:
  assumes "msg_ok m"
  shows "routing_id m = Some (bytes_w32 (take 4 (extra_header m)))"
    "msg_type m = Some (bytes_w32 (take 4 (drop 4 (extra_header m))))"
    "flags m = Some (bytes_w32 (take 4 (drop 8 (extra_header m))))"
    "num_fds m = Some (bytes_w16 (take 2 (drop 12 (extra_header m))))"
  using hdr_bytes [OF assms] by (simp_all add: routing_id_def msg_type_def flags_def num_fds_def
    field32_def field16_def)

lemma header_safe [mem_simps]:
  assumes "msg_ok m"
  shows "routing_id m \<noteq> None" "msg_type m \<noteq> None" "flags m \<noteq> None" "num_fds m \<noteq> None"
    "is_sync m \<noteq> None" "is_reply m \<noteq> None" "priority m \<noteq> None"
  using header_fields [OF assms] by (simp_all add: is_sync_def is_reply_def priority_def)

text \<open>Two messages that differ in header bytes after the size word only.\<close>

definition same_payload :: "'a pickle_scheme \<Rightarrow> 'a pickle_scheme \<Rightarrow> bool" where
  "same_payload m m' \<longleftrightarrow> m' = m\<lparr>hdr_mem := hdr_mem m'\<rparr> \<and> length (hdr_mem m') = length (hdr_mem m) \<and>
     psize m' = psize m \<and> padded_payload m' = padded_payload m"

lemma same_payload_refl [simp]: "same_payload m m"
  by (simp add: same_payload_def)

lemma same_payload_more:
  assumes "same_payload m m'"
  shows "hdr m' = hdr m" "hdr_size m' = hdr_size m" "capacity m' = capacity m"
    "variable_buffer_offset m' = variable_buffer_offset m" "pickle.more m' = pickle.more m"
    "length (hdr_mem m') = length (hdr_mem m)" "psize m' = psize m" "padded_payload m' = padded_payload m"
proof -
  obtain X where X: "m' = m\<lparr>hdr_mem := X\<rparr>" using assms unfolding same_payload_def by blast
  then show "hdr m' = hdr m" "hdr_size m' = hdr_size m" "capacity m' = capacity m"
    "variable_buffer_offset m' = variable_buffer_offset m" "pickle.more m' = pickle.more m" by simp_all
qed (use assms in \<open>simp_all add: same_payload_def\<close>)

lemma same_payload_trans:
  assumes "same_payload m m1" "same_payload m1 m2"
  shows "same_payload m m2"
proof -
  have "m1 = m\<lparr>hdr_mem := hdr_mem m1\<rparr>" "m2 = m1\<lparr>hdr_mem := hdr_mem m2\<rparr>"
    using assms by (auto simp: same_payload_def)
  then obtain X Y where X: "m1 = m\<lparr>hdr_mem := X\<rparr>" and Y: "m2 = m1\<lparr>hdr_mem := Y\<rparr>" by blast
  then have "m2 = m\<lparr>hdr_mem := hdr_mem m2\<rparr>" by simp
  then show ?thesis using same_payload_more [OF assms(1)] same_payload_more [OF assms(2)]
    unfolding same_payload_def by simp
qed

lemma same_payload_ok:
  assumes "same_payload m m'"
  shows "msg_ok m' = msg_ok m" "writable m' = writable m" "in_block m' = in_block m"
  using same_payload_more [OF assms] by (simp_all add: msg_ok_def in_block_def writable_def)

lemma pstore_header:
  assumes "msg_ok m" "4 \<le> unat off" "unat off + length bs \<le> 20"
  obtains m' where "pstore (hdr m + off) bs m = Some m'" "same_payload m m'"
    "extra_header m' = take (unat off - 4) (extra_header m) @ bs @
       drop (unat off - 4 + length bs) (extra_header m)"
proof
  let ?mem = "hdr_mem m"
  let ?new = "take (unat off) ?mem @ bs @ drop (unat off + length bs) ?mem"
  let ?m' = "m\<lparr>hdr_mem := ?new\<rparr>"
  have l: "20 \<le> length ?mem" and ib: "in_block m" and hs: "hdr_size m = 20"
    using msg_okD [OF assms(1)] by simp_all
  show "pstore (hdr m + off) bs m = Some ?m'"
    using l assms(3) by (intro pstore_at) simp_all
  have d: "drop 20 ?new = drop 20 ?mem" using l assms(3) by simp
  have t4: "take 4 ?new = take 4 ?mem" using l assms(2) by simp
  have ps: "psize ?m' = psize m" using t4 by (simp add: psize_def)
  show "same_payload m ?m'"
    using d ps l assms(3) by (simp add: same_payload_def padded_payload_def hs)
  have "take 20 ?new = take (unat off) ?mem @ bs @ take (20 - (unat off + length bs)) (drop (unat off + length bs) ?mem)"
    using l assms(3) by simp
  then have "extra_header ?m' = drop 4 (take (unat off) ?mem) @ bs @ take (20 - (unat off + length bs)) (drop (unat off + length bs) ?mem)"
    using l assms(2,3) by (simp add: extra_header_def hs)
  moreover have "take (unat off - 4) (extra_header m) = drop 4 (take (unat off) ?mem)"
    using assms(2,3) by (simp add: extra_header_def hs drop_take)
  moreover have "drop (unat off - 4 + length bs) (extra_header m) =
      take (20 - (unat off + length bs)) (drop (unat off + length bs) ?mem)"
    using assms(2,3) by (simp add: extra_header_def hs drop_take)
  ultimately show "extra_header ?m' = take (unat off - 4) (extra_header m) @ bs @
      drop (unat off - 4 + length bs) (extra_header m)" by simp
qed

text \<open>Writing one field of the header leaves the others and the payload alone.\<close>

definition header_of :: "'a pickle_scheme \<Rightarrow> (u32 \<times> u32 \<times> u32 \<times> u16) option" where
  "header_of m = do { r \<leftarrow> routing_id m; t \<leftarrow> msg_type m; f \<leftarrow> flags m; n \<leftarrow> num_fds m; Some (r, t, f, n) }"

lemma header_of_ok: "msg_ok m \<Longrightarrow> \<exists>r t f n. header_of m = Some (r, t, f, n)"
  by (simp add: header_of_def header_fields)

lemma header_of_fields:
  "header_of m = Some (r, t, f, n) \<longleftrightarrow> routing_id m = Some r \<and> msg_type m = Some t \<and> flags m = Some f \<and>
    num_fds m = Some n"
  by (auto simp: header_of_def bind_eq_Some_conv)

lemma set_header_fields:
  fixes m :: "'a pickle_scheme"
  assumes "msg_ok m" "header_of m = Some (r, t, f, n)"
  shows "\<exists>m'. set_field32 4 v m = Some m' \<and> same_payload m m' \<and> header_of m' = Some (v, t, f, n)"
    "\<exists>m'. set_field32 8 v m = Some m' \<and> same_payload m m' \<and> header_of m' = Some (r, v, f, n)"
    "\<exists>m'. set_field32 12 v m = Some m' \<and> same_payload m m' \<and> header_of m' = Some (r, t, v, n)"
    "\<exists>m'. set_field16 16 w m = Some m' \<and> same_payload m m' \<and> header_of m' = Some (r, t, f, w)"
    "\<exists>m'. set_field16 18 w m = Some m' \<and> same_payload m m' \<and> header_of m' = Some (r, t, f, n)"
proof -
  note F = header_fields [OF assms(1)]
  let ?eh = "extra_header m"
  have l: "length ?eh = 16" using assms(1) by simp
  have h: "bytes_w32 (take 4 ?eh) = r" "bytes_w32 (take 4 (drop 4 ?eh)) = t"
    "bytes_w32 (take 4 (drop 8 ?eh)) = f" "bytes_w16 (take 2 (drop 12 ?eh)) = n"
    using assms(2) F by (simp_all add: header_of_fields)
  have *: "\<exists>m'. pstore (hdr m + off) bs m = Some m' \<and> same_payload m m' \<and> header_of m' = Some x"
    if "4 \<le> unat off" "unat off + length bs \<le> 20"
      "\<And>m' :: 'a pickle_scheme. extra_header m' = take (unat off - 4) ?eh @ bs @ drop (unat off - 4 + length bs) ?eh \<Longrightarrow>
        (bytes_w32 (take 4 (extra_header m')), bytes_w32 (take 4 (drop 4 (extra_header m'))),
         bytes_w32 (take 4 (drop 8 (extra_header m'))), bytes_w16 (take 2 (drop 12 (extra_header m')))) = x"
    for off bs x
  proof -
    from pstore_header [OF assms(1) that(1,2)] obtain m' where m': "pstore (hdr m + off) bs m = Some m'"
      "same_payload m m'" "extra_header m' = take (unat off - 4) ?eh @ bs @ drop (unat off - 4 + length bs) ?eh" .
    have "msg_ok m'" using assms(1) same_payload_ok [OF m'(2)] by simp
    from header_fields [OF this] that(3) [OF m'(3)]
    have "header_of m' = Some x" by (auto simp: header_of_def)
    with m' show ?thesis by blast
  qed
  show "\<exists>m'. set_field32 4 v m = Some m' \<and> same_payload m m' \<and> header_of m' = Some (v, t, f, n)"
    unfolding set_field32_def by (rule *) (simp_all add: h l)
  show "\<exists>m'. set_field32 8 v m = Some m' \<and> same_payload m m' \<and> header_of m' = Some (r, v, f, n)"
    unfolding set_field32_def by (rule *) (simp_all add: h l)
  show "\<exists>m'. set_field32 12 v m = Some m' \<and> same_payload m m' \<and> header_of m' = Some (r, t, v, n)"
    unfolding set_field32_def by (rule *) (simp_all add: h l drop_take take_drop_prefix)
  show "\<exists>m'. set_field16 16 w m = Some m' \<and> same_payload m m' \<and> header_of m' = Some (r, t, f, w)"
    unfolding set_field16_def by (rule *) (simp_all add: h l drop_take take_drop_prefix)
  show "\<exists>m'. set_field16 18 w m = Some m' \<and> same_payload m m' \<and> header_of m' = Some (r, t, f, n)"
    unfolding set_field16_def by (rule *) (simp_all add: h l drop_take take_drop_prefix)
qed


section \<open>Building messages\<close>

lemma message_appended:
  assumes "msg_ok m" "appended m cs m'"
  shows "msg_ok m'" "header_of m' = header_of m"
proof -
  show "msg_ok m'" using assms by (simp add: msg_ok_def appended_def writable_def)
  then show "header_of m' = header_of m"
    using header_fields [OF assms(1)] header_fields [of m'] assms(2)
    by (simp add: header_of_def appended_def)
qed

lemma as_message_simps [simp]:
  "hdr (as_message p s) = hdr p" "hdr_mem (as_message p s) = hdr_mem p"
  "hdr_size (as_message p s) = hdr_size p" "capacity (as_message p s) = capacity p"
  "variable_buffer_offset (as_message p s) = variable_buffer_offset p" "fd_set (as_message p s) = s"
  by (simp_all add: as_message_def pickle.extend_def message.fields_def)

lemma as_message_views [simp]:
  "psize (as_message p s) = psize p" "in_block (as_message p s) = in_block p"
  "writable (as_message p s) = writable p" "readable (as_message p s) = readable p"
  "extra_header (as_message p s) = extra_header p" "payload_bytes (as_message p s) = payload_bytes p"
  "padded_payload (as_message p s) = padded_payload p"
  by (simp_all add: psize_def in_block_def writable_def readable_def extra_header_def payload_bytes_def
    padded_payload_def)

lemma init_header_ok:
  assumes "msg_ok m"
  shows "\<exists>m'. init_header r t f m = Some m' \<and> same_payload m m' \<and> header_of m' = Some (r, t, f, 0)"
proof -
  obtain r0 t0 f0 n0 where h0: "header_of m = Some (r0, t0, f0, n0)" using header_of_ok [OF assms] by blast
  obtain m1 where m1: "set_field32 4 r m = Some m1" "same_payload m m1" "header_of m1 = Some (r, t0, f0, n0)"
    using set_header_fields(1) [OF assms h0] by blast
  have k1: "msg_ok m1" using same_payload_ok [OF m1(2)] assms by simp
  obtain m2 where m2: "set_field32 8 t m1 = Some m2" "same_payload m1 m2" "header_of m2 = Some (r, t, f0, n0)"
    using set_header_fields(2) [OF k1 m1(3)] by blast
  have k2: "msg_ok m2" using same_payload_ok [OF m2(2)] k1 by simp
  obtain m3 where m3: "set_field32 12 f m2 = Some m3" "same_payload m2 m3" "header_of m3 = Some (r, t, f, n0)"
    using set_header_fields(3) [OF k2 m2(3)] by blast
  have k3: "msg_ok m3" using same_payload_ok [OF m3(2)] k2 by simp
  obtain m4 where m4: "set_field16 16 0 m3 = Some m4" "same_payload m3 m4" "header_of m4 = Some (r, t, f, 0)"
    using set_header_fields(4) [OF k3 m3(3)] by blast
  have k4: "msg_ok m4" using same_payload_ok [OF m4(2)] k3 by simp
  obtain m5 where m5: "set_field16 18 0 m4 = Some m5" "same_payload m4 m5" "header_of m5 = Some (r, t, f, 0)"
    using set_header_fields(5) [OF k4 m4(3)] by blast
  have "same_payload m m5"
    using m1(2) m2(2) m3(2) m4(2) m5(2) by (meson same_payload_trans)
  then show ?thesis using m1(1) m2(1) m3(1) m4(1) m5(1,3) by (auto simp: init_header_def)
qed

text \<open>A new message has the header it was asked for, no payload, and can be written to.\<close>

lemma Message_new_ok:
  assumes "heap_ok h L" "128 \<le> L" "L < 4294967296"
  obtains m where "Message_new h r t p = Some m" "writable m" "msg_ok m" "psize m = 0"
    "header_of m = Some (r, t, p, 0)" "fd_set m = None"
proof -
  have "unat (AlignInt sizeof_MessageHeader 4) = align_up 4 20"
    by (subst unat_AlignInt) (simp_all add: sizeof_MessageHeader_def)
  then have "unat (AlignInt sizeof_MessageHeader 4) = unat (20 :: u32)" by (simp add: align_up_def)
  then have al: "AlignInt sizeof_MessageHeader 4 = 20" by (rule unsigned_word_eqI)
  obtain q where q: "Pickle_header h sizeof_MessageHeader = Some q" "writable q" "hdr_size q = 20" "psize q = 0"
    using Pickle_init_ok [OF assms, of 20] unfolding Pickle_header_def al by auto
  let ?m = "as_message q None"
  have ok: "msg_ok ?m" using q by (simp add: msg_ok_def writable_def)
  obtain m where m: "init_header r t p ?m = Some m" "same_payload ?m m" "header_of m = Some (r, t, p, 0)"
    using init_header_ok [OF ok] by blast
  obtain X where "m = ?m\<lparr>hdr_mem := X\<rparr>" using m(2) unfolding same_payload_def by blast
  then have "fd_set m = None" by simp
  with m q ok same_payload_ok [OF m(2)] same_payload_more [OF m(2)] show thesis
    by (intro that [of m]) (simp_all add: Message_new_def)
qed

text \<open>Setting a flag changes that flag only.\<close>

lemma set_flags_ok:
  assumes "msg_ok m" "header_of m = Some (r, t, f, n)"
  shows "\<exists>m'. set_flags v m = Some m' \<and> same_payload m m' \<and> header_of m' = Some (r, t, v, n)"
  using set_header_fields(3) [OF assms] by (simp add: set_flags_def)

lemma sample_message:
  obtains m where "Message_new sample_heap r t p = Some m" "writable m" "msg_ok m" "psize m = 0"
    "header_of m = Some (r, t, p, 0)" "fd_set m = None"
proof -
  have h: "heap_ok sample_heap 4096" by (rule sample_heap_ok) simp
  show thesis by (rule Message_new_ok [OF h, where r = r and t = t and p = p]) (simp_all add: that)
qed

end
