(* ===== verification/Values.thy ===== *)
theory Values imports Prelude "HOL-Library.List_Lexorder" begin

text \<open>
  The recursive value type of \<open>base/values.h\<close> and \<open>base/values.cc\<close>. A \<open>Value\<close> owns its children, so
  a tree of values is a datatype; \<open>std::string\<close> is a list of bytes, a double its 64-bit pattern, and
  the \<open>std::map\<close> of a dictionary an association list in ascending key order (the byte-wise order of
  \<open>std::string\<close>), so that the iteration order of the code is the list order. Operations that mutate
  an object return the new object.
\<close>

section \<open>Values\<close>

type_synonym str = "u8 list"

datatype Value =
    NullValue
  | BooleanValue bool
  | IntegerValue u32
  | RealValue u64
  | StringValue str
  | BinaryValue "u8 list"
  | DictionaryValue "(str \<times> Value) list"
  | ListValue "Value list"

type_synonym value_map = "(str \<times> Value) list"

datatype value_type =
    TYPE_NULL | TYPE_BOOLEAN | TYPE_INTEGER | TYPE_REAL
  | TYPE_STRING | TYPE_BINARY | TYPE_DICTIONARY | TYPE_LIST

fun GetType :: "Value \<Rightarrow> value_type" where
  "GetType NullValue = TYPE_NULL"
| "GetType (BooleanValue _) = TYPE_BOOLEAN"
| "GetType (IntegerValue _) = TYPE_INTEGER"
| "GetType (RealValue _) = TYPE_REAL"
| "GetType (StringValue _) = TYPE_STRING"
| "GetType (BinaryValue _) = TYPE_BINARY"
| "GetType (DictionaryValue _) = TYPE_DICTIONARY"
| "GetType (ListValue _) = TYPE_LIST"

fun type_code :: "value_type \<Rightarrow> u32" where
  "type_code TYPE_NULL = 0"
| "type_code TYPE_BOOLEAN = 1"
| "type_code TYPE_INTEGER = 2"
| "type_code TYPE_REAL = 3"
| "type_code TYPE_STRING = 4"
| "type_code TYPE_BINARY = 5"
| "type_code TYPE_DICTIONARY = 6"
| "type_code TYPE_LIST = 7"

definition IsType :: "value_type \<Rightarrow> Value \<Rightarrow> bool" where
  "IsType t v = (t = GetType v)"

fun GetAsBoolean :: "Value \<Rightarrow> bool option" where
  "GetAsBoolean (BooleanValue b) = Some b"
| "GetAsBoolean _ = None"

fun GetAsInteger :: "Value \<Rightarrow> u32 option" where
  "GetAsInteger (IntegerValue i) = Some i"
| "GetAsInteger _ = None"

fun GetAsReal :: "Value \<Rightarrow> u64 option" where
  "GetAsReal (RealValue r) = Some r"
| "GetAsReal _ = None"

fun GetAsString :: "Value \<Rightarrow> str option" where
  "GetAsString (StringValue s) = Some s"
| "GetAsString _ = None"

fun GetAsBinary :: "Value \<Rightarrow> u8 list option" where
  "GetAsBinary (BinaryValue b) = Some b"
| "GetAsBinary _ = None"

fun GetAsDictionary :: "Value \<Rightarrow> value_map option" where
  "GetAsDictionary (DictionaryValue d) = Some d"
| "GetAsDictionary _ = None"

fun GetAsList :: "Value \<Rightarrow> Value list option" where
  "GetAsList (ListValue l) = Some l"
| "GetAsList _ = None"

section \<open>The ordered map of a dictionary\<close>

fun map_insert :: "'k :: linorder \<Rightarrow> 'v \<Rightarrow> ('k \<times> 'v) list \<Rightarrow> ('k \<times> 'v) list" where
  "map_insert k v [] = [(k, v)]"
| "map_insert k v ((k', v') # m) =
     (if k < k' then (k, v) # (k', v') # m
      else if k = k' then (k, v) # m
      else (k', v') # map_insert k v m)"

fun map_erase :: "'k :: linorder \<Rightarrow> ('k \<times> 'v) list \<Rightarrow> ('k \<times> 'v) list" where
  "map_erase k [] = []"
| "map_erase k ((k', v') # m) = (if k = k' then m else (k', v') # map_erase k m)"

section \<open>Dictionary operations\<close>

definition HasKey :: "str \<Rightarrow> value_map \<Rightarrow> bool" where
  "HasKey key d = (map_of d key \<noteq> None)"

definition SetWithoutPathExpansion :: "str \<Rightarrow> Value \<Rightarrow> value_map \<Rightarrow> value_map" where
  "SetWithoutPathExpansion key in_value d = map_insert key in_value d"

definition GetWithoutPathExpansion :: "str \<Rightarrow> value_map \<Rightarrow> Value option" where
  "GetWithoutPathExpansion key d = map_of d key"

definition GetIntegerWithoutPathExpansion :: "str \<Rightarrow> value_map \<Rightarrow> u32 option" where
  "GetIntegerWithoutPathExpansion key d = Option.bind (GetWithoutPathExpansion key d) GetAsInteger"

definition GetRealWithoutPathExpansion :: "str \<Rightarrow> value_map \<Rightarrow> u64 option" where
  "GetRealWithoutPathExpansion key d = Option.bind (GetWithoutPathExpansion key d) GetAsReal"

definition GetStringWithoutPathExpansion :: "str \<Rightarrow> value_map \<Rightarrow> str option" where
  "GetStringWithoutPathExpansion key d = Option.bind (GetWithoutPathExpansion key d) GetAsString"

definition GetDictionaryWithoutPathExpansion :: "str \<Rightarrow> value_map \<Rightarrow> value_map option" where
  "GetDictionaryWithoutPathExpansion key d = Option.bind (GetWithoutPathExpansion key d) GetAsDictionary"

definition GetListWithoutPathExpansion :: "str \<Rightarrow> value_map \<Rightarrow> Value list option" where
  "GetListWithoutPathExpansion key d = Option.bind (GetWithoutPathExpansion key d) GetAsList"

text \<open>A path is cut at its first \<open>'.'\<close> (byte 46).\<close>

definition path_head :: "str \<Rightarrow> str" where
  "path_head path = takeWhile (\<lambda>c. c \<noteq> 46) path"

definition path_tail :: "str \<Rightarrow> str" where
  "path_tail path = drop (Suc (length (path_head path))) path"

lemma path_head_shorter: "46 \<in> set path \<Longrightarrow> length (path_head path) < length path"
  unfolding path_head_def by (induction path) auto

lemma path_tail_shorter: "46 \<in> set path \<Longrightarrow> length (path_tail path) < length path"
  using path_head_shorter [of path] by (simp add: path_tail_def)

function Dict_Get :: "str \<Rightarrow> value_map \<Rightarrow> Value option"
  and Dict_GetDictionary :: "str \<Rightarrow> value_map \<Rightarrow> value_map option" where
  "Dict_Get path d =
     (if 46 \<in> set path
      then (case Dict_GetDictionary (path_head path) d of None \<Rightarrow> None
        | Some child \<Rightarrow> Dict_Get (path_tail path) child)
      else GetWithoutPathExpansion path d)"
| "Dict_GetDictionary path d = Option.bind (Dict_Get path d) GetAsDictionary"
  by pat_completeness auto
termination
  by (relation "measure (\<lambda>x. case x of Inl (p, d) \<Rightarrow> 2 * length p | Inr (p, d) \<Rightarrow> 2 * length p + 1)")
    (auto dest: path_head_shorter path_tail_shorter)

declare Dict_Get.simps [simp del] Dict_GetDictionary.simps [simp del]

definition Dict_GetBoolean :: "str \<Rightarrow> value_map \<Rightarrow> bool option" where
  "Dict_GetBoolean path d = Option.bind (Dict_Get path d) GetAsBoolean"

definition Dict_GetInteger :: "str \<Rightarrow> value_map \<Rightarrow> u32 option" where
  "Dict_GetInteger path d = Option.bind (Dict_Get path d) GetAsInteger"

definition Dict_GetReal :: "str \<Rightarrow> value_map \<Rightarrow> u64 option" where
  "Dict_GetReal path d = Option.bind (Dict_Get path d) GetAsReal"

definition Dict_GetString :: "str \<Rightarrow> value_map \<Rightarrow> str option" where
  "Dict_GetString path d = Option.bind (Dict_Get path d) GetAsString"

definition Dict_GetStringASCII :: "str \<Rightarrow> value_map \<Rightarrow> str option" where
  "Dict_GetStringASCII path d = Option.bind (Dict_GetString path d)
     (\<lambda>out. if \<forall>c \<in> set out. c < 128 then Some out else None)"

definition Dict_GetBinary :: "str \<Rightarrow> value_map \<Rightarrow> u8 list option" where
  "Dict_GetBinary path d = Option.bind (Dict_Get path d) GetAsBinary"

definition Dict_GetList :: "str \<Rightarrow> value_map \<Rightarrow> Value list option" where
  "Dict_GetList path d = Option.bind (Dict_Get path d) GetAsList"

function Dict_Set :: "str \<Rightarrow> Value \<Rightarrow> value_map \<Rightarrow> value_map" where
  "Dict_Set path in_value d =
     (if 46 \<in> set path
      then (let key = path_head path;
                child = (case Dict_GetDictionary key d of Some c \<Rightarrow> c | None \<Rightarrow> [])
            in SetWithoutPathExpansion key (DictionaryValue (Dict_Set (path_tail path) in_value child)) d)
      else SetWithoutPathExpansion path in_value d)"
  by pat_completeness auto
termination
  by (relation "measure (\<lambda>(p, v, d). length p)") (auto dest: path_tail_shorter)

declare Dict_Set.simps [simp del]

definition Dict_SetBoolean :: "str \<Rightarrow> bool \<Rightarrow> value_map \<Rightarrow> value_map" where
  "Dict_SetBoolean path b d = Dict_Set path (BooleanValue b) d"

definition Dict_SetInteger :: "str \<Rightarrow> u32 \<Rightarrow> value_map \<Rightarrow> value_map" where
  "Dict_SetInteger path i d = Dict_Set path (IntegerValue i) d"

definition Dict_SetReal :: "str \<Rightarrow> u64 \<Rightarrow> value_map \<Rightarrow> value_map" where
  "Dict_SetReal path r d = Dict_Set path (RealValue r) d"

definition Dict_SetString :: "str \<Rightarrow> str \<Rightarrow> value_map \<Rightarrow> value_map" where
  "Dict_SetString path s d = Dict_Set path (StringValue s) d"

definition RemoveWithoutPathExpansion :: "str \<Rightarrow> value_map \<Rightarrow> Value option \<times> value_map" where
  "RemoveWithoutPathExpansion key d = (case map_of d key of None \<Rightarrow> (None, d)
     | Some entry \<Rightarrow> (Some entry, map_erase key d))"

text \<open>
  \<open>Remove\<close> cuts the path at its last \<open>'.'\<close>. The dictionary found under the prefix is changed in
  place; \<open>Dict_Set\<close> puts the changed dictionary back where it was found.
\<close>

definition Dict_Remove :: "str \<Rightarrow> value_map \<Rightarrow> Value option \<times> value_map" where
  "Dict_Remove path d =
     (if 46 \<in> set path
      then (let key = rev (takeWhile (\<lambda>c. c \<noteq> 46) (rev path));
                prefix = take (length path - Suc (length key)) path
            in case Dict_GetDictionary prefix d of None \<Rightarrow> (None, d)
               | Some c \<Rightarrow> (case RemoveWithoutPathExpansion key c of (r, c') \<Rightarrow>
                   (r, Dict_Set prefix (DictionaryValue c') d)))
      else RemoveWithoutPathExpansion path d)"

section \<open>Copies, comparison and merging\<close>

fun DeepCopy :: "Value \<Rightarrow> Value"
  and DeepCopy_entries :: "value_map \<Rightarrow> value_map \<Rightarrow> value_map"
  and DeepCopy_items :: "Value list \<Rightarrow> Value list \<Rightarrow> Value list" where
  "DeepCopy (DictionaryValue d) = DictionaryValue (DeepCopy_entries d [])"
| "DeepCopy (ListValue l) = ListValue (DeepCopy_items l [])"
| "DeepCopy (StringValue s) = StringValue s"
| "DeepCopy (BinaryValue b) = BinaryValue b"
| "DeepCopy (BooleanValue b) = BooleanValue b"
| "DeepCopy (IntegerValue i) = IntegerValue i"
| "DeepCopy (RealValue r) = RealValue r"
| "DeepCopy NullValue = NullValue"
| "DeepCopy_entries [] result = result"
| "DeepCopy_entries ((k, v) # d) result =
     DeepCopy_entries d (SetWithoutPathExpansion k (DeepCopy v) result)"
| "DeepCopy_items [] result = result"
| "DeepCopy_items (v # l) result = DeepCopy_items l (result @ [DeepCopy v])"

text \<open>Comparison of doubles by their bit patterns: a NaN equals nothing, the two zeros are equal.\<close>

definition real_nan :: "u64 \<Rightarrow> bool" where
  "real_nan r = (r AND 0x7ff0000000000000 = 0x7ff0000000000000 \<and> r AND 0x000fffffffffffff \<noteq> 0)"

definition real_zero :: "u64 \<Rightarrow> bool" where
  "real_zero r = (r AND 0x7fffffffffffffff = 0)"

definition real_eq :: "u64 \<Rightarrow> u64 \<Rightarrow> bool" where
  "real_eq a b = (\<not> real_nan a \<and> \<not> real_nan b \<and> (a = b \<or> (real_zero a \<and> real_zero b)))"

fun Equals :: "Value \<Rightarrow> Value \<Rightarrow> bool"
  and Equals_entries :: "value_map \<Rightarrow> value_map \<Rightarrow> bool"
  and Equals_items :: "Value list \<Rightarrow> Value list \<Rightarrow> bool" where
  "Equals NullValue other = (GetType other = TYPE_NULL)"
| "Equals (BooleanValue b) other = (GetAsBoolean other = Some b)"
| "Equals (IntegerValue i) other = (GetAsInteger other = Some i)"
| "Equals (RealValue r) other = (case GetAsReal other of Some r' \<Rightarrow> real_eq r r' | None \<Rightarrow> False)"
| "Equals (StringValue s) other = (GetAsString other = Some s)"
| "Equals (BinaryValue b) other = (GetAsBinary other = Some b)"
| "Equals (DictionaryValue d) other = (case other of DictionaryValue d' \<Rightarrow> Equals_entries d d' | _ \<Rightarrow> False)"
| "Equals (ListValue l) other = (case other of ListValue l' \<Rightarrow> Equals_items l l' | _ \<Rightarrow> False)"
| "Equals_entries ((k, v) # d) ((k', v') # d') =
     (if k \<noteq> k' \<or> \<not> Equals v v' then False else Equals_entries d d')"
| "Equals_entries [] [] = True"
| "Equals_entries _ _ = False"
| "Equals_items (v # l) (v' # l') = (if \<not> Equals v v' then False else Equals_items l l')"
| "Equals_items [] [] = True"
| "Equals_items _ _ = False"

fun CopyWithoutEmptyChildren :: "Value \<Rightarrow> Value option"
  and CopyWithout_entries :: "value_map \<Rightarrow> value_map \<Rightarrow> value_map"
  and CopyWithout_items :: "Value list \<Rightarrow> Value list \<Rightarrow> Value list" where
  "CopyWithoutEmptyChildren (ListValue l) =
     (case CopyWithout_items l [] of [] \<Rightarrow> None | c # cs \<Rightarrow> Some (ListValue (c # cs)))"
| "CopyWithoutEmptyChildren (DictionaryValue d) =
     (case CopyWithout_entries d [] of [] \<Rightarrow> None | c # cs \<Rightarrow> Some (DictionaryValue (c # cs)))"
| "CopyWithoutEmptyChildren (StringValue s) = Some (DeepCopy (StringValue s))"
| "CopyWithoutEmptyChildren (BinaryValue b) = Some (DeepCopy (BinaryValue b))"
| "CopyWithoutEmptyChildren (BooleanValue b) = Some (DeepCopy (BooleanValue b))"
| "CopyWithoutEmptyChildren (IntegerValue i) = Some (DeepCopy (IntegerValue i))"
| "CopyWithoutEmptyChildren (RealValue r) = Some (DeepCopy (RealValue r))"
| "CopyWithoutEmptyChildren NullValue = Some (DeepCopy NullValue)"
| "CopyWithout_items [] copy = copy"
| "CopyWithout_items (v # l) copy = CopyWithout_items l
     (case CopyWithoutEmptyChildren v of None \<Rightarrow> copy | Some c \<Rightarrow> copy @ [c])"
| "CopyWithout_entries [] copy = copy"
| "CopyWithout_entries ((k, v) # d) copy = CopyWithout_entries d
     (case CopyWithoutEmptyChildren v of None \<Rightarrow> copy | Some c \<Rightarrow> SetWithoutPathExpansion k c copy)"

definition DeepCopyWithoutEmptyChildren :: "value_map \<Rightarrow> value_map" where
  "DeepCopyWithoutEmptyChildren d =
     (case CopyWithoutEmptyChildren (DictionaryValue d) of Some (DictionaryValue c) \<Rightarrow> c | _ \<Rightarrow> [])"

fun MergeDictionary :: "value_map \<Rightarrow> value_map \<Rightarrow> value_map"
  and Merge_value :: "Value \<Rightarrow> value_map option \<Rightarrow> Value" where
  "MergeDictionary [] this = this"
| "MergeDictionary ((key, merge_value) # dictionary) this =
     MergeDictionary dictionary
       (SetWithoutPathExpansion key
          (Merge_value merge_value (GetDictionaryWithoutPathExpansion key this)) this)"
| "Merge_value (DictionaryValue m) (Some sub_dict) = DictionaryValue (MergeDictionary m sub_dict)"
| "Merge_value v _ = DeepCopy v"

definition full_path :: "str \<Rightarrow> str \<Rightarrow> str" where
  "full_path path_prefix key = (if path_prefix = [] then key else path_prefix @ [46] @ key)"

text \<open>
  The two loops of \<open>GetDifferingPathsHelper\<close>. The first argument of the result is the return value,
  the second the paths pushed; a path pushed in advance is dropped when its subtree turns out not to
  differ.
\<close>

fun paths_alone :: "str \<Rightarrow> value_map \<Rightarrow> str list"
  and paths_alone_value :: "str \<Rightarrow> Value \<Rightarrow> str list" where
  "paths_alone prefix [] = []"
| "paths_alone prefix ((k, v) # this) =
     full_path prefix k # paths_alone_value (full_path prefix k) v @ paths_alone prefix this"
| "paths_alone_value path (DictionaryValue d) = paths_alone path d"
| "paths_alone_value path _ = []"

definition diff_alone :: "str \<Rightarrow> value_map \<Rightarrow> bool \<times> str list" where
  "diff_alone prefix this = (this \<noteq> [], paths_alone prefix this)"

fun diff_one :: "str \<Rightarrow> Value \<Rightarrow> bool \<times> str list" where
  "diff_one path (DictionaryValue d) =
     (case diff_alone path d of (changed, ps) \<Rightarrow> (changed, if changed then path # ps else butlast (path # ps)))"
| "diff_one path _ = (True, [path])"

function diff_both :: "str \<Rightarrow> value_map \<Rightarrow> value_map \<Rightarrow> bool \<times> str list"
  and diff_same_key :: "str \<Rightarrow> Value \<Rightarrow> Value \<Rightarrow> bool \<times> str list" where
  "diff_both prefix [] [] = (False, [])"
| "diff_both prefix [] ((k', v') # other) =
     (case diff_one (full_path prefix k') v' of (c, ps) \<Rightarrow>
      case diff_both prefix [] other of (c', ps') \<Rightarrow> (c \<or> c', ps @ ps'))"
| "diff_both prefix ((k, v) # this) [] =
     (case diff_one (full_path prefix k) v of (c, ps) \<Rightarrow>
      case diff_both prefix this [] of (c', ps') \<Rightarrow> (c \<or> c', ps @ ps'))"
| "diff_both prefix ((k, v) # this) ((k', v') # other) =
     (if k' < k
      then (case diff_one (full_path prefix k') v' of (c, ps) \<Rightarrow>
            case diff_both prefix ((k, v) # this) other of (c', ps') \<Rightarrow> (c \<or> c', ps @ ps'))
      else if k < k'
      then (case diff_one (full_path prefix k) v of (c, ps) \<Rightarrow>
            case diff_both prefix this ((k', v') # other) of (c', ps') \<Rightarrow> (c \<or> c', ps @ ps'))
      else (case diff_same_key (full_path prefix k) v v' of (c, ps) \<Rightarrow>
            case diff_both prefix this other of (c', ps') \<Rightarrow> (c \<or> c', ps @ ps')))"
| "diff_same_key path v v' =
     (case (v, v') of
        (DictionaryValue d, DictionaryValue d') \<Rightarrow>
          (case diff_both path d d' of (c, ps) \<Rightarrow> (c, if c then path # ps else butlast (path # ps)))
      | (DictionaryValue d, _) \<Rightarrow> diff_one path v
      | (_, DictionaryValue d') \<Rightarrow> diff_one path v'
      | _ \<Rightarrow> if Equals v v' then (False, []) else (True, [path]))"
  by pat_completeness auto
termination
  by (relation "measure (\<lambda>x. case x of Inl (p, d, d') \<Rightarrow>
      size_list (size_prod (\<lambda>_. 0) size) d + size_list (size_prod (\<lambda>_. 0) size) d'
    | Inr (p, v, v') \<Rightarrow> size v + size v')") auto

definition GetDifferingPaths :: "value_map \<Rightarrow> value_map \<Rightarrow> str list" where
  "GetDifferingPaths this other = snd (diff_both [] this other)"

section \<open>List operations\<close>

definition List_Append :: "Value \<Rightarrow> Value list \<Rightarrow> Value list" where
  "List_Append v l = l @ [v]"

definition List_Set :: "nat \<Rightarrow> Value \<Rightarrow> Value list \<Rightarrow> Value list" where
  "List_Set index v l =
     (if index \<ge> length l
      then List_Append v (l @ replicate (index - length l) NullValue)
      else l[index := v])"

definition List_Get :: "nat \<Rightarrow> Value list \<Rightarrow> Value option" where
  "List_Get index l = (if index \<ge> length l then None else Some (l ! index))"

definition List_GetBoolean :: "nat \<Rightarrow> Value list \<Rightarrow> bool option" where
  "List_GetBoolean index l = Option.bind (List_Get index l) GetAsBoolean"

definition List_GetInteger :: "nat \<Rightarrow> Value list \<Rightarrow> u32 option" where
  "List_GetInteger index l = Option.bind (List_Get index l) GetAsInteger"

definition List_GetReal :: "nat \<Rightarrow> Value list \<Rightarrow> u64 option" where
  "List_GetReal index l = Option.bind (List_Get index l) GetAsReal"

definition List_GetString :: "nat \<Rightarrow> Value list \<Rightarrow> str option" where
  "List_GetString index l = Option.bind (List_Get index l) GetAsString"

definition List_GetBinary :: "nat \<Rightarrow> Value list \<Rightarrow> u8 list option" where
  "List_GetBinary index l = Option.bind (List_Get index l) GetAsBinary"

definition List_GetDictionary :: "nat \<Rightarrow> Value list \<Rightarrow> value_map option" where
  "List_GetDictionary index l = Option.bind (List_Get index l) GetAsDictionary"

definition List_GetList :: "nat \<Rightarrow> Value list \<Rightarrow> Value list option" where
  "List_GetList index l = Option.bind (List_Get index l) GetAsList"

definition List_Remove :: "nat \<Rightarrow> Value list \<Rightarrow> Value option \<times> Value list" where
  "List_Remove index l =
     (if index \<ge> length l then (None, l) else (Some (l ! index), take index l @ drop (Suc index) l))"

fun List_RemoveValue :: "Value \<Rightarrow> Value list \<Rightarrow> nat option \<times> Value list" where
  "List_RemoveValue v [] = (None, [])"
| "List_RemoveValue v (x # l) =
     (if Equals x v then (Some 0, l)
      else (case List_RemoveValue v l of (r, l') \<Rightarrow> (map_option Suc r, x # l')))"

definition List_AppendIfNotPresent :: "Value \<Rightarrow> Value list \<Rightarrow> bool \<times> Value list" where
  "List_AppendIfNotPresent v l = (if \<exists>x \<in> set l. Equals x v then (False, l) else (True, l @ [v]))"

definition List_Insert :: "nat \<Rightarrow> Value \<Rightarrow> Value list \<Rightarrow> bool \<times> Value list" where
  "List_Insert index v l =
     (if index > length l then (False, l) else (True, take index l @ v # drop index l))"

section \<open>The map of a dictionary\<close>

definition sorted_keys :: "('k :: linorder \<times> 'v) list \<Rightarrow> bool" where
  "sorted_keys d = sorted_wrt (<) (map fst d)"

fun wf_value :: "Value \<Rightarrow> bool" where
  "wf_value (DictionaryValue d) = (sorted_keys d \<and> list_all (\<lambda>e. wf_value (snd e)) d)"
| "wf_value (ListValue l) = list_all wf_value l"
| "wf_value _ = True"

definition wf_map :: "value_map \<Rightarrow> bool" where
  "wf_map d = wf_value (DictionaryValue d)"

lemma wf_map_iff: "wf_map d \<longleftrightarrow> sorted_keys d \<and> (\<forall>e \<in> set d. wf_value (snd e))"
  by (simp add: wf_map_def list_all_iff)

lemma map_of_map_insert [simp]: "map_of (map_insert k v m) = (map_of m)(k \<mapsto> v)"
  by (induction k v m rule: map_insert.induct) (auto simp: fun_upd_twist)

lemma set_map_insert: "set (map_insert k v m) \<subseteq> insert (k, v) (set m)"
  by (induction k v m rule: map_insert.induct) auto

lemma keys_map_insert: "fst ` set (map_insert k v m) = insert k (fst ` set m)"
  by (induction k v m rule: map_insert.induct) auto

lemma sorted_map_insert: "sorted_keys m \<Longrightarrow> sorted_keys (map_insert k v m)"
proof (induction k v m rule: map_insert.induct)
  case (2 k v k' v' m)
  have "\<forall>x \<in> fst ` set (map_insert k v m). k' < x" if "k' < k"
    using 2(2) that by (simp add: keys_map_insert sorted_keys_def)
  then show ?case using 2 by (auto simp: sorted_keys_def dest: order_less_trans)
qed (simp add: sorted_keys_def)

lemma sorted_keys_distinct: "sorted_keys d \<Longrightarrow> distinct (map fst d)"
  by (simp add: sorted_keys_def strict_sorted_iff)

lemma map_of_map_erase [simp]: "distinct (map fst m) \<Longrightarrow> map_of (map_erase k m) = (map_of m)(k := None)"
  by (induction k m rule: map_erase.induct)
    (auto simp: fun_eq_iff map_of_eq_None_iff)

lemma set_map_erase: "set (map_erase k m) \<subseteq> set m"
  by (induction k m rule: map_erase.induct) auto

lemma sorted_map_erase: "sorted_keys m \<Longrightarrow> sorted_keys (map_erase k m)"
proof (induction k m rule: map_erase.induct)
  case (2 k k' v' m)
  then show ?case using set_map_erase [of k m] by (fastforce simp: sorted_keys_def)
qed (simp add: sorted_keys_def)

lemma map_insert_last: "\<forall>k' \<in> fst ` set m. k' < k \<Longrightarrow> map_insert k v m = m @ [(k, v)]"
  by (induction k v m rule: map_insert.induct) auto

lemma wf_map_insert: "wf_map m \<Longrightarrow> wf_value v \<Longrightarrow> wf_map (map_insert k v m)"
  using set_map_insert [of k v m] by (auto simp: wf_map_iff sorted_map_insert)

lemma wf_map_erase: "wf_map m \<Longrightarrow> wf_map (map_erase k m)"
  using set_map_erase [of k m] by (auto simp: wf_map_iff sorted_map_erase)

lemma wf_map_lookup: "wf_map m \<Longrightarrow> map_of m k = Some v \<Longrightarrow> wf_value v"
  by (force simp: wf_map_iff dest: map_of_SomeD)

section \<open>Paths\<close>

lemma path_head_nodot [simp]: "46 \<notin> set (path_head p)"
  by (auto simp: path_head_def dest: set_takeWhileD)

lemma path_head_id: "46 \<notin> set p \<Longrightarrow> path_head p = p"
  by (auto simp: path_head_def takeWhile_eq_all_conv)

lemma path_head_cut [simp]: "46 \<notin> set k \<Longrightarrow> path_head (k @ 46 # p) = k"
  by (induction k) (auto simp: path_head_def)

lemma path_tail_cut [simp]: "46 \<notin> set k \<Longrightarrow> path_tail (k @ 46 # p) = p"
  by (simp add: path_tail_def)

lemma path_cut: "46 \<in> set p \<Longrightarrow> p = path_head p @ 46 # path_tail p"
  by (induction p) (auto simp: path_head_def path_tail_def)

lemma Dict_Get_nodot: "46 \<notin> set k \<Longrightarrow> Dict_Get k d = map_of d k"
  by (simp add: Dict_Get.simps GetWithoutPathExpansion_def)

lemma Dict_GetDictionary_nodot: "46 \<notin> set k \<Longrightarrow>
    Dict_GetDictionary k d = Option.bind (map_of d k) GetAsDictionary"
  by (simp add: Dict_GetDictionary.simps Dict_Get_nodot)

lemma Dict_Get_dot: "46 \<notin> set k \<Longrightarrow> Dict_Get (k @ 46 # p) d =
    Option.bind (Option.bind (map_of d k) GetAsDictionary) (Dict_Get p)"
  by (subst Dict_Get.simps, cases "map_of d k")
    (auto simp: Dict_GetDictionary_nodot split: option.split)

lemma Dict_Set_nodot: "46 \<notin> set k \<Longrightarrow> Dict_Set k v d = map_insert k v d"
  by (simp add: Dict_Set.simps SetWithoutPathExpansion_def)

definition child_of :: "str \<Rightarrow> value_map \<Rightarrow> value_map" where
  "child_of k d = (case Option.bind (map_of d k) GetAsDictionary of Some c \<Rightarrow> c | None \<Rightarrow> [])"

lemma Dict_Set_dot: "46 \<notin> set k \<Longrightarrow> Dict_Set (k @ 46 # p) v d =
    map_insert k (DictionaryValue (Dict_Set p v (child_of k d))) d"
  by (subst Dict_Set.simps)
    (simp add: Dict_GetDictionary_nodot SetWithoutPathExpansion_def child_of_def Let_def)

text \<open>Induction along a path: a last key, or a key, a dot and a path.\<close>

lemma path_induct [case_names last dot]:
  fixes p :: str
  assumes "\<And>k. 46 \<notin> set k \<Longrightarrow> P k" "\<And>k p. 46 \<notin> set k \<Longrightarrow> P p \<Longrightarrow> P (k @ 46 # p)"
  shows "P p"
proof (induction "length p" arbitrary: p rule: less_induct)
  case less
  show ?case
  proof (cases "46 \<in> set p")
    case True
    have "P (path_tail p)" by (rule less) (rule path_tail_shorter [OF True])
    then have "P (path_head p @ 46 # path_tail p)" by (intro assms(2)) simp
    then show ?thesis using path_cut [OF True] by simp
  next
    case False
    then show ?thesis by (rule assms(1))
  qed
qed

lemma Dict_Get_Set_same: "Dict_Get p (Dict_Set p v d) = Some v"
  by (induction p arbitrary: d rule: path_induct)
    (simp_all add: Dict_Get_nodot Dict_Set_nodot Dict_Get_dot Dict_Set_dot)

lemma map_of_Dict_Set:
  "k \<noteq> path_head p \<Longrightarrow> map_of (Dict_Set p v d) k = map_of d k"
  by (induction p rule: path_induct) (auto simp: Dict_Set_nodot Dict_Set_dot path_head_id)

lemma Dict_Get_head: "map_of d (path_head q) = map_of d' (path_head q) \<Longrightarrow> Dict_Get q d = Dict_Get q d'"
  by (induction q rule: path_induct) (simp_all add: Dict_Get_nodot Dict_Get_dot path_head_id)

lemma Dict_Get_Set_other: "path_head q \<noteq> path_head p \<Longrightarrow> Dict_Get q (Dict_Set p v d) = Dict_Get q d"
  by (rule Dict_Get_head) (simp add: map_of_Dict_Set)

lemma child_of_wf: "wf_map d \<Longrightarrow> wf_map (child_of k d)"
proof (cases "map_of d k")
  case None
  then show ?thesis by (simp add: child_of_def wf_map_iff sorted_keys_def)
next
  case (Some v)
  assume "wf_map d"
  then have "wf_value v" using Some by (rule wf_map_lookup)
  then show ?thesis using Some
    by (cases v) (auto simp: child_of_def wf_map_iff sorted_keys_def list_all_iff)
qed

lemma Dict_Set_wf: "wf_map d \<Longrightarrow> wf_value v \<Longrightarrow> wf_map (Dict_Set p v d)"
proof (induction p arbitrary: d rule: path_induct)
  case (last k)
  then show ?case by (simp add: Dict_Set_nodot wf_map_insert)
next
  case (dot k p)
  then have "wf_map (Dict_Set p v (child_of k d))" by (simp add: child_of_wf)
  then have "wf_value (DictionaryValue (Dict_Set p v (child_of k d)))" by (simp add: wf_map_def)
  with dot show ?case by (simp add: Dict_Set_dot wf_map_insert)
qed

lemma Dict_GetDictionary_bind: "Dict_GetDictionary p d = Option.bind (Dict_Get p d) GetAsDictionary"
  by (simp add: Dict_GetDictionary.simps)

lemma Dict_Get_append:
  assumes "46 \<notin> set k"
  shows "Dict_Get (p @ 46 # k) d = Option.bind (Dict_GetDictionary p d) (\<lambda>c. map_of c k)"
proof (induction p arbitrary: d rule: path_induct)
  case (last j)
  have "Dict_Get k = (\<lambda>c. map_of c k)" using assms by (simp add: fun_eq_iff Dict_Get_nodot)
  then show ?case using last by (simp add: Dict_Get_dot Dict_GetDictionary_nodot)
next
  case (dot j p)
  then have "Dict_Get (p @ 46 # k) = (\<lambda>d. Option.bind (Dict_GetDictionary p d) (\<lambda>c. map_of c k))"
    by (simp add: fun_eq_iff)
  then show ?case using dot(1)
    by (simp add: Dict_Get_dot Dict_GetDictionary_bind)
qed

lemma path_last_cut:
  assumes "46 \<in> set path"
  defines "key \<equiv> rev (takeWhile (\<lambda>c. c \<noteq> (46 :: u8)) (rev path))"
  shows "path = take (length path - Suc (length key)) path @ 46 # key" "46 \<notin> set key"
proof -
  show "46 \<notin> set key" by (auto simp: key_def dest: set_takeWhileD)
  have "rev path = path_head (rev path) @ 46 # path_tail (rev path)"
    using assms(1) by (intro path_cut) simp
  moreover have k: "key = rev (path_head (rev path))" by (simp add: key_def path_head_def)
  ultimately have p: "path = rev (path_tail (rev path)) @ 46 # key"
    by (metis append.assoc append_Cons append_Nil rev.simps(2) rev_append rev_rev_ident)
  then have "length path = length (rev (path_tail (rev path))) + Suc (length key)"
    by (metis length_append length_Cons)
  then have "take (length path - Suc (length key)) path = rev (path_tail (rev path))"
    using p by (metis add_diff_cancel_right' append_eq_conv_conj)
  with p show "path = take (length path - Suc (length key)) path @ 46 # key" by simp
qed

lemma wf_GetDictionary: "wf_map d \<Longrightarrow> Dict_GetDictionary p d = Some c \<Longrightarrow> wf_map c"
proof (induction p arbitrary: d rule: path_induct)
  case (last k)
  then obtain v where "map_of d k = Some v" "GetAsDictionary v = Some c"
    by (auto simp: Dict_GetDictionary_nodot bind_eq_Some_conv)
  then show ?case using wf_map_lookup [OF last(2), of k v] by (cases v) (auto simp: wf_map_def)
next
  case (dot k p)
  then obtain v e where v: "map_of d k = Some v" "GetAsDictionary v = Some e"
    and e: "Dict_GetDictionary p e = Some c"
    by (auto simp: Dict_GetDictionary_bind Dict_Get_dot bind_eq_Some_conv)
  have "wf_map e" using wf_map_lookup [OF dot(3) v(1)] v(2) by (cases v) (auto simp: wf_map_def)
  then show ?case using e by (rule dot(2))
qed

lemma RemoveWithoutPathExpansion_spec:
  assumes "wf_map d"
  shows "fst (RemoveWithoutPathExpansion k d) = map_of d k"
    "map_of (snd (RemoveWithoutPathExpansion k d)) = (map_of d)(k := None)"
    "wf_map (snd (RemoveWithoutPathExpansion k d))"
proof -
  have "distinct (map fst d)" using assms by (simp add: wf_map_iff sorted_keys_distinct)
  then show "fst (RemoveWithoutPathExpansion k d) = map_of d k"
    and "map_of (snd (RemoveWithoutPathExpansion k d)) = (map_of d)(k := None)"
    and "wf_map (snd (RemoveWithoutPathExpansion k d))"
    using assms by (auto simp: RemoveWithoutPathExpansion_def wf_map_erase fun_eq_iff split: option.split)
qed

lemma Dict_Remove_spec:
  assumes "wf_map d"
  shows "fst (Dict_Remove p d) = Dict_Get p d \<and> Dict_Get p (snd (Dict_Remove p d)) = None \<and>
    wf_map (snd (Dict_Remove p d))"
proof (cases "46 \<in> set p")
  case False
  then show ?thesis using RemoveWithoutPathExpansion_spec [OF assms, of p]
    by (simp add: Dict_Remove_def Dict_Get_nodot)
next
  case True
  define key where "key = rev (takeWhile (\<lambda>c. c \<noteq> (46 :: u8)) (rev p))"
  define pre where "pre = take (length p - Suc (length key)) p"
  have p: "p = pre @ 46 # key" and k: "46 \<notin> set key"
    using path_last_cut [OF True] by (simp_all add: key_def pre_def)
  have g: "Dict_Get p e = Option.bind (Dict_GetDictionary pre e) (\<lambda>c. map_of c key)" for e
    unfolding p using k by (rule Dict_Get_append)
  show ?thesis
  proof (cases "Dict_GetDictionary pre d")
    case None
    then have "Dict_Remove p d = (None, d)"
      using True by (simp add: Dict_Remove_def Let_def flip: key_def pre_def)
    then show ?thesis using g [of d] None assms by simp
  next
    case (Some c)
    have c: "wf_map c" by (rule wf_GetDictionary [OF assms Some])
    note r = RemoveWithoutPathExpansion_spec [OF c, of key]
    let ?c = "snd (RemoveWithoutPathExpansion key c)"
    have rm: "Dict_Remove p d = (map_of c key, Dict_Set pre (DictionaryValue ?c) d)"
      using True Some r(1) by (simp add: Dict_Remove_def Let_def split_def flip: key_def pre_def)
    have "Dict_GetDictionary pre (Dict_Set pre (DictionaryValue ?c) d) = Some ?c"
      by (simp add: Dict_GetDictionary_bind Dict_Get_Set_same)
    moreover have "wf_map (Dict_Set pre (DictionaryValue ?c) d)"
      using assms r(3) by (intro Dict_Set_wf) (simp_all add: wf_map_def)
    ultimately show ?thesis using g [of d] g [of "snd (Dict_Remove p d)"] Some r(2) rm by simp
  qed
qed

section \<open>Copies\<close>

lemma DeepCopy_id:
  "wf_value v \<Longrightarrow> DeepCopy v = v"
  "sorted_keys (r @ d) \<Longrightarrow> \<forall>e \<in> set d. wf_value (snd e) \<Longrightarrow> DeepCopy_entries d r = r @ d"
  "\<forall>v \<in> set l. wf_value v \<Longrightarrow> DeepCopy_items l q = q @ l"
proof (induction v and d r and l q rule: DeepCopy_DeepCopy_entries_DeepCopy_items.induct)
  case (10 k v d r)
  then have "\<forall>k' \<in> fst ` set r. k' < k" by (auto simp: sorted_keys_def sorted_wrt_append)
  then have "map_insert k v r = r @ [(k, v)]" by (rule map_insert_last)
  with 10 show ?case by (simp add: SetWithoutPathExpansion_def)
qed (auto simp: list_all_iff)

text \<open>A value is free of NaNs; only then is it equal to itself.\<close>

fun nan_free :: "Value \<Rightarrow> bool" where
  "nan_free (RealValue r) = (\<not> real_nan r)"
| "nan_free (DictionaryValue d) = list_all (\<lambda>e. nan_free (snd e)) d"
| "nan_free (ListValue l) = list_all nan_free l"
| "nan_free _ = True"

lemma Equals_entries_refl: "Equals_entries d d \<longleftrightarrow> (\<forall>e \<in> set d. Equals (snd e) (snd e))"
proof (induction d)
  case (Cons e d)
  then show ?case by (cases e) simp
qed simp

lemma Equals_items_refl: "Equals_items l l \<longleftrightarrow> (\<forall>v \<in> set l. Equals v v)"
  by (induction l) auto

lemma Equals_refl_iff: "Equals v v \<longleftrightarrow> nan_free v"
proof (induction v)
  case (DictionaryValue d)
  then have "\<forall>e \<in> set d. Equals (snd e) (snd e) = nan_free (snd e)"
    by (metis snds.intros surjective_pairing)
  then show ?case by (simp add: Equals_entries_refl list_all_iff)
qed (auto simp: Equals_items_refl list_all_iff real_eq_def)

lemma real_eq_sym: "real_eq a b = real_eq b a"
  by (auto simp: real_eq_def)

lemma Equals_sym:
  "Equals v w \<Longrightarrow> Equals w v"
  "Equals_entries d e \<Longrightarrow> Equals_entries e d"
  "Equals_items l m \<Longrightarrow> Equals_items m l"
proof (induction v w and d e and l m rule: Equals_Equals_entries_Equals_items.induct)
  case (1 other)
  then show ?case by (cases other) auto
next
  case (2 b other)
  then show ?case by (cases other) auto
next
  case (3 i other)
  then show ?case by (cases other) auto
next
  case (4 r other)
  then show ?case by (cases other) (auto simp: real_eq_sym)
next
  case (5 s other)
  then show ?case by (cases other) auto
next
  case (6 b other)
  then show ?case by (cases other) auto
next
  case (7 d other)
  then show ?case by (cases other) auto
next
  case (8 l other)
  then show ?case by (cases other) auto
qed (auto split: if_splits)

section \<open>Copies without empty children\<close>

text \<open>No empty dictionary or list anywhere below or at the value.\<close>

fun no_empty :: "Value \<Rightarrow> bool" where
  "no_empty (DictionaryValue d) = (d \<noteq> [] \<and> list_all (\<lambda>e. no_empty (snd e)) d)"
| "no_empty (ListValue l) = (l \<noteq> [] \<and> list_all no_empty l)"
| "no_empty _ = True"

lemma CopyWithout_no_empty:
  "CopyWithoutEmptyChildren v = Some c \<Longrightarrow> no_empty c"
  "(\<forall>e \<in> set r. no_empty (snd e)) \<Longrightarrow> \<forall>e \<in> set (CopyWithout_entries d r). no_empty (snd e)"
  "(\<forall>v \<in> set q. no_empty v) \<Longrightarrow> \<forall>v \<in> set (CopyWithout_items l q). no_empty v"
proof (induction v and d r and l q arbitrary: c and and
    rule: CopyWithoutEmptyChildren_CopyWithout_entries_CopyWithout_items.induct)
  case (12 k v d copy)
  have "\<forall>e \<in> set (map_insert k c copy). no_empty (snd e)" if "CopyWithoutEmptyChildren v = Some c" for c
    using 12(1) [OF that] 12(3) set_map_insert [of k c copy] by auto
  then have "\<forall>e \<in> set (case CopyWithoutEmptyChildren v of None \<Rightarrow> copy
      | Some c \<Rightarrow> SetWithoutPathExpansion k c copy). no_empty (snd e)"
    using 12(3) by (cases "CopyWithoutEmptyChildren v") (simp_all add: SetWithoutPathExpansion_def)
  then have "\<forall>e \<in> set (CopyWithout_entries d (case CopyWithoutEmptyChildren v of None \<Rightarrow> copy
      | Some c \<Rightarrow> SetWithoutPathExpansion k c copy)). no_empty (snd e)"
    by (rule 12(2))
  then show ?case by (simp only: CopyWithout_entries.simps)
next
  case (10 v l copy)
  have "\<forall>x \<in> set (case CopyWithoutEmptyChildren v of None \<Rightarrow> copy | Some c \<Rightarrow> copy @ [c]). no_empty x"
    using 10(1) 10(3) by (cases "CopyWithoutEmptyChildren v") auto
  then have "\<forall>x \<in> set (CopyWithout_items l (case CopyWithoutEmptyChildren v of None \<Rightarrow> copy
      | Some c \<Rightarrow> copy @ [c])). no_empty x"
    by (rule 10(2))
  then show ?case by (simp only: CopyWithout_items.simps)
qed (auto simp: list_all_iff split: list.splits)

lemma CopyWithout_keeps:
  "wf_value v \<Longrightarrow> no_empty v \<Longrightarrow> CopyWithoutEmptyChildren v = Some v"
  "sorted_keys (r @ d) \<Longrightarrow> \<forall>e \<in> set d. wf_value (snd e) \<and> no_empty (snd e) \<Longrightarrow>
     CopyWithout_entries d r = r @ d"
  "\<forall>v \<in> set l. wf_value v \<and> no_empty v \<Longrightarrow> CopyWithout_items l q = q @ l"
proof (induction v and d r and l q
    rule: CopyWithoutEmptyChildren_CopyWithout_entries_CopyWithout_items.induct)
  case (12 k v d r)
  then have "\<forall>k' \<in> fst ` set r. k' < k" by (auto simp: sorted_keys_def sorted_wrt_append)
  then have "map_insert k v r = r @ [(k, v)]" by (rule map_insert_last)
  with 12 show ?case by (simp add: SetWithoutPathExpansion_def)
qed (auto simp: list_all_iff split: list.split)

section \<open>Merging\<close>

text \<open>What the merge leaves under one key.\<close>

lemma map_of_MergeDictionary:
  assumes "distinct (map fst dict)"
  shows "map_of (MergeDictionary dict this) k = (case map_of dict k of None \<Rightarrow> map_of this k
    | Some v \<Rightarrow> Some (Merge_value v (GetDictionaryWithoutPathExpansion k this)))"
  using assms
proof (induction dict arbitrary: this)
  case Nil
  then show ?case by simp
next
  case (Cons e dict)
  obtain j v where e: "e = (j, v)" by force
  let ?w = "Merge_value v (GetDictionaryWithoutPathExpansion j this)"
  have d: "distinct (map fst dict)" and nj: "map_of dict j = None"
    using Cons.prems by (simp_all add: e map_of_eq_None_iff)
  note IH = Cons.IH [OF d, of "map_insert j ?w this"]
  show ?case
  proof (cases "k = j")
    case True
    then show ?thesis using IH nj by (simp add: e SetWithoutPathExpansion_def)
  next
    case False
    then have "GetDictionaryWithoutPathExpansion k (map_insert j ?w this) =
        GetDictionaryWithoutPathExpansion k this"
      by (simp add: GetDictionaryWithoutPathExpansion_def GetWithoutPathExpansion_def)
    then show ?thesis using IH False
      by (simp add: e SetWithoutPathExpansion_def split: option.split)
  qed
qed

section \<open>Differing paths\<close>

lemma diff_one_iff: "fst (diff_one q v) \<longleftrightarrow> snd (diff_one q v) \<noteq> []"
proof (cases v)
  case (DictionaryValue d)
  then show ?thesis by (cases d) (auto simp: diff_alone_def)
qed simp_all

lemma diff_same_refl:
  "d = d' \<Longrightarrow> \<forall>e \<in> set d. nan_free (snd e) \<Longrightarrow> diff_both q d d' = (False, [])"
  "v = v' \<Longrightarrow> nan_free v \<Longrightarrow> diff_same_key q v v' = (False, [])"
proof (induction q d d' and q v v' rule: diff_both_diff_same_key.induct)
  case (5 path v v')
  then show ?case
    by (cases v) (auto simp: list_all_iff Equals_refl_iff simp del: Equals.simps)
qed (auto simp del: diff_same_key.simps)

lemma diff_reports:
  "fst (diff_both q d d') \<longleftrightarrow> snd (diff_both q d d') \<noteq> []"
  "fst (diff_same_key q v v') \<longleftrightarrow> snd (diff_same_key q v v') \<noteq> []"
proof (induction q d d' and q v v' rule: diff_both_diff_same_key.induct)
  case (5 path v v')
  show ?case
  proof (cases "\<exists>d d'. v = DictionaryValue d \<and> v' = DictionaryValue d'")
    case True
    then obtain d d' where v: "v = DictionaryValue d" "v' = DictionaryValue d'" by blast
    then have "fst (diff_both path d d') \<longleftrightarrow> snd (diff_both path d d') \<noteq> []" using 5 by simp
    then show ?thesis using v by (cases "diff_both path d d'") auto
  next
    case False
    then show ?thesis using diff_one_iff [of path v] diff_one_iff [of path v']
      by (cases v; cases v') (simp_all split: prod.splits)
  qed
next
  case (4 q k v this k' v' other)
  note one = diff_one_iff [of "full_path q k" v] diff_one_iff [of "full_path q k'" v']
  consider "k' < k" | "\<not> k' < k" "k < k'" | "\<not> k' < k" "\<not> k < k'" by blast
  then show ?case
  proof cases
    case 1
    then show ?thesis using 4(1) [OF 1 prod.collapse] one by (simp add: split_def)
  next
    case 2
    then show ?thesis using 4(2) [OF 2 prod.collapse] one by (simp add: split_def)
  next
    case 3
    then show ?thesis using 4(3) [OF 3] 4(4) [OF 3 prod.collapse] by (simp add: split_def del: diff_same_key.simps)
  qed
next
  case (2 q k' v' other)
  then show ?case using diff_one_iff [of "full_path q k'" v'] 2 [OF prod.collapse]
    by (simp add: split_def)
next
  case (3 q k v this)
  then show ?case using diff_one_iff [of "full_path q k" v] 3 [OF prod.collapse]
    by (simp add: split_def)
qed simp

end
