(* ===== verification/Codec.thy ===== *)
theory Codec imports Message Values begin

text \<open>
  The shape of every \<open>ParamTraits\<close> of \<open>ipc/ipc_message_utils.h\<close>: a \<open>Write\<close> that appends to a
  message and ignores the result of the pickle's writer, and a \<open>Read\<close> that moves an iterator. The
  locale \<open>param_reader\<close> states what every reader promises on arbitrary, hostile input, and
  \<open>param_traits\<close> adds the round trip. The templates for vectors, sets, maps, pairs and tuples are
  functions on the traits of their parameters, and inherit the promises through \<open>sublocale\<close>.
\<close>

section \<open>Writers and readers\<close>

type_synonym 'a writing = "heap \<Rightarrow> 'a \<Rightarrow> message \<Rightarrow> message option"
type_synonym 'a reader = "message \<Rightarrow> u32 \<Rightarrow> 'a reading"

text \<open>The result of a pickle's writer is dropped by \<open>ParamTraits\<close>.\<close>

definition dropped :: "('b \<times> message) option \<Rightarrow> message option" where
  "dropped r = map_option snd r"

text \<open>A pickle's reader leaves the message as it is.\<close>

definition plain :: "(message \<Rightarrow> u32 \<Rightarrow> 'a read_result) \<Rightarrow> 'a reader" where
  "plain R m iter = map_option (\<lambda>(r, it). (r, it, m)) (R m iter)"

text \<open>\<open>if (!R) return false;\<close> followed by the rest, and the two ways to return.\<close>

definition read_then :: "'a reader \<Rightarrow> ('a \<Rightarrow> 'b reader) \<Rightarrow> 'b reader" where
  "read_then R f m iter = (case R m iter of None \<Rightarrow> None
     | Some (None, it, m1) \<Rightarrow> Some (None, it, m1)
     | Some (Some x, it, m1) \<Rightarrow> f x m1 it)"

definition read_ok :: "'a \<Rightarrow> 'a reader" where
  "read_ok x m iter = Some (Some x, iter, m)"

definition read_fail :: "'a reader" where
  "read_fail m iter = Some (None, iter, m)"

lemma read_then_cong [fundef_cong]:
  "R = R' \<Longrightarrow> m = m' \<Longrightarrow> it = it' \<Longrightarrow>
   (\<And>x it1 m1. R' m' it' = Some (Some x, it1, m1) \<Longrightarrow> f x m1 it1 = f' x m1 it1) \<Longrightarrow>
   read_then R f m it = read_then R' f' m' it'"
  by (auto simp: read_then_def split: option.split)

section \<open>Room and offsets\<close>

text \<open>Enough memory to append the chunks to the message.\<close>

definition room :: "heap \<Rightarrow> message \<Rightarrow> u8 list list \<Rightarrow> bool" where
  "room h m cs \<longleftrightarrow> writable m \<and> (\<exists>L. heap_ok h L \<and> L < 4294967296 \<and>
     2 * (unat (hdr_size m) + align_up 4 (psize m) + chunks_len cs) + 64 \<le> L)"

text \<open>An iterator that stands at an offset of the payload; \<open>NULL\<close> stands at its start.\<close>

definition iter_at :: "'a pickle_scheme \<Rightarrow> nat \<Rightarrow> u32 \<Rightarrow> bool" where
  "iter_at m off it \<longleftrightarrow> it = at_off m off \<or> (it = 0 \<and> off = 0)"

lemma iter_at_off [simp, intro]: "iter_at m off (at_off m off)"
  by (simp add: iter_at_def)

lemma iter_at_null [simp, intro]: "iter_at m 0 0"
  by (simp add: iter_at_def)

lemma start_iter_at:
  assumes "in_block m" "iter_at m off it" "off \<le> psize m"
  shows "start_iter m it = at_off m off"
proof -
  have "unat (at_off m off) = unat (hdr m) + unat (hdr_size m) + off"
    using assms by (intro in_block_at_off) simp_all
  moreover have "unat (hdr_size m) \<noteq> 0" using assms(1) by (auto simp: in_block_def)
  ultimately have "at_off m off \<noteq> 0" by (metis add_is_0 unat_0)
  then show ?thesis using assms(2) by (auto simp: iter_at_def start_iter_def at_off_def)
qed

lemma room_append: "room h m (as @ bs) \<Longrightarrow> room h m as"
  by (force simp: room_def)

lemma room_after:
  assumes "room h m (as @ bs)" "appended m as m1"
  shows "room h m1 bs"
proof -
  have "hdr_size m1 = hdr_size m" "writable m1" "psize m1 = chunks_end (psize m) as"
    using assms(2) by (simp_all add: appended_def)
  moreover have "align_up 4 (chunks_end (psize m) as) = align_up 4 (psize m) + chunks_len as"
    by (rule chunks_end_len)
  ultimately show ?thesis using assms(1) unfolding room_def by (auto simp: add.assoc)
qed

lemma room_small: "room h m cs \<Longrightarrow> c \<in> set cs \<Longrightarrow> length c < 2147483648"
proof -
  assume r: "room h m cs" and c: "c \<in> set cs"
  have "length c \<le> chunks_len cs" using c
  proof (induction cs)
    case (Cons d cs)
    then show ?case using align_up_ge [of "length d" 4] by (auto intro: le_trans)
  qed simp
  then show ?thesis using r by (auto simp: room_def)
qed

lemma appended_nil: "writable m \<Longrightarrow> appended m [] m"
  by (simp add: appended_def)

lemma appended_writable: "appended m cs m' \<Longrightarrow> writable m'"
  by (simp add: appended_def)

lemma appended_has_chunks:
  assumes "room h m cs" "appended m cs m'"
  shows "has_chunks m' (align_up 4 (psize m)) cs"
proof -
  have w: "writable m" using assms(1) by (simp add: room_def)
  obtain D where "length (padded_payload m) = align_up 4 (psize m)"
    using writable_split [OF w] by metis
  moreover have "has_chunks m' (length (padded_payload m)) cs"
  proof (rule has_chunks_in)
    show "padded_payload m' = padded_payload m @ concat (map pad4 cs)"
      using assms(2) by (simp add: appended_def)
    show "4 dvd length (padded_payload m)" unfolding calculation by (simp add: align_up_dvd)
    show "chunks_end (length (padded_payload m)) cs \<le> psize m'" if "cs \<noteq> []"
      unfolding calculation using assms(2) chunks_end_align [OF that] by (simp add: appended_def)
    show "\<forall>c \<in> set cs. length c < 2147483648" using room_small [OF assms(1)] by simp
  qed
  ultimately show ?thesis by simp
qed

lemma sample_room:
  assumes "writable m" "msg_ok m" "psize m = 0" "chunks_len cs \<le> 2000"
  shows "room sample_heap m cs"
proof -
  have "heap_ok sample_heap 4200" by (rule sample_heap_ok) simp
  then show ?thesis using assms msg_okD [OF assms(2)]
    by (auto intro!: exI [of _ 4200] simp: room_def align_up_def)
qed

section \<open>One chunk\<close>

lemma WriteBytes_room:
  assumes "room h m [c]"
  shows "\<exists>m'. WriteBytes h c m = Some (True, m') \<and> appended m [c] m'"
proof -
  obtain L where w: "writable m" and h: "heap_ok h L" "L < 4294967296"
    and L: "2 * (unat (hdr_size m) + align_up 4 (psize m) + align_up 4 (length c)) + 64 \<le> L"
    using assms by (auto simp: room_def)
  let ?a = "align_up 4 (length c)"
  have "length c \<le> ?a" by (rule align_up_ge)
  then have "2 * (unat (hdr_size m) + align_up 4 (psize m) + length c) + 64 \<le> L"
    using L by (simp add: algebra_simps)
  from WriteBytes_appends [OF w h this] show ?thesis by blast
qed

lemma write_sized_room:
  assumes "room h m [w32_bytes n, c]"
  shows "\<exists>m'. write_sized h n c m = Some (True, m') \<and> appended m [w32_bytes n, c] m'"
proof -
  have "room h m ([w32_bytes n] @ [c])" using assms by simp
  then have r1: "room h m [w32_bytes n]" by (rule room_append)
  obtain m1 where m1: "WriteInt h n m = Some (True, m1)" "appended m [w32_bytes n] m1"
    using WriteBytes_room [OF r1] by (auto simp: WriteInt_def)
  have "room h m1 [c]" using \<open>room h m ([w32_bytes n] @ [c])\<close> m1(2) by (rule room_after)
  then obtain m2 where m2: "WriteBytes h c m1 = Some (True, m2)" "appended m1 [c] m2"
    using WriteBytes_room by blast
  have "appended m ([w32_bytes n] @ [c]) m2" using m1(2) m2(2) by (rule appended_trans)
  then show ?thesis using m1 m2 by (simp add: write_sized_def)
qed

lemma read_chunk_has:
  assumes "in_block m" "has_chunks m off (c # cs)" "iter_at m off it" "unat len = length c"
  shows "read_chunk m (start_iter m it) len = Some (Some c, at_off m (off + align_up 4 (length c)))"
proof -
  have "start_iter m it = at_off m off" using assms by (intro start_iter_at) simp_all
  then show ?thesis using assms by (simp add: read_chunk_at)
qed

lemma ReadInt_has:
  assumes "in_block m" "has_chunks m off (w32_bytes n # cs)" "iter_at m off it"
  shows "ReadInt m it = Some (Some n, at_off m (off + 4))"
  using read_chunk_has [OF assms, of 4] by (simp add: ReadInt_def align_up_id)

lemma ReadLength_has:
  assumes "in_block m" "has_chunks m off (w32_bytes n # cs)" "iter_at m off it" "unat n < 2147483648"
  shows "ReadLength m it = Some (Some n, at_off m (off + 4))"
proof -
  have "\<not> sint n < 0" using assms(4) by (simp add: sint_neg_iff)
  then show ?thesis using ReadInt_has [OF assms(1-3)] by (simp add: ReadLength_def)
qed

text \<open>A length word and the chunk of that many units behind it.\<close>

lemma read_sized_has:
  assumes ib: "in_block m" and c: "has_chunks m off [w32_bytes n, c]" and it: "iter_at m off it"
    and n: "unat n < 2147483648" and len: "unat len = length c"
  shows "ReadLength m it = Some (Some n, at_off m (off + 4))"
    "read_chunk m (at_off m (off + 4)) len =
       Some (Some c, at_off m (off + (4 + align_up 4 (length c))))"
proof -
  show "ReadLength m it = Some (Some n, at_off m (off + 4))"
    using c by (intro ReadLength_has [OF ib _ it n, where cs = "[c]"])
  have "off + 4 + length c \<le> psize m" "length c < 2147483648"
    "take (length c) (drop (off + 4) (padded_payload m)) = c"
    using c by (simp_all add: align_up_id)
  from read_chunk_at [OF ib this len]
  show "read_chunk m (at_off m (off + 4)) len =
       Some (Some c, at_off m (off + (4 + align_up 4 (length c))))"
    by (simp add: add.assoc)
qed

section \<open>The promises of a reader\<close>

text \<open>
  On any message whose block is intact, whatever its bytes and wherever the iterator points, a
  reader makes no access outside the block, and changes at most the descriptor set.
\<close>

definition reads_safely :: "'a reader \<Rightarrow> bool" where
  "reads_safely R \<longleftrightarrow> (\<forall>m it. readable m \<longrightarrow> (\<exists>r it' s. R m it = Some (r, it', m\<lparr>fd_set := s\<rparr>)))"

lemma readable_fd_set [simp]: "readable (m\<lparr>fd_set := s\<rparr>) = readable m"
  by (simp add: readable_def in_block_def psize_def)

lemma reads_safely_then:
  assumes "reads_safely R" "\<And>x. reads_safely (f x)"
  shows "reads_safely (read_then R f)"
  unfolding reads_safely_def
proof (intro allI impI)
  fix m :: message and it :: u32
  assume m: "readable m"
  obtain r it1 s where R: "R m it = Some (r, it1, m\<lparr>fd_set := s\<rparr>)"
    using assms(1) m unfolding reads_safely_def by blast
  show "\<exists>r it' s. read_then R f m it = Some (r, it', m\<lparr>fd_set := s\<rparr>)"
  proof (cases r)
    case None
    then have "read_then R f m it = Some (None, it1, m\<lparr>fd_set := s\<rparr>)" using R by (simp add: read_then_def)
    then show ?thesis by blast
  next
    case (Some x)
    have "readable (m\<lparr>fd_set := s\<rparr>)" using m by simp
    then obtain r' it' s' where "f x (m\<lparr>fd_set := s\<rparr>) it1 = Some (r', it', m\<lparr>fd_set := s, fd_set := s'\<rparr>)"
      using assms(2) [of x] unfolding reads_safely_def by blast
    then show ?thesis using R Some by (auto simp: read_then_def)
  qed
qed

lemma reads_safely_return [simp, intro]: "reads_safely (read_ok x)" "reads_safely read_fail"
proof -
  have *: "\<exists>s. m = m\<lparr>fd_set := s\<rparr>" for m :: message by (intro exI [of _ "fd_set m"]) simp
  show "reads_safely (read_ok x)" "reads_safely read_fail"
    using * by (auto simp: reads_safely_def read_ok_def read_fail_def)
qed

lemma reads_safely_plain:
  assumes "\<And>m it. readable m \<Longrightarrow> R m it \<noteq> None"
  shows "reads_safely (plain R)"
  unfolding reads_safely_def
proof (intro allI impI)
  fix m :: message and it :: u32
  assume "readable m"
  then obtain x it' where "R m it = Some (x, it')" using assms [of m it] by (cases "R m it") auto
  then have "plain R m it = Some (x, it', m\<lparr>fd_set := fd_set m\<rparr>)" by (simp add: plain_def)
  then show "\<exists>r it' s. plain R m it = Some (r, it', m\<lparr>fd_set := s\<rparr>)" by blast
qed

section \<open>The round trip\<close>

text \<open>\<open>w\<close> appends the chunks, and \<open>R\<close> reads them as \<open>x\<close>.\<close>

definition appends :: "(heap \<Rightarrow> message \<Rightarrow> message option) \<Rightarrow> u8 list list \<Rightarrow> bool" where
  "appends w cs \<longleftrightarrow> (\<forall>h m. room h m cs \<longrightarrow> (\<exists>m'. w h m = Some m' \<and> appended m cs m'))"

definition parses :: "'a reader \<Rightarrow> u8 list list \<Rightarrow> 'a \<Rightarrow> bool" where
  "parses R cs x \<longleftrightarrow> (\<forall>m off it. in_block m \<and> has_chunks m off cs \<and> iter_at m off it \<longrightarrow>
     (\<exists>it'. R m it = Some (Some x, it', m) \<and> iter_at m (off + chunks_len cs) it'))"

lemma appends_nil: "appends (\<lambda>h m. Some m) []"
  by (auto simp: appends_def room_def appended_nil)

lemma appends_seq:
  assumes "appends w1 as" "appends w2 bs"
  shows "appends (\<lambda>h m. Option.bind (w1 h m) (w2 h)) (as @ bs)"
  unfolding appends_def
proof (intro allI impI)
  fix h m assume r: "room h m (as @ bs)"
  then obtain m1 where m1: "w1 h m = Some m1" "appended m as m1"
    using assms(1) room_append unfolding appends_def by blast
  have "room h m1 bs" using r m1(2) by (rule room_after)
  then obtain m2 where m2: "w2 h m1 = Some m2" "appended m1 bs m2"
    using assms(2) unfolding appends_def by blast
  then show "\<exists>m'. Option.bind (w1 h m) (w2 h) = Some m' \<and> appended m (as @ bs) m'"
    using m1 appended_trans [OF m1(2) m2(2)] by simp
qed

lemma parses_ok: "parses (read_ok x) [] x"
  by (simp add: parses_def read_ok_def)

lemma parses_then:
  assumes "parses R as x" "parses (f x) bs y"
  shows "parses (read_then R f) (as @ bs) y"
  unfolding parses_def
proof (intro allI impI, elim conjE)
  fix m :: message and off it assume m: "in_block m" "has_chunks m off (as @ bs)" "iter_at m off it"
  then have "has_chunks m off as" by simp
  with m(1,3) obtain it1 where 1: "R m it = Some (Some x, it1, m)" "iter_at m (off + chunks_len as) it1"
    using assms(1) unfolding parses_def by blast
  then obtain it2 where "f x m it1 = Some (Some y, it2, m)" "iter_at m (off + chunks_len as + chunks_len bs) it2"
    using assms(2) m unfolding parses_def has_chunks_append by blast
  then show "\<exists>it'. read_then R f m it = Some (Some y, it', m) \<and> iter_at m (off + chunks_len (as @ bs)) it'"
    using 1 by (simp add: read_then_def add.assoc)
qed


lemma parses_map: "parses R cs x \<Longrightarrow> f x = read_ok y \<Longrightarrow> parses (read_then R f) cs y"
  using parses_then [of R cs x f "[]" y] parses_ok [of y] by simp

lemma appends_cong: "appends w cs \<Longrightarrow> (\<And>h m. w' h m = w h m) \<Longrightarrow> cs' = cs \<Longrightarrow> appends w' cs'"
  by (simp add: appends_def)

section \<open>The contract of a parameter's traits\<close>

locale param_reader =
  fixes R :: "'a reader"
  assumes safe: "reads_safely R"

locale param_traits = param_reader R for R :: "'a reader" +
  fixes W :: "'a writing" and enc :: "'a \<Rightarrow> u8 list list" and fit :: "'a \<Rightarrow> bool"
  assumes appending: "fit x \<Longrightarrow> appends (\<lambda>h. W h x) (enc x)"
    and parsing: "fit x \<Longrightarrow> parses R (enc x) x"
begin

lemma writes: "fit x \<Longrightarrow> room h m (enc x) \<Longrightarrow> \<exists>m'. W h x m = Some m' \<and> appended m (enc x) m'"
  using appending [of x] by (simp add: appends_def)

lemma round_trip:
  assumes "fit x" "room h m (enc x)" "iter_at m' (align_up 4 (psize m)) it" "W h x m = Some m'"
  shows "\<exists>it'. R m' it = Some (Some x, it', m') \<and>
    iter_at m' (align_up 4 (psize m) + chunks_len (enc x)) it'"
proof -
  have a: "appended m (enc x) m'" using writes [OF assms(1,2)] assms(4) by auto
  have "has_chunks m' (align_up 4 (psize m)) (enc x)" using assms(2) a by (rule appended_has_chunks)
  then show ?thesis
    using parsing [OF assms(1)] appended_readable [OF a] assms(3) unfolding parses_def by blast
qed

end

end
