(* ===== verification/ParamTraits.thy ===== *)
theory ParamTraits imports Codec begin

text \<open>
  The \<open>ParamTraits\<close> specialisations of \<open>ipc/ipc_message_utils.h\<close> and \<open>.cc\<close> for everything that is
  plain data: scalars, strings, byte vectors, times, and the templates for vectors, sets, maps, pairs
  and tuples. Each pair of functions is an instance of the locale \<open>param_traits\<close>. An object that is
  read into starts out fresh, as the dispatchers of the code pass it.
\<close>

section \<open>Scalars\<close>

definition bool_Write :: "bool writing" where
  "bool_Write h p m = dropped (WriteBool h p m)"
definition bool_Read :: "bool reader" where
  "bool_Read = plain ReadBool"

definition int_Write :: "u32 writing" where
  "int_Write h p m = dropped (WriteInt h p m)"
definition int_Read :: "u32 reader" where
  "int_Read = plain ReadInt"

definition uint_Write :: "u32 writing" where
  "uint_Write h p m = dropped (WriteInt h p m)"
definition uint_Read :: "u32 reader" where
  "uint_Read = plain ReadInt"

definition long_Write :: "u32 writing" where
  "long_Write h p m = dropped (WriteLong h p m)"
definition long_Read :: "u32 reader" where
  "long_Read = plain ReadLong"

definition ulong_Write :: "u32 writing" where
  "ulong_Write h p m = dropped (WriteLong h p m)"
definition ulong_Read :: "u32 reader" where
  "ulong_Read = plain ReadLong"

definition int64_Write :: "u64 writing" where
  "int64_Write h p m = dropped (WriteInt64 h p m)"
definition int64_Read :: "u64 reader" where
  "int64_Read = plain ReadInt64"

definition uint64_Write :: "u64 writing" where
  "uint64_Write h p m = dropped (WriteInt64 h p m)"
definition uint64_Read :: "u64 reader" where
  "uint64_Read = plain ReadInt64"

definition ushort_Write :: "u16 writing" where
  "ushort_Write h p m = dropped (WriteBytes h (w16_bytes p) m)"
definition ushort_Read :: "u16 reader" where
  "ushort_Read = read_then (plain (\<lambda>m iter. ReadBytes m iter 2)) (\<lambda>data. read_ok (bytes_w16 data))"

text \<open>Floating point numbers travel as their bit patterns.\<close>

definition float_Write :: "u32 writing" where
  "float_Write h p m = dropped (WriteData h (w32_bytes p) m)"
definition float_Read :: "u32 reader" where
  "float_Read = read_then (plain ReadData)
     (\<lambda>data. if length data \<noteq> 4 then read_fail else read_ok (bytes_w32 data))"

definition double_Write :: "u64 writing" where
  "double_Write h p m = dropped (WriteData h (w64_bytes p) m)"
definition double_Read :: "u64 reader" where
  "double_Read = read_then (plain ReadData)
     (\<lambda>data. if length data \<noteq> 8 then read_fail else read_ok (bytes_w64 data))"

text \<open>\<open>base::Time\<close> and \<open>base::TimeDelta\<close> as their internal microsecond counts.\<close>

definition Time_Write :: "u64 writing" where
  "Time_Write h p m = int64_Write h p m"
definition Time_Read :: "u64 reader" where
  "Time_Read = read_then int64_Read (\<lambda>value. read_ok value)"

definition TimeDelta_Write :: "u64 writing" where
  "TimeDelta_Write h p m = int64_Write h p m"
definition TimeDelta_Read :: "u64 reader" where
  "TimeDelta_Read = read_then int64_Read (\<lambda>value. read_ok value)"

section \<open>Strings and byte vectors\<close>

definition string_Write :: "str writing" where
  "string_Write h p m = dropped (WriteString h p m)"
definition string_Read :: "str reader" where
  "string_Read = plain ReadString"

definition wstring_Write :: "u32 list writing" where
  "wstring_Write h p m = dropped (WriteWString h p m)"
definition wstring_Read :: "u32 list reader" where
  "wstring_Read = plain ReadWString"

definition string16_Write :: "u16 list writing" where
  "string16_Write h p m = dropped (WriteString16 h p m)"
definition string16_Read :: "u16 list reader" where
  "string16_Read = plain ReadString16"

text \<open>\<open>std::vector<char>\<close> and \<open>std::vector<unsigned char>\<close>.\<close>

definition bytes_Write :: "u8 list writing" where
  "bytes_Write h p m = (if length p = 0 then dropped (WriteData h [] m) else dropped (WriteData h p m))"
definition bytes_Read :: "u8 list reader" where
  "bytes_Read = plain ReadData"

text \<open>A \<open>FilePath\<close> is its string.\<close>

definition FilePath_Write :: "str writing" where
  "FilePath_Write h p m = string_Write h p m"
definition FilePath_Read :: "str reader" where
  "FilePath_Read = read_then string_Read (\<lambda>value. read_ok value)"

record NullableString16 =
  nstring :: "u16 list"
  is_null :: bool

definition NullableString16_Write :: "NullableString16 writing" where
  "NullableString16_Write h p m = do {
     m1 \<leftarrow> string16_Write h (nstring p) m;
     bool_Write h (is_null p) m1 }"
definition NullableString16_Read :: "NullableString16 reader" where
  "NullableString16_Read = read_then string16_Read (\<lambda>string. read_then bool_Read (\<lambda>null.
     read_ok \<lparr>nstring = string, is_null = null\<rparr>))"

section \<open>Templates\<close>

fun write_each :: "'a writing \<Rightarrow> heap \<Rightarrow> 'a list \<Rightarrow> message \<Rightarrow> message option" where
  "write_each W h [] m = Some m"
| "write_each W h (x # xs) m = do { m1 \<leftarrow> W h x m; write_each W h xs m1 }"

fun read_each :: "'a reader \<Rightarrow> nat \<Rightarrow> 'a list reader" where
  "read_each R 0 = read_ok []"
| "read_each R (Suc n) = read_then R (\<lambda>x. read_then (read_each R n) (\<lambda>xs. read_ok (x # xs)))"

text \<open>The second argument of \<open>vector_Read\<close> is \<open>sizeof(P)\<close>.\<close>

definition vector_Write :: "'a writing \<Rightarrow> 'a list writing" where
  "vector_Write W h p m = do {
     m1 \<leftarrow> int_Write h (word_of_nat (length p)) m;
     write_each W h p m1 }"
definition vector_Read :: "'a reader \<Rightarrow> nat \<Rightarrow> 'a list reader" where
  "vector_Read R sizeof_P = read_then (plain ReadLength) (\<lambda>size.
     if 0x7fffffff div sizeof_P \<le> unat size then read_fail else read_each R (unat size))"

fun read_set :: "'a :: linorder reader \<Rightarrow> nat \<Rightarrow> 'a list \<Rightarrow> 'a list reader" where
  "read_set R 0 r = read_ok r"
| "read_set R (Suc n) r = read_then R (\<lambda>item. read_set R n (insort_insert item r))"

definition set_Write :: "'a :: linorder writing \<Rightarrow> 'a list writing" where
  "set_Write W h p m = do {
     m1 \<leftarrow> int_Write h (word_of_nat (length p)) m;
     write_each W h p m1 }"
definition set_Read :: "'a :: linorder reader \<Rightarrow> 'a list reader" where
  "set_Read R = read_then (plain ReadLength) (\<lambda>size. read_set R (unat size) [])"

fun write_entries :: "'k writing \<Rightarrow> 'v writing \<Rightarrow> heap \<Rightarrow> ('k \<times> 'v) list \<Rightarrow> message \<Rightarrow> message option" where
  "write_entries WK WV h [] m = Some m"
| "write_entries WK WV h ((k, v) # xs) m = do {
     m1 \<leftarrow> WK h k m; m2 \<leftarrow> WV h v m1; write_entries WK WV h xs m2 }"

fun read_entries :: "'k :: linorder reader \<Rightarrow> 'v reader \<Rightarrow> nat \<Rightarrow> ('k \<times> 'v) list \<Rightarrow> ('k \<times> 'v) list reader" where
  "read_entries RK RV 0 r = read_ok r"
| "read_entries RK RV (Suc n) r = read_then RK (\<lambda>k. read_then RV (\<lambda>v.
     read_entries RK RV n (map_insert k v r)))"

definition map_Write :: "'k :: linorder writing \<Rightarrow> 'v writing \<Rightarrow> ('k \<times> 'v) list writing" where
  "map_Write WK WV h p m = do {
     m1 \<leftarrow> int_Write h (word_of_nat (length p)) m;
     write_entries WK WV h p m1 }"
definition map_Read :: "'k :: linorder reader \<Rightarrow> 'v reader \<Rightarrow> ('k \<times> 'v) list reader" where
  "map_Read RK RV = read_then int_Read (\<lambda>size.
     if sint size < 0 then read_fail else read_entries RK RV (unat size) [])"

definition pair_Write :: "'a writing \<Rightarrow> 'b writing \<Rightarrow> ('a \<times> 'b) writing" where
  "pair_Write WA WB h p m = do { m1 \<leftarrow> WA h (fst p) m; WB h (snd p) m1 }"
definition pair_Read :: "'a reader \<Rightarrow> 'b reader \<Rightarrow> ('a \<times> 'b) reader" where
  "pair_Read RA RB = read_then RA (\<lambda>a. read_then RB (\<lambda>b. read_ok (a, b)))"

text \<open>The tuples of \<open>base/tuple.h\<close>, as HOL tuples.\<close>

definition Tuple0_Write :: "unit writing" where
  "Tuple0_Write h p m = Some m"
definition Tuple0_Read :: "unit reader" where
  "Tuple0_Read = read_ok ()"

definition Tuple1_Write :: "'a writing \<Rightarrow> 'a writing" where
  "Tuple1_Write WA h p m = WA h p m"
definition Tuple1_Read :: "'a reader \<Rightarrow> 'a reader" where
  "Tuple1_Read RA = RA"

definition Tuple2_Write :: "'a writing \<Rightarrow> 'b writing \<Rightarrow> ('a \<times> 'b) writing" where
  "Tuple2_Write WA WB h p m = (case p of (a, b) \<Rightarrow> do { m1 \<leftarrow> WA h a m; WB h b m1 })"
definition Tuple2_Read :: "'a reader \<Rightarrow> 'b reader \<Rightarrow> ('a \<times> 'b) reader" where
  "Tuple2_Read RA RB = read_then RA (\<lambda>a. read_then RB (\<lambda>b. read_ok (a, b)))"

definition Tuple3_Write :: "'a writing \<Rightarrow> 'b writing \<Rightarrow> 'c writing \<Rightarrow> ('a \<times> 'b \<times> 'c) writing" where
  "Tuple3_Write WA WB WC h p m = (case p of (a, b, c) \<Rightarrow> do {
     m1 \<leftarrow> WA h a m; m2 \<leftarrow> WB h b m1; WC h c m2 })"
definition Tuple3_Read :: "'a reader \<Rightarrow> 'b reader \<Rightarrow> 'c reader \<Rightarrow> ('a \<times> 'b \<times> 'c) reader" where
  "Tuple3_Read RA RB RC = read_then RA (\<lambda>a. read_then RB (\<lambda>b. read_then RC (\<lambda>c. read_ok (a, b, c))))"

definition Tuple4_Write :: "'a writing \<Rightarrow> 'b writing \<Rightarrow> 'c writing \<Rightarrow> 'd writing \<Rightarrow> ('a \<times> 'b \<times> 'c \<times> 'd) writing" where
  "Tuple4_Write WA WB WC WD h p m = (case p of (a, b, c, d) \<Rightarrow> do {
     m1 \<leftarrow> WA h a m; m2 \<leftarrow> WB h b m1; m3 \<leftarrow> WC h c m2; WD h d m3 })"
definition Tuple4_Read :: "'a reader \<Rightarrow> 'b reader \<Rightarrow> 'c reader \<Rightarrow> 'd reader \<Rightarrow> ('a \<times> 'b \<times> 'c \<times> 'd) reader" where
  "Tuple4_Read RA RB RC RD = read_then RA (\<lambda>a. read_then RB (\<lambda>b. read_then RC (\<lambda>c.
     read_then RD (\<lambda>d. read_ok (a, b, c, d)))))"

definition Tuple5_Write :: "'a writing \<Rightarrow> 'b writing \<Rightarrow> 'c writing \<Rightarrow> 'd writing \<Rightarrow> 'e writing \<Rightarrow>
    ('a \<times> 'b \<times> 'c \<times> 'd \<times> 'e) writing" where
  "Tuple5_Write WA WB WC WD WE h p m = (case p of (a, b, c, d, e) \<Rightarrow> do {
     m1 \<leftarrow> WA h a m; m2 \<leftarrow> WB h b m1; m3 \<leftarrow> WC h c m2; m4 \<leftarrow> WD h d m3; WE h e m4 })"
definition Tuple5_Read :: "'a reader \<Rightarrow> 'b reader \<Rightarrow> 'c reader \<Rightarrow> 'd reader \<Rightarrow> 'e reader \<Rightarrow>
    ('a \<times> 'b \<times> 'c \<times> 'd \<times> 'e) reader" where
  "Tuple5_Read RA RB RC RD RE = read_then RA (\<lambda>a. read_then RB (\<lambda>b. read_then RC (\<lambda>c.
     read_then RD (\<lambda>d. read_then RE (\<lambda>e. read_ok (a, b, c, d, e))))))"

section \<open>The scalars keep the contract\<close>

lemma parses_plain:
  assumes "\<And>m off it. in_block m \<Longrightarrow> has_chunks m off cs \<Longrightarrow> iter_at m off it \<Longrightarrow>
    R m it = Some (Some x, at_off m (off + chunks_len cs))"
  shows "parses (plain R) cs x"
  using assms by (fastforce simp: parses_def plain_def)

lemma appends_dropped:
  assumes "\<And>h m. room h m cs \<Longrightarrow> \<exists>m'. w h m = Some (True, m') \<and> appended m cs m'"
  shows "appends (\<lambda>h m. dropped (w h m)) cs"
  using assms by (fastforce simp: appends_def dropped_def)

lemma chunk_parses:
  assumes "unat len = length c" "\<And>m it. R m it = map_option (\<lambda>(r, it). (map_option f r, it)) (read_chunk m (start_iter m it) len)"
  shows "parses (plain R) [c] (f c)"
proof (rule parses_plain)
  fix m :: message and off it
  assume "in_block m" "has_chunks m off [c]" "iter_at m off it"
  from read_chunk_has [OF this assms(1)]
  show "R m it = Some (Some (f c), at_off m (off + chunks_len [c]))" by (simp add: assms(2))
qed

lemma bind_map_option: "Option.bind r (\<lambda>(a, it). Some (f a, it)) = map_option (\<lambda>(r, it). (f r, it)) r"
  by (cases r) auto

definition enc_int :: "u32 \<Rightarrow> u8 list list" where "enc_int n = [w32_bytes n]"
definition enc_bool :: "bool \<Rightarrow> u8 list list" where "enc_bool b = [w32_bytes (if b then 1 else 0)]"
definition enc_int64 :: "u64 \<Rightarrow> u8 list list" where "enc_int64 n = [w64_bytes n]"
definition enc_ushort :: "u16 \<Rightarrow> u8 list list" where "enc_ushort n = [w16_bytes n]"
definition enc_string :: "str \<Rightarrow> u8 list list" where
  "enc_string s = [w32_bytes (word_of_nat (length s)), s]"
definition enc_wstring :: "u32 list \<Rightarrow> u8 list list" where
  "enc_wstring s = [w32_bytes (word_of_nat (length s)), concat (map w32_bytes s)]"
definition enc_string16 :: "u16 list \<Rightarrow> u8 list list" where
  "enc_string16 s = [w32_bytes (word_of_nat (length s)), concat (map w16_bytes s)]"
definition enc_float :: "u32 \<Rightarrow> u8 list list" where "enc_float n = enc_string (w32_bytes n)"
definition enc_double :: "u64 \<Rightarrow> u8 list list" where "enc_double n = enc_string (w64_bytes n)"

lemma ReadInt_parses: "parses (plain ReadInt) [w32_bytes n] n"
  by (rule parses_plain) (simp add: ReadInt_has [where cs = "[]"] align_up_id)

interpretation int: param_traits int_Read int_Write enc_int "\<lambda>_. True"
proof unfold_locales
  show "reads_safely int_Read" unfolding int_Read_def
    by (rule reads_safely_plain) (simp add: fixed_read_safe del: not_None_eq)
  show "appends (\<lambda>h. int_Write h x) (enc_int x)" for x
    unfolding int_Write_def enc_int_def WriteInt_def by (rule appends_dropped) (rule WriteBytes_room)
  show "parses int_Read (enc_int x) x" for x
    unfolding int_Read_def enc_int_def by (rule ReadInt_parses)
qed

interpretation uint: param_traits uint_Read uint_Write enc_int "\<lambda>_. True"
proof -
  have "uint_Read = int_Read" "uint_Write = int_Write"
    by (simp_all add: fun_eq_iff uint_Read_def int_Read_def uint_Write_def int_Write_def)
  then show "param_traits uint_Read uint_Write enc_int (\<lambda>_. True)"
    using int.param_traits_axioms by simp
qed

interpretation long: param_traits long_Read long_Write enc_int "\<lambda>_. True"
proof -
  have "long_Read = int_Read" "long_Write = int_Write"
    by (simp_all add: fun_eq_iff long_Read_def int_Read_def long_Write_def int_Write_def
      plain_def ReadLong_def ReadInt_def WriteLong_def WriteInt_def)
  then show "param_traits long_Read long_Write enc_int (\<lambda>_. True)"
    using int.param_traits_axioms by simp
qed

interpretation ulong: param_traits ulong_Read ulong_Write enc_int "\<lambda>_. True"
proof -
  have "ulong_Read = long_Read" "ulong_Write = long_Write"
    by (simp_all add: fun_eq_iff ulong_Read_def long_Read_def ulong_Write_def long_Write_def)
  then show "param_traits ulong_Read ulong_Write enc_int (\<lambda>_. True)"
    using long.param_traits_axioms by simp
qed

interpretation bool: param_traits bool_Read bool_Write enc_bool "\<lambda>_. True"
proof unfold_locales
  show "reads_safely bool_Read" unfolding bool_Read_def
    by (rule reads_safely_plain) (simp add: sized_read_safe del: not_None_eq)
  show "appends (\<lambda>h. bool_Write h x) (enc_bool x)" for x
    unfolding bool_Write_def enc_bool_def WriteBool_def WriteInt_def
    by (rule appends_dropped) (rule WriteBytes_room)
  show "parses bool_Read (enc_bool x) x" for x
    unfolding bool_Read_def enc_bool_def
    by (rule parses_plain) (simp add: ReadBool_def ReadInt_has [where cs = "[]"] align_up_id)
qed

interpretation int64: param_traits int64_Read int64_Write enc_int64 "\<lambda>_. True"
proof unfold_locales
  show "reads_safely int64_Read" unfolding int64_Read_def
    by (rule reads_safely_plain) (simp add: fixed_read_safe del: not_None_eq)
  show "appends (\<lambda>h. int64_Write h x) (enc_int64 x)" for x
    unfolding int64_Write_def enc_int64_def WriteInt64_def by (rule appends_dropped) (rule WriteBytes_room)
  have "parses (plain ReadInt64) [w64_bytes x] (bytes_w64 (w64_bytes x))" for x
    by (rule chunk_parses [where len = 8]) (simp_all add: ReadInt64_def bind_map_option)
  then show "parses int64_Read (enc_int64 x) x" for x
    by (simp add: int64_Read_def enc_int64_def)
qed

interpretation uint64: param_traits uint64_Read uint64_Write enc_int64 "\<lambda>_. True"
proof -
  have "uint64_Read = int64_Read" "uint64_Write = int64_Write"
    by (simp_all add: fun_eq_iff uint64_Read_def int64_Read_def uint64_Write_def int64_Write_def)
  then show "param_traits uint64_Read uint64_Write enc_int64 (\<lambda>_. True)"
    using int64.param_traits_axioms by simp
qed

interpretation ushort: param_traits ushort_Read ushort_Write enc_ushort "\<lambda>_. True"
proof unfold_locales
  show "reads_safely ushort_Read" unfolding ushort_Read_def
    by (intro reads_safely_then reads_safely_plain reads_safely_return)
      (simp add: fixed_read_safe del: not_None_eq)
  show "appends (\<lambda>h. ushort_Write h x) (enc_ushort x)" for x
    unfolding ushort_Write_def enc_ushort_def by (rule appends_dropped) (rule WriteBytes_room)
  show "parses ushort_Read (enc_ushort x) x" for x
  proof -
    have "parses (plain (\<lambda>m iter. ReadBytes m iter 2)) [w16_bytes x] (id (w16_bytes x))"
      by (rule chunk_parses [where len = 2]) (simp_all add: ReadBytes_def option.map_id0 split_def option.map_ident)
    then show ?thesis unfolding ushort_Read_def enc_ushort_def by (rule parses_map) simp
  qed
qed


section \<open>Strings keep the contract\<close>

lemma write_sized_appends:
  "appends (\<lambda>h m. dropped (write_sized h n c m)) [w32_bytes n, c]"
  by (rule appends_dropped) (rule write_sized_room)

lemma has_chunks_small: "has_chunks m off cs \<Longrightarrow> c \<in> set cs \<Longrightarrow> length c < 2147483648"
  by (induction m off cs rule: has_chunks.induct) auto

lemma small_word:
  assumes "n < 2147483648"
  shows "unat (word_of_nat n :: u32) = n" "sint (word_of_nat n :: u32) = int n"
proof -
  show u: "unat (word_of_nat n :: u32) = n" using assms by (intro unat_word_of_nat32) simp
  then show "sint (word_of_nat n :: u32) = int n" using assms sint_nonneg [of "word_of_nat n"] by simp
qed

text \<open>
  A reader that takes a length, then the bytes of that many units, and turns the bytes into the
  value.
\<close>

lemma sized_parses:
  assumes units: "length c = k * n" "0 < k"
    and R: "\<And>m it it1. length c < 2147483648 \<Longrightarrow>
      ReadLength m it = Some (Some (word_of_nat n), it1) \<Longrightarrow> it1 \<noteq> 0 \<Longrightarrow>
      R m it = map_option (\<lambda>(r, it). (map_option f r, it)) (read_chunk m it1 (word_of_nat (length c)))"
  shows "parses (plain R) [w32_bytes (word_of_nat n), c] (f c)"
proof (rule parses_plain)
  fix m :: message and off it
  assume m: "in_block m" "has_chunks m off [w32_bytes (word_of_nat n), c]" "iter_at m off it"
  have small: "length c < 2147483648" using has_chunks_small [OF m(2), of c] by simp
  have "n \<le> length c" using units by simp
  then have n: "n < 2147483648" using small by linarith
  note len = small_word(1) [OF n] small_word(1) [OF small]
  have lt: "unat (word_of_nat n :: u32) < 2147483648" using n len by simp
  note rd = read_sized_has [OF m lt len(2)]
  have "off + 4 \<le> psize m" using m(2) by simp
  then have "unat (at_off m (off + 4)) = unat (hdr m) + unat (hdr_size m) + (off + 4)"
    using m(1) by (intro in_block_at_off) simp_all
  then have "at_off m (off + 4) \<noteq> 0" by (metis add_is_0 unat_0 zero_neq_numeral)
  from R [OF small rd(1) this] rd(2)
  show "R m it = Some (Some (f c), at_off m (off + chunks_len [w32_bytes (word_of_nat n), c]))"
    by (simp add: align_up_id)
qed

lemma ReadString_parses: "parses (plain ReadString) (enc_string s) s"
proof -
  have "parses (plain ReadString) [w32_bytes (word_of_nat (length s)), s] (id s)"
    by (rule sized_parses [where k = 1]) (simp_all add: ReadString_def option.map_id0 option.map_ident split_def)
  then show ?thesis by (simp add: enc_string_def)
qed

lemma ReadData_parses: "parses (plain ReadData) (enc_string s) s"
proof -
  have "parses (plain ReadData) [w32_bytes (word_of_nat (length s)), s] (id s)"
    by (rule sized_parses [where k = 1])
      (simp_all add: ReadData_def ReadBytes_def start_iter_def option.map_id0 option.map_ident split_def)
  then show ?thesis by (simp add: enc_string_def)
qed

lemma WriteData_appends: "appends (\<lambda>h m. dropped (WriteData h s m)) (enc_string s)"
proof (rule appends_dropped)
  fix h m assume r: "room h m (enc_string s)"
  then have "length s < 2147483648" by (rule room_small) (simp add: enc_string_def)
  then show "\<exists>m'. WriteData h s m = Some (True, m') \<and> appended m (enc_string s) m'"
    using write_sized_room [OF r [unfolded enc_string_def]]
    by (simp add: WriteData_def Let_def small_word enc_string_def)
qed

interpretation string: param_traits string_Read string_Write enc_string "\<lambda>_. True"
proof unfold_locales
  show "reads_safely string_Read" unfolding string_Read_def
    by (rule reads_safely_plain) (simp add: sized_read_safe del: not_None_eq)
  show "appends (\<lambda>h. string_Write h x) (enc_string x)" for x
    unfolding string_Write_def enc_string_def WriteString_def by (rule write_sized_appends)
  show "parses string_Read (enc_string x) x" for x
    unfolding string_Read_def by (rule ReadString_parses)
qed

interpretation bytes: param_traits bytes_Read bytes_Write enc_string "\<lambda>_. True"
proof unfold_locales
  show "reads_safely bytes_Read" unfolding bytes_Read_def
    by (rule reads_safely_plain) (simp add: sized_read_safe del: not_None_eq)
  show "appends (\<lambda>h. bytes_Write h x) (enc_string x)" for x
    by (rule appends_cong [OF WriteData_appends [of x]]) (simp_all add: bytes_Write_def)
  show "parses bytes_Read (enc_string x) x" for x
    unfolding bytes_Read_def by (rule ReadData_parses)
qed

text \<open>Lists of words in memory.\<close>

lemma length_concat_w32 [simp]: "length (concat (map w32_bytes s)) = 4 * length s"
  by (induction s) simp_all

lemma length_concat_w16 [simp]: "length (concat (map w16_bytes s)) = 2 * length s"
  by (induction s) simp_all

lemma w32_list_cons: "length b = 4 \<Longrightarrow> w32_list (b @ bs) = bytes_w32 b # w32_list bs"
  by (cases b rule: w32_list.cases) auto

lemma w16_list_cons: "length b = 2 \<Longrightarrow> w16_list (b @ bs) = bytes_w16 b # w16_list bs"
  by (cases b rule: w16_list.cases) auto

lemma w32_list_concat [simp]: "w32_list (concat (map w32_bytes s)) = s"
  by (induction s) (simp_all add: w32_list_cons)

lemma w16_list_concat [simp]: "w16_list (concat (map w16_bytes s)) = s"
  by (induction s) (simp_all add: w16_list_cons)

lemma word_of_nat_mult32: "word_of_nat (k * n) = (word_of_nat n * word_of_nat k :: u32)"
  by (simp add: mult.commute)

interpretation wstring: param_traits wstring_Read wstring_Write enc_wstring "\<lambda>_. True"
proof unfold_locales
  show "reads_safely wstring_Read" unfolding wstring_Read_def
    by (rule reads_safely_plain) (simp add: sized_read_safe del: not_None_eq)
  show "appends (\<lambda>h. wstring_Write h x) (enc_wstring x)" for x
    unfolding wstring_Write_def enc_wstring_def WriteWString_def by (rule write_sized_appends)
  show "parses wstring_Read (enc_wstring x) x" for x
  proof -
    have "parses (plain ReadWString) (enc_wstring x) (w32_list (concat (map w32_bytes x)))"
      unfolding enc_wstring_def
    proof (rule sized_parses [where k = 4])
      fix m :: message and it it1
      assume small: "length (concat (map w32_bytes x)) < 2147483648"
        and len: "ReadLength m it = Some (Some (word_of_nat (length x)), it1)"
      have "sint (word_of_nat (length x) :: u32) = int (length x)" using small by (intro small_word) simp
      then have "\<not> sint (word_of_nat (length x) :: u32) > 0x7fffffff div 4" using small by simp
      then show "ReadWString m it = map_option (\<lambda>(r, it). (map_option w32_list r, it))
          (read_chunk m it1 (word_of_nat (length (concat (map w32_bytes x)))))"
        using len by (simp add: ReadWString_def bind_map_option mult.commute)
    qed simp_all
    then show ?thesis by (simp add: wstring_Read_def)
  qed
qed

interpretation string16: param_traits string16_Read string16_Write enc_string16 "\<lambda>_. True"
proof unfold_locales
  show "reads_safely string16_Read" unfolding string16_Read_def
    by (rule reads_safely_plain) (simp add: sized_read_safe del: not_None_eq)
  show "appends (\<lambda>h. string16_Write h x) (enc_string16 x)" for x
    unfolding string16_Write_def enc_string16_def WriteString16_def by (rule write_sized_appends)
  show "parses string16_Read (enc_string16 x) x" for x
  proof -
    have "parses (plain ReadString16) (enc_string16 x) (w16_list (concat (map w16_bytes x)))"
      unfolding enc_string16_def
      by (rule sized_parses [where k = 2]) (simp_all add: ReadString16_def bind_map_option mult.commute)
    then show ?thesis by (simp add: string16_Read_def)
  qed
qed

interpretation float: param_traits float_Read float_Write enc_float "\<lambda>_. True"
proof unfold_locales
  show "reads_safely float_Read" unfolding float_Read_def
    by (intro reads_safely_then reads_safely_plain) (auto simp: sized_read_safe simp del: not_None_eq)
  show "appends (\<lambda>h. float_Write h x) (enc_float x)" for x
    unfolding float_Write_def enc_float_def by (rule WriteData_appends)
  show "parses float_Read (enc_float x) x" for x
    unfolding float_Read_def enc_float_def by (rule parses_map [OF ReadData_parses]) simp
qed

interpretation double: param_traits double_Read double_Write enc_double "\<lambda>_. True"
proof unfold_locales
  show "reads_safely double_Read" unfolding double_Read_def
    by (intro reads_safely_then reads_safely_plain) (auto simp: sized_read_safe simp del: not_None_eq)
  show "appends (\<lambda>h. double_Write h x) (enc_double x)" for x
    unfolding double_Write_def enc_double_def by (rule WriteData_appends)
  show "parses double_Read (enc_double x) x" for x
    unfolding double_Read_def enc_double_def by (rule parses_map [OF ReadData_parses]) simp
qed

lemma read_then_ok: "read_then R read_ok = R"
  by (auto simp: fun_eq_iff read_then_def read_ok_def split: option.split)

interpretation Time: param_traits Time_Read Time_Write enc_int64 "\<lambda>_. True"
proof -
  have "Time_Read = int64_Read" "Time_Write = int64_Write"
    by (simp_all add: fun_eq_iff Time_Read_def Time_Write_def read_then_ok)
  then show "param_traits Time_Read Time_Write enc_int64 (\<lambda>_. True)"
    using int64.param_traits_axioms by simp
qed

interpretation TimeDelta: param_traits TimeDelta_Read TimeDelta_Write enc_int64 "\<lambda>_. True"
proof -
  have "TimeDelta_Read = int64_Read" "TimeDelta_Write = int64_Write"
    by (simp_all add: fun_eq_iff TimeDelta_Read_def TimeDelta_Write_def read_then_ok)
  then show "param_traits TimeDelta_Read TimeDelta_Write enc_int64 (\<lambda>_. True)"
    using int64.param_traits_axioms by simp
qed

interpretation FilePath: param_traits FilePath_Read FilePath_Write enc_string "\<lambda>_. True"
proof -
  have "FilePath_Read = string_Read" "FilePath_Write = string_Write"
    by (simp_all add: fun_eq_iff FilePath_Read_def FilePath_Write_def read_then_ok)
  then show "param_traits FilePath_Read FilePath_Write enc_string (\<lambda>_. True)"
    using string.param_traits_axioms by simp
qed


section \<open>The templates keep the contract\<close>

lemma write_each_appends:
  "(\<And>x. x \<in> set xs \<Longrightarrow> appends (\<lambda>h. W h x) (enc x)) \<Longrightarrow>
    appends (\<lambda>h. write_each W h xs) (concat (map enc xs))"
proof (induction xs)
  case Nil
  then show ?case by (simp add: appends_nil)
next
  case (Cons x xs)
  then have "appends (\<lambda>h m. Option.bind (W h x m) (write_each W h xs)) (enc x @ concat (map enc xs))"
    by (intro appends_seq) simp_all
  then show ?case by (rule appends_cong) simp_all
qed

lemma read_each_parses:
  "(\<And>x. x \<in> set xs \<Longrightarrow> parses R (enc x) x) \<Longrightarrow>
    parses (read_each R (length xs)) (concat (map enc xs)) xs"
proof (induction xs)
  case Nil
  then show ?case by (simp add: parses_ok)
next
  case (Cons x xs)
  then have "parses (read_each R (length xs)) (concat (map enc xs)) xs" by simp
  then have "parses (read_then (read_each R (length xs)) (\<lambda>xs. read_ok (x # xs))) (concat (map enc xs)) (x # xs)"
    by (rule parses_map) simp
  with Cons.prems have "parses (read_then R (\<lambda>x. read_then (read_each R (length xs)) (\<lambda>xs. read_ok (x # xs))))
      (enc x @ concat (map enc xs)) (x # xs)"
    by (intro parses_then) simp_all
  then show ?case by simp
qed

lemma read_each_safe: "reads_safely R \<Longrightarrow> reads_safely (read_each R n)"
  by (induction n) (auto intro!: reads_safely_then)

lemma count_appends:
  assumes "\<And>h m. room h m cs \<Longrightarrow> \<exists>m'. w h m = Some m' \<and> appended m cs m'"
  shows "appends (\<lambda>h m. Option.bind (int_Write h n m) (w h)) (w32_bytes n # cs)"
proof -
  have "appends w cs" using assms by (simp add: appends_def)
  with int.appending [of n] have "appends (\<lambda>h m. Option.bind (int_Write h n m) (w h)) (enc_int n @ cs)"
    by (intro appends_seq) simp_all
  then show ?thesis by (simp add: enc_int_def)
qed

lemma ReadLength_parses: "n < 2147483648 \<Longrightarrow> parses (plain ReadLength) [w32_bytes (word_of_nat n)] (word_of_nat n)"
  by (rule parses_plain) (simp add: ReadLength_has [where cs = "[]"] small_word align_up_id)

lemma ReadLength_safe: "reads_safely (plain ReadLength)"
  by (rule reads_safely_plain) (simp add: sized_read_safe del: not_None_eq)

definition enc_list :: "('a \<Rightarrow> u8 list list) \<Rightarrow> 'a list \<Rightarrow> u8 list list" where
  "enc_list enc xs = w32_bytes (word_of_nat (length xs)) # concat (map enc xs)"

locale vector_traits = elem: param_traits R W enc fit
  for R :: "'a reader" and W :: "'a writing" and enc :: "'a \<Rightarrow> u8 list list" and fit :: "'a \<Rightarrow> bool" +
  fixes sizeof_P :: nat
  assumes sizeof_pos: "0 < sizeof_P"
begin

definition fit_vector :: "'a list \<Rightarrow> bool" where
  "fit_vector xs \<longleftrightarrow> length xs < 0x7fffffff div sizeof_P \<and> list_all fit xs"

lemma fit_small: "fit_vector xs \<Longrightarrow> length xs < 2147483648"
proof -
  assume "fit_vector xs"
  then have "length xs < 0x7fffffff div sizeof_P" by (simp add: fit_vector_def)
  also have "\<dots> \<le> 0x7fffffff" by simp
  finally show ?thesis by simp
qed

lemma vector_appends: "fit_vector xs \<Longrightarrow> appends (\<lambda>h. vector_Write W h xs) (enc_list enc xs)"
proof -
  assume "fit_vector xs"
  then have "appends (\<lambda>h. write_each W h xs) (concat (map enc xs))"
    by (intro write_each_appends elem.appending) (simp add: fit_vector_def list_all_iff)
  then have "appends (\<lambda>h m. Option.bind (int_Write h (word_of_nat (length xs)) m) (write_each W h xs))
      (w32_bytes (word_of_nat (length xs)) # concat (map enc xs))"
    by (intro count_appends) (simp add: appends_def)
  then show ?thesis by (rule appends_cong) (simp_all add: vector_Write_def enc_list_def)
qed

lemma vector_parses:
  assumes "fit_vector xs"
  shows "parses (vector_Read R sizeof_P) (enc_list enc xs) xs"
proof -
  have n: "length xs < 2147483648" by (rule fit_small [OF assms])
  have "parses (read_each R (length xs)) (concat (map enc xs)) xs"
    using assms by (intro read_each_parses elem.parsing) (simp add: fit_vector_def list_all_iff)
  moreover have "\<not> 0x7fffffff div sizeof_P \<le> length xs" using assms by (simp add: fit_vector_def)
  ultimately have "parses (vector_Read R sizeof_P) ([w32_bytes (word_of_nat (length xs))] @ concat (map enc xs)) xs"
    unfolding vector_Read_def
    by (intro parses_then [OF ReadLength_parses [OF n]]) (simp add: small_word [OF n])
  then show ?thesis by (simp add: enc_list_def)
qed

lemma vector_safe: "reads_safely (vector_Read R sizeof_P)"
  unfolding vector_Read_def
  by (rule reads_safely_then [OF ReadLength_safe]) (simp add: read_each_safe elem.safe)

end

sublocale vector_traits \<subseteq> vector: param_traits "vector_Read R sizeof_P" "vector_Write W" "enc_list enc" fit_vector
  by unfold_locales (fact vector_safe, fact vector_appends, fact vector_parses)

text \<open>Sets travel as their elements in ascending order.\<close>

lemma read_set_parses:
  assumes "sorted_wrt (<) (r @ xs)" "\<And>x. x \<in> set xs \<Longrightarrow> parses R (enc x) x"
  shows "parses (read_set R (length xs) r) (concat (map enc xs)) (r @ xs)"
  using assms
proof (induction xs arbitrary: r)
  case Nil
  then show ?case by (simp add: parses_ok)
next
  case (Cons x xs)
  have lt: "\<forall>y \<in> set r. y < x" and s: "sorted r"
    using Cons.prems(1) by (auto simp: sorted_wrt_append strict_sorted_iff)
  have "insort x r = r @ [x]"
    using lt s by (intro sorted_insort_is_snoc) (auto intro: less_imp_le)
  then have "insort_insert x r = r @ [x]" using lt by (auto simp: insort_insert_key_def)
  moreover have "parses (read_set R (length xs) (r @ [x])) (concat (map enc xs)) ((r @ [x]) @ xs)"
    using Cons.prems by (intro Cons.IH) simp_all
  ultimately have rest: "parses (read_set R (length xs) (insort_insert x r)) (concat (map enc xs)) (r @ x # xs)"
    by simp
  have "parses R (enc x) x" by (rule Cons.prems(2)) simp
  from parses_then [where f = "\<lambda>item. read_set R (length xs) (insort_insert item r)", OF this rest]
  show ?case by simp
qed

lemma read_set_safe: "reads_safely R \<Longrightarrow> reads_safely (read_set R n r)"
  by (induction n arbitrary: r) (auto intro!: reads_safely_then)

locale set_traits = elem: param_traits R W enc fit
  for R :: "'a :: linorder reader" and W :: "'a writing" and enc and fit
begin

definition fit_set :: "'a list \<Rightarrow> bool" where
  "fit_set xs \<longleftrightarrow> length xs < 2147483648 \<and> sorted_wrt (<) xs \<and> list_all fit xs"

lemma set_appends: "fit_set xs \<Longrightarrow> appends (\<lambda>h. set_Write W h xs) (enc_list enc xs)"
proof -
  assume "fit_set xs"
  then have "appends (\<lambda>h. write_each W h xs) (concat (map enc xs))"
    by (intro write_each_appends elem.appending) (simp add: fit_set_def list_all_iff)
  then have "appends (\<lambda>h m. Option.bind (int_Write h (word_of_nat (length xs)) m) (write_each W h xs))
      (w32_bytes (word_of_nat (length xs)) # concat (map enc xs))"
    by (intro count_appends) (simp add: appends_def)
  then show ?thesis by (rule appends_cong) (simp_all add: set_Write_def enc_list_def)
qed

lemma set_parses:
  assumes "fit_set xs"
  shows "parses (set_Read R) (enc_list enc xs) xs"
proof -
  have n: "length xs < 2147483648" using assms by (simp add: fit_set_def)
  have "parses (read_set R (length xs) []) (concat (map enc xs)) ([] @ xs)"
    using assms by (intro read_set_parses elem.parsing) (simp_all add: fit_set_def list_all_iff)
  then have "parses (set_Read R) ([w32_bytes (word_of_nat (length xs))] @ concat (map enc xs)) xs"
    unfolding set_Read_def
    by (intro parses_then [OF ReadLength_parses [OF n]]) (simp add: small_word [OF n])
  then show ?thesis by (simp add: enc_list_def)
qed

lemma set_safe: "reads_safely (set_Read R)"
  unfolding set_Read_def
  by (rule reads_safely_then [OF ReadLength_safe]) (simp add: read_set_safe elem.safe)

end

sublocale set_traits \<subseteq> sets: param_traits "set_Read R" "set_Write W" "enc_list enc" fit_set
  by unfold_locales (fact set_safe, fact set_appends, fact set_parses)

text \<open>Pairs, and the maps made of them.\<close>

definition enc_pair :: "('a \<Rightarrow> u8 list list) \<Rightarrow> ('b \<Rightarrow> u8 list list) \<Rightarrow> 'a \<times> 'b \<Rightarrow> u8 list list" where
  "enc_pair encA encB p = encA (fst p) @ encB (snd p)"

lemma enc_pair_Pair [simp]: "enc_pair encA encB (a, b) = encA a @ encB b"
  by (simp add: enc_pair_def)

definition fit_pair :: "('a \<Rightarrow> bool) \<Rightarrow> ('b \<Rightarrow> bool) \<Rightarrow> 'a \<times> 'b \<Rightarrow> bool" where
  "fit_pair fitA fitB p \<longleftrightarrow> fitA (fst p) \<and> fitB (snd p)"

lemma write_entries_appends:
  "\<forall>e \<in> set xs. appends (\<lambda>h. WK h (fst e)) (encK (fst e)) \<and> appends (\<lambda>h. WV h (snd e)) (encV (snd e)) \<Longrightarrow>
    appends (\<lambda>h. write_entries WK WV h xs) (concat (map (enc_pair encK encV) xs))"
proof (induction xs)
  case Nil
  then show ?case by (simp add: appends_nil)
next
  case (Cons e xs)
  obtain k v where e: "e = (k, v)" by force
  have "appends (\<lambda>h. write_entries WK WV h xs) (concat (map (enc_pair encK encV) xs))" using Cons by simp
  moreover have "appends (\<lambda>h. WV h v) (encV v)" "appends (\<lambda>h. WK h k) (encK k)"
    using Cons.prems by (simp_all add: e)
  ultimately have "appends (\<lambda>h m. Option.bind (WK h k m) (\<lambda>m. Option.bind (WV h v m) (write_entries WK WV h xs)))
      (encK k @ encV v @ concat (map (enc_pair encK encV) xs))"
    by (intro appends_seq)
  then show ?case by (rule appends_cong) (simp_all add: e)
qed

lemma read_entries_parses:
  assumes "sorted_keys (r @ xs)"
    "\<forall>e \<in> set xs. parses RK (encK (fst e)) (fst e) \<and> parses RV (encV (snd e)) (snd e)"
  shows "parses (read_entries RK RV (length xs) r) (concat (map (enc_pair encK encV) xs)) (r @ xs)"
  using assms
proof (induction xs arbitrary: r)
  case Nil
  then show ?case by (simp add: parses_ok)
next
  case (Cons e xs)
  obtain k v where e: "e = (k, v)" by force
  have "\<forall>k' \<in> fst ` set r. k' < k"
    using Cons.prems(1) by (auto simp: e sorted_keys_def sorted_wrt_append)
  then have i: "map_insert k v r = r @ [(k, v)]" by (rule map_insert_last)
  have IH: "parses (read_entries RK RV (length xs) (map_insert k v r)) (concat (map (enc_pair encK encV) xs))
      ((r @ [(k, v)]) @ xs)"
    unfolding i using Cons.prems by (intro Cons.IH) (simp_all add: e)
  have p: "parses RK (encK k) k" "parses RV (encV v) v" using Cons.prems(2) by (simp_all add: e)
  have "parses (read_then RK (\<lambda>k. read_then RV (\<lambda>v. read_entries RK RV (length xs) (map_insert k v r))))
      (encK k @ encV v @ concat (map (enc_pair encK encV) xs)) ((r @ [(k, v)]) @ xs)"
    by (rule parses_then [OF p(1)], rule parses_then [OF p(2)], rule IH)
  then show ?case by (simp add: e)
qed

lemma read_entries_safe: "reads_safely RK \<Longrightarrow> reads_safely RV \<Longrightarrow> reads_safely (read_entries RK RV n r)"
  by (induction n arbitrary: r) (auto intro!: reads_safely_then)

locale two_traits = A: param_traits RA WA encA fitA + B: param_traits RB WB encB fitB
  for RA :: "'a reader" and WA :: "'a writing" and encA and fitA
  and RB :: "'b reader" and WB :: "'b writing" and encB and fitB
begin

lemma pair_appends:
  assumes "fit_pair fitA fitB p"
  shows "appends (\<lambda>h. pair_Write WA WB h p) (enc_pair encA encB p)"
proof -
  have "appends (\<lambda>h m. Option.bind (WA h (fst p) m) (WB h (snd p))) (encA (fst p) @ encB (snd p))"
    using assms by (intro appends_seq A.appending B.appending) (simp_all add: fit_pair_def)
  then show ?thesis by (rule appends_cong) (simp_all add: pair_Write_def enc_pair_def)
qed

lemma pair_parses:
  assumes "fit_pair fitA fitB p"
  shows "parses (pair_Read RA RB) (enc_pair encA encB p) p"
proof -
  have "parses (read_then RB (\<lambda>b. read_ok (fst p, b))) (encB (snd p)) p"
    using assms by (intro parses_map [OF B.parsing]) (simp_all add: fit_pair_def)
  then show ?thesis unfolding pair_Read_def enc_pair_def
    using assms by (intro parses_then [OF A.parsing]) (simp_all add: fit_pair_def)
qed

lemma pair_safe: "reads_safely (pair_Read RA RB)"
  unfolding pair_Read_def by (intro reads_safely_then A.safe B.safe reads_safely_return)

end

sublocale two_traits \<subseteq> pair: param_traits "pair_Read RA RB" "pair_Write WA WB" "enc_pair encA encB"
    "fit_pair fitA fitB"
  by unfold_locales (fact pair_safe, fact pair_appends, fact pair_parses)

locale map_traits = two_traits RK WK encK fitK RV WV encV fitV
  for RK :: "'k :: linorder reader" and WK :: "'k writing" and encK and fitK
  and RV :: "'v reader" and WV :: "'v writing" and encV and fitV
begin

definition fit_map :: "('k \<times> 'v) list \<Rightarrow> bool" where
  "fit_map xs \<longleftrightarrow> length xs < 2147483648 \<and> sorted_keys xs \<and> list_all (fit_pair fitK fitV) xs"

lemma fit_mapD:
  assumes "fit_map xs" "(k, v) \<in> set xs"
  shows "fitK k" "fitV v"
  using assms by (auto simp: fit_map_def fit_pair_def list_all_iff)

lemma map_appends: "fit_map xs \<Longrightarrow> appends (\<lambda>h. map_Write WK WV h xs) (enc_list (enc_pair encK encV) xs)"
proof -
  assume "fit_map xs"
  then have "appends (\<lambda>h. write_entries WK WV h xs) (concat (map (enc_pair encK encV) xs))"
    by (intro write_entries_appends ballI conjI A.appending B.appending) (auto dest: fit_mapD)
  then have "appends (\<lambda>h m. Option.bind (int_Write h (word_of_nat (length xs)) m) (write_entries WK WV h xs))
      (w32_bytes (word_of_nat (length xs)) # concat (map (enc_pair encK encV) xs))"
    by (intro count_appends) (simp add: appends_def)
  then show ?thesis by (rule appends_cong) (simp_all add: map_Write_def enc_list_def)
qed

lemma map_parses:
  assumes "fit_map xs"
  shows "parses (map_Read RK RV) (enc_list (enc_pair encK encV) xs) xs"
proof -
  have n: "length xs < 2147483648" using assms by (simp add: fit_map_def)
  have "parses (read_entries RK RV (length xs) []) (concat (map (enc_pair encK encV) xs)) ([] @ xs)"
    using assms by (intro read_entries_parses ballI conjI A.parsing B.parsing)
      (auto simp: fit_map_def dest: fit_mapD [OF assms])
  moreover have "\<not> sint (word_of_nat (length xs) :: u32) < 0" using n by (simp add: small_word)
  ultimately have "parses (map_Read RK RV) (enc_int (word_of_nat (length xs)) @ concat (map (enc_pair encK encV) xs)) xs"
    unfolding map_Read_def
    by (intro parses_then [OF int.parsing]) (simp_all add: small_word [OF n])
  then show ?thesis by (simp add: enc_list_def enc_int_def)
qed

lemma map_safe: "reads_safely (map_Read RK RV)"
  unfolding map_Read_def
  by (rule reads_safely_then [OF int.safe]) (simp add: read_entries_safe A.safe B.safe)

end

sublocale map_traits \<subseteq> maps: param_traits "map_Read RK RV" "map_Write WK WV"
    "enc_list (enc_pair encK encV)" fit_map
  by unfold_locales (fact map_safe, fact map_appends, fact map_parses)


section \<open>Instances of the templates\<close>

interpretation strings: vector_traits string_Read string_Write enc_string "\<lambda>_. True" 4
  by unfold_locales simp

interpretation ints: vector_traits int_Read int_Write enc_int "\<lambda>_. True" 4
  by unfold_locales simp

interpretation string_set: set_traits string_Read string_Write enc_string "\<lambda>_. True"
  by unfold_locales

interpretation string_map: map_traits string_Read string_Write enc_string "\<lambda>_. True"
    string16_Read string16_Write enc_string16 "\<lambda>_. True"
  by unfold_locales

interpretation nullable: two_traits string16_Read string16_Write enc_string16 "\<lambda>_. True"
    bool_Read bool_Write enc_bool "\<lambda>_. True"
  by unfold_locales

definition enc_nullable :: "NullableString16 \<Rightarrow> u8 list list" where
  "enc_nullable p = enc_string16 (nstring p) @ enc_bool (is_null p)"

interpretation NullableString16: param_traits NullableString16_Read NullableString16_Write enc_nullable "\<lambda>_. True"
proof unfold_locales
  show "reads_safely NullableString16_Read" unfolding NullableString16_Read_def
    by (intro reads_safely_then string16.safe bool.safe reads_safely_return)
  show "appends (\<lambda>h. NullableString16_Write h x) (enc_nullable x)" for x
  proof -
    have "appends (\<lambda>h. pair_Write string16_Write bool_Write h (nstring x, is_null x))
        (enc_pair enc_string16 enc_bool (nstring x, is_null x))"
      by (rule nullable.pair_appends) (simp add: fit_pair_def)
    then show ?thesis by (rule appends_cong)
      (simp_all add: NullableString16_Write_def pair_Write_def enc_nullable_def)
  qed
  show "parses NullableString16_Read (enc_nullable x) x" for x
    unfolding NullableString16_Read_def enc_nullable_def
    by (cases x) (intro parses_then [OF string16.parsing] parses_map [OF bool.parsing]; simp)
qed

text \<open>A tuple reads and writes as nested pairs do.\<close>

lemma read_then_assoc: "read_then (read_then R f) g = read_then R (\<lambda>x. read_then (f x) g)"
  by (auto simp: fun_eq_iff read_then_def split: option.split prod.split)

lemma read_ok_then: "read_then (read_ok x) f = f x"
  by (simp add: fun_eq_iff read_then_def read_ok_def)

lemma tuples_are_pairs:
  "Tuple2_Write WA WB = pair_Write WA WB" "Tuple2_Read RA RB = pair_Read RA RB"
  "Tuple3_Write WA WB WC = pair_Write WA (Tuple2_Write WB WC)"
  "Tuple3_Read RA RB RC = pair_Read RA (Tuple2_Read RB RC)"
  "Tuple4_Write WA WB WC WD = pair_Write WA (Tuple3_Write WB WC WD)"
  "Tuple4_Read RA RB RC RD = pair_Read RA (Tuple3_Read RB RC RD)"
  "Tuple5_Write WA WB WC WD WE = pair_Write WA (Tuple4_Write WB WC WD WE)"
  "Tuple5_Read RA RB RC RD RE = pair_Read RA (Tuple4_Read RB RC RD RE)"
  by (auto simp: fun_eq_iff pair_Write_def Tuple2_Write_def Tuple3_Write_def Tuple4_Write_def
    Tuple5_Write_def pair_Read_def Tuple2_Read_def Tuple3_Read_def Tuple4_Read_def Tuple5_Read_def
    read_then_assoc read_ok_then)

locale tuple3_traits = two_traits RA WA encA fitA RB WB encB fitB + C: param_traits RC WC encC fitC
  for RA :: "'a reader" and WA :: "'a writing" and encA and fitA
  and RB :: "'b reader" and WB :: "'b writing" and encB and fitB
  and RC :: "'c reader" and WC :: "'c writing" and encC and fitC

sublocale tuple3_traits \<subseteq> BC: two_traits RB WB encB fitB RC WC encC fitC
  by unfold_locales

sublocale tuple3_traits \<subseteq> tuple3: param_traits "Tuple3_Read RA RB RC" "Tuple3_Write WA WB WC"
    "enc_pair encA (enc_pair encB encC)" "fit_pair fitA (fit_pair fitB fitC)"
proof -
  have "two_traits RA WA encA fitA (pair_Read RB RC) (pair_Write WB WC) (enc_pair encB encC) (fit_pair fitB fitC)"
    by unfold_locales
  then have "param_traits (pair_Read RA (pair_Read RB RC)) (pair_Write WA (pair_Write WB WC))
      (enc_pair encA (enc_pair encB encC)) (fit_pair fitA (fit_pair fitB fitC))"
    by (unfold_locales; intro two_traits.pair_safe two_traits.pair_appends two_traits.pair_parses)
  then show "param_traits (Tuple3_Read RA RB RC) (Tuple3_Write WA WB WC)
      (enc_pair encA (enc_pair encB encC)) (fit_pair fitA (fit_pair fitB fitC))"
    by (simp add: tuples_are_pairs)
qed

interpretation settings: tuple3_traits string_Read string_Write enc_string "\<lambda>_. True"
    int_Read int_Write enc_int "\<lambda>_. True" "vector_Read string_Read 4" "vector_Write string_Write"
    "enc_list enc_string" strings.fit_vector
  by unfold_locales

end
