(* ===== verification/ValueTraits.thy ===== *)
theory ValueTraits imports ParamTraits begin

text \<open>
  \<open>ReadValue\<close> and \<open>WriteValue\<close> of \<open>ipc/ipc_message_utils.cc\<close> and the traits of
  \<open>DictionaryValue\<close> and \<open>ListValue\<close>: trees of values on the wire, with the recursion limit of the
  code on both sides. The reader inserts with \<open>Set\<close>, which expands the dots of a key, while the
  writer writes keys as they are.
\<close>

section \<open>Writing\<close>

definition kMaxRecursionDepth :: nat where
  "kMaxRecursionDepth = 100"

fun WriteValue :: "heap \<Rightarrow> Value \<Rightarrow> nat \<Rightarrow> message \<Rightarrow> message option"
  and WriteValue_entries :: "heap \<Rightarrow> value_map \<Rightarrow> nat \<Rightarrow> message \<Rightarrow> message option"
  and WriteValue_items :: "heap \<Rightarrow> Value list \<Rightarrow> nat \<Rightarrow> message \<Rightarrow> message option" where
  "WriteValue h v recursion m =
     (if recursion > kMaxRecursionDepth then Some m
      else do {
        m1 \<leftarrow> dropped (WriteInt h (type_code (GetType v)) m);
        case v of
          NullValue \<Rightarrow> Some m1
        | BooleanValue val \<Rightarrow> bool_Write h val m1
        | IntegerValue val \<Rightarrow> int_Write h val m1
        | RealValue val \<Rightarrow> double_Write h val m1
        | StringValue val \<Rightarrow> string_Write h val m1
        | BinaryValue binary \<Rightarrow> dropped (WriteData h binary m1)
        | DictionaryValue dict \<Rightarrow> do {
            m2 \<leftarrow> int_Write h (word_of_nat (length dict)) m1;
            WriteValue_entries h dict recursion m2 }
        | ListValue l \<Rightarrow> do {
            m2 \<leftarrow> int_Write h (word_of_nat (length l)) m1;
            WriteValue_items h l recursion m2 } })"
| "WriteValue_entries h [] recursion m = Some m"
| "WriteValue_entries h ((key, subval) # dict) recursion m = do {
     m1 \<leftarrow> string_Write h key m;
     m2 \<leftarrow> WriteValue h subval (recursion + 1) m1;
     WriteValue_entries h dict recursion m2 }"
| "WriteValue_items h [] recursion m = Some m"
| "WriteValue_items h (subval # l) recursion m = do {
     m1 \<leftarrow> WriteValue h subval (recursion + 1) m;
     WriteValue_items h l recursion m1 }"

declare WriteValue.simps [simp del]

section \<open>Reading\<close>

text \<open>
  The loops of \<open>ReadDictionaryValue\<close> and \<open>ReadListValue\<close> take the number of rounds left; the
  limit on the recursion is what makes the functions total.
\<close>

lemma read_then_cong' [fundef_cong]:
  "R = R' \<Longrightarrow> (\<And>x. f x = f' x) \<Longrightarrow> read_then R f = read_then R' f'"
  by presburger

function ReadValue :: "nat \<Rightarrow> Value reader"
  and ReadDictionary_loop :: "nat \<Rightarrow> nat \<Rightarrow> value_map \<Rightarrow> value_map reader"
  and ReadList_loop :: "nat \<Rightarrow> nat \<Rightarrow> nat \<Rightarrow> Value list \<Rightarrow> Value list reader" where
  "ReadValue recursion =
     (if recursion > kMaxRecursionDepth then read_fail
      else read_then int_Read (\<lambda>type.
        if type = type_code TYPE_NULL then read_ok NullValue
        else if type = type_code TYPE_BOOLEAN
        then read_then bool_Read (\<lambda>val. read_ok (BooleanValue val))
        else if type = type_code TYPE_INTEGER
        then read_then int_Read (\<lambda>val. read_ok (IntegerValue val))
        else if type = type_code TYPE_REAL
        then read_then double_Read (\<lambda>val. read_ok (RealValue val))
        else if type = type_code TYPE_STRING
        then read_then string_Read (\<lambda>val. read_ok (StringValue val))
        else if type = type_code TYPE_BINARY
        then read_then (plain ReadData) (\<lambda>data. read_ok (BinaryValue data))
        else if type = type_code TYPE_DICTIONARY
        then read_then int_Read (\<lambda>size.
          read_then (ReadDictionary_loop recursion (nat (sint size)) []) (\<lambda>val. read_ok (DictionaryValue val)))
        else if type = type_code TYPE_LIST
        then read_then int_Read (\<lambda>size.
          read_then (ReadList_loop recursion (nat (sint size)) 0 []) (\<lambda>val. read_ok (ListValue val)))
        else read_fail))"
| "ReadDictionary_loop recursion rounds value =
     (case rounds of 0 \<Rightarrow> read_ok value
      | Suc n \<Rightarrow> read_then string_Read (\<lambda>key. read_then (ReadValue (recursion + 1)) (\<lambda>subval.
          ReadDictionary_loop recursion n (Dict_Set key subval value))))"
| "ReadList_loop recursion rounds i value =
     (case rounds of 0 \<Rightarrow> read_ok value
      | Suc n \<Rightarrow> read_then (ReadValue (recursion + 1)) (\<lambda>subval.
          ReadList_loop recursion n (i + 1) (List_Set i subval value)))"
  by pat_completeness auto
termination
  by (relation "measures [\<lambda>x. case x of
      Inl r \<Rightarrow> 2 * (101 - r)
    | Inr (Inl (r, n, v)) \<Rightarrow> max 1 (2 * (101 - r) - 1)
    | Inr (Inr (r, n, i, v)) \<Rightarrow> max 1 (2 * (101 - r) - 1),
    \<lambda>x. case x of Inl r \<Rightarrow> 0 | Inr (Inl (r, n, v)) \<Rightarrow> n | Inr (Inr (r, n, i, v)) \<Rightarrow> n]")
    (auto simp: kMaxRecursionDepth_def)

declare ReadValue.simps [simp del] ReadDictionary_loop.simps [simp del] ReadList_loop.simps [simp del]

definition ReadDictionaryValue :: "value_map \<Rightarrow> nat \<Rightarrow> value_map reader" where
  "ReadDictionaryValue value recursion = read_then int_Read (\<lambda>size.
     ReadDictionary_loop recursion (nat (sint size)) value)"

definition ReadListValue :: "Value list \<Rightarrow> nat \<Rightarrow> Value list reader" where
  "ReadListValue value recursion = read_then int_Read (\<lambda>size.
     ReadList_loop recursion (nat (sint size)) 0 value)"

definition DictionaryValue_Write :: "value_map writing" where
  "DictionaryValue_Write h p m = WriteValue h (DictionaryValue p) 0 m"

definition DictionaryValue_Read :: "value_map reader" where
  "DictionaryValue_Read = read_then int_Read (\<lambda>type.
     if type \<noteq> type_code TYPE_DICTIONARY then read_fail else ReadDictionaryValue [] 0)"

definition ListValue_Write :: "Value list writing" where
  "ListValue_Write h p m = WriteValue h (ListValue p) 0 m"

definition ListValue_Read :: "Value list reader" where
  "ListValue_Read = read_then int_Read (\<lambda>type.
     if type \<noteq> type_code TYPE_LIST then read_fail else ReadListValue [] 0)"

section \<open>Reading is safe\<close>

lemma ReadData_safe: "reads_safely (plain ReadData)"
  using bytes.safe by (simp add: bytes_Read_def)

lemma ReadValue_safe:
  "reads_safely (ReadValue r)"
  "reads_safely (ReadDictionary_loop r n d)"
  "reads_safely (ReadList_loop r n i l)"
proof (induction r and r n d and r n i l rule: ReadValue_ReadDictionary_loop_ReadList_loop.induct)
  case (1 r)
  note simple = reads_safely_then [OF _ reads_safely_return(1)]
  show ?case
  proof (cases "r > kMaxRecursionDepth")
    case True
    then show ?thesis by (simp add: ReadValue.simps)
  next
    case False
    have d: "reads_safely (ReadDictionary_loop r (nat (sint size)) [])" for size :: u32
      using 1 False by (simp add: type_code.simps)
    have l: "reads_safely (ReadList_loop r (nat (sint size)) 0 [])" for size :: u32
      using 1 False by (simp add: type_code.simps)
    show ?thesis
      by (subst ReadValue.simps)
        (auto simp: False intro!: reads_safely_then int.safe bool.safe double.safe string.safe
          ReadData_safe d l)
  qed
next
  case (2 r n d)
  then show ?case
    by (subst ReadDictionary_loop.simps) (auto intro!: reads_safely_then string.safe split: nat.split)
next
  case (3 r n i l)
  then show ?case
    by (subst ReadList_loop.simps) (auto intro!: reads_safely_then split: nat.split)
qed

interpretation DictionaryValue: param_reader DictionaryValue_Read
  by unfold_locales (auto simp: DictionaryValue_Read_def ReadDictionaryValue_def
    intro!: reads_safely_then int.safe ReadValue_safe)

interpretation ListValue: param_reader ListValue_Read
  by unfold_locales (auto simp: ListValue_Read_def ReadListValue_def
    intro!: reads_safely_then int.safe ReadValue_safe)

section \<open>The round trip\<close>

fun enc_value :: "Value \<Rightarrow> u8 list list" where
  "enc_value NullValue = enc_int 0"
| "enc_value (BooleanValue b) = enc_int 1 @ enc_bool b"
| "enc_value (IntegerValue i) = enc_int 2 @ enc_int i"
| "enc_value (RealValue r) = enc_int 3 @ enc_double r"
| "enc_value (StringValue s) = enc_int 4 @ enc_string s"
| "enc_value (BinaryValue b) = enc_int 5 @ enc_string b"
| "enc_value (DictionaryValue d) = enc_int 6 @ enc_int (word_of_nat (length d)) @
     concat (map (\<lambda>e. enc_string (fst e) @ enc_value (snd e)) d)"
| "enc_value (ListValue l) = enc_int 7 @ enc_int (word_of_nat (length l)) @ concat (map enc_value l)"

text \<open>
  The values that survive the wire at a recursion depth: not nested beyond the limit, counts that
  fit an \<open>int\<close>, and keys without a dot.
\<close>

fun wire_value :: "nat \<Rightarrow> Value \<Rightarrow> bool" where
  "wire_value r (DictionaryValue d) = (r \<le> kMaxRecursionDepth \<and> length d < 2147483648 \<and> sorted_keys d \<and>
     list_all (\<lambda>e. 46 \<notin> set (fst e) \<and> wire_value (r + 1) (snd e)) d)"
| "wire_value r (ListValue l) = (r \<le> kMaxRecursionDepth \<and> length l < 2147483648 \<and> list_all (wire_value (r + 1)) l)"
| "wire_value r _ = (r \<le> kMaxRecursionDepth)"

lemma wire_value_depth: "wire_value r v \<Longrightarrow> r \<le> kMaxRecursionDepth"
  by (cases v) auto

lemma dropped_int: "dropped (WriteInt h n m) = int_Write h n m"
  by (simp add: int_Write_def)

lemma int_first: "appends w cs \<Longrightarrow> appends (\<lambda>h m. Option.bind (int_Write h n m) (w h)) (enc_int n @ cs)"
  by (intro appends_seq int.appending) simp_all

lemma WriteValue_appends:
  "wire_value r v \<Longrightarrow> appends (\<lambda>h. WriteValue h v r) (enc_value v)"
proof (induction v arbitrary: r)
  case NullValue
  have "appends (\<lambda>h m. Option.bind (int_Write h 0 m) Some) (enc_int 0 @ [])"
    by (rule int_first) (rule appends_nil)
  then show ?case
    by (rule appends_cong) (use NullValue in \<open>simp_all add: WriteValue.simps dropped_int type_code.simps\<close>)
next
  case (BooleanValue b)
  have "appends (\<lambda>h m. Option.bind (int_Write h 1 m) (bool_Write h b)) (enc_int 1 @ enc_bool b)"
    by (rule int_first) (simp add: bool.appending)
  then show ?case
    by (rule appends_cong) (use BooleanValue in \<open>simp_all add: WriteValue.simps dropped_int type_code.simps\<close>)
next
  case (IntegerValue b)
  have "appends (\<lambda>h m. Option.bind (int_Write h 2 m) (int_Write h b)) (enc_int 2 @ enc_int b)"
    by (rule int_first) (simp add: int.appending)
  then show ?case
    by (rule appends_cong) (use IntegerValue in \<open>simp_all add: WriteValue.simps dropped_int type_code.simps\<close>)
next
  case (RealValue b)
  have "appends (\<lambda>h m. Option.bind (int_Write h 3 m) (double_Write h b)) (enc_int 3 @ enc_double b)"
    by (rule int_first) (simp add: double.appending)
  then show ?case
    by (rule appends_cong) (use RealValue in \<open>simp_all add: WriteValue.simps dropped_int type_code.simps\<close>)
next
  case (StringValue b)
  have "appends (\<lambda>h m. Option.bind (int_Write h 4 m) (string_Write h b)) (enc_int 4 @ enc_string b)"
    by (rule int_first) (simp add: string.appending)
  then show ?case
    by (rule appends_cong) (use StringValue in \<open>simp_all add: WriteValue.simps dropped_int type_code.simps\<close>)
next
  case (BinaryValue b)
  have "appends (\<lambda>h m. Option.bind (int_Write h 5 m) (\<lambda>m. dropped (WriteData h b m))) (enc_int 5 @ enc_string b)"
    by (rule int_first) (rule WriteData_appends)
  then show ?case
    by (rule appends_cong) (use BinaryValue in \<open>simp_all add: WriteValue.simps dropped_int type_code.simps\<close>)
next
  case (DictionaryValue d)
  have "appends (\<lambda>h. WriteValue_entries h e r) (concat (map (\<lambda>e. enc_string (fst e) @ enc_value (snd e)) e))"
    if "set e \<subseteq> set d" for e using that
  proof (induction e)
    case Nil
    then show ?case by (simp add: appends_nil)
  next
    case (Cons kv e)
    obtain k v where kv: "kv = (k, v)" by force
    have "(k, v) \<in> set d" using Cons.prems kv by simp
    then have "wire_value (r + 1) v" using DictionaryValue.prems by (force simp: list_all_iff)
    then have "appends (\<lambda>h. WriteValue h v (r + 1)) (enc_value v)"
      using DictionaryValue.IH [of "(k, v)" v] \<open>(k, v) \<in> set d\<close> by (simp add: snds.simps)
    moreover have "appends (\<lambda>h. WriteValue_entries h e r) (concat (map (\<lambda>e. enc_string (fst e) @ enc_value (snd e)) e))"
      using Cons by simp
    ultimately have "appends (\<lambda>h m. Option.bind (string_Write h k m)
        (\<lambda>m. Option.bind (WriteValue h v (r + 1) m) (WriteValue_entries h e r)))
        (enc_string k @ enc_value v @ concat (map (\<lambda>e. enc_string (fst e) @ enc_value (snd e)) e))"
      by (intro appends_seq string.appending) simp_all
    then show ?case by (rule appends_cong) (simp_all add: kv)
  qed
  then have "appends (\<lambda>h m. Option.bind (int_Write h 6 m) (\<lambda>m.
      Option.bind (int_Write h (word_of_nat (length d)) m) (WriteValue_entries h d r)))
      (enc_int 6 @ enc_int (word_of_nat (length d)) @ concat (map (\<lambda>e. enc_string (fst e) @ enc_value (snd e)) d))"
    by (intro int_first) simp
  then show ?case
    by (rule appends_cong) (use DictionaryValue.prems in \<open>simp_all add: WriteValue.simps dropped_int type_code.simps\<close>)
next
  case (ListValue l)
  have "appends (\<lambda>h. WriteValue_items h e r) (concat (map enc_value e))" if "set e \<subseteq> set l" for e using that
  proof (induction e)
    case Nil
    then show ?case by (simp add: appends_nil)
  next
    case (Cons v e)
    then have "wire_value (r + 1) v" using ListValue.prems by (simp add: list_all_iff)
    then have "appends (\<lambda>h. WriteValue h v (r + 1)) (enc_value v)"
      using ListValue.IH [of v] Cons.prems by simp
    moreover have "appends (\<lambda>h. WriteValue_items h e r) (concat (map enc_value e))" using Cons by simp
    ultimately have "appends (\<lambda>h m. Option.bind (WriteValue h v (r + 1) m) (WriteValue_items h e r))
        (enc_value v @ concat (map enc_value e))"
      by (intro appends_seq)
    then show ?case by (rule appends_cong) simp_all
  qed
  then have "appends (\<lambda>h m. Option.bind (int_Write h 7 m) (\<lambda>m.
      Option.bind (int_Write h (word_of_nat (length l)) m) (WriteValue_items h l r)))
      (enc_int 7 @ enc_int (word_of_nat (length l)) @ concat (map enc_value l))"
    by (intro int_first) simp
  then show ?case
    by (rule appends_cong) (use ListValue.prems in \<open>simp_all add: WriteValue.simps dropped_int type_code.simps\<close>)
qed


lemma List_Set_end [simp]: "List_Set (length l) v l = l @ [v]"
  by (simp add: List_Set_def List_Append_def)

lemma ReadDictionary_loop_parses:
  assumes "sorted_keys (d @ e)"
    "\<forall>kv \<in> set e. 46 \<notin> set (fst kv) \<and> parses (ReadValue (r + 1)) (enc_value (snd kv)) (snd kv)"
  shows "parses (ReadDictionary_loop r (length e) d)
    (concat (map (\<lambda>e. enc_string (fst e) @ enc_value (snd e)) e)) (d @ e)"
  using assms
proof (induction e arbitrary: d)
  case Nil
  then show ?case by (subst ReadDictionary_loop.simps) (simp add: parses_ok)
next
  case (Cons kv e)
  obtain k v where kv: "kv = (k, v)" by force
  have "\<forall>k' \<in> fst ` set d. k' < k"
    using Cons.prems(1) by (auto simp: kv sorted_keys_def sorted_wrt_append)
  then have i: "map_insert k v d = d @ [(k, v)]" by (rule map_insert_last)
  have k: "46 \<notin> set k" and v: "parses (ReadValue (r + 1)) (enc_value v) v"
    using Cons.prems(2) by (simp_all add: kv)
  have IH: "parses (ReadDictionary_loop r (length e) (Dict_Set k v d))
      (concat (map (\<lambda>e. enc_string (fst e) @ enc_value (snd e)) e)) ((d @ [(k, v)]) @ e)"
    unfolding Dict_Set_nodot [OF k] i using Cons.prems by (intro Cons.IH) (simp_all add: kv)
  have "parses (read_then string_Read (\<lambda>k. read_then (ReadValue (r + 1)) (\<lambda>v.
      ReadDictionary_loop r (length e) (Dict_Set k v d))))
      (enc_string k @ enc_value v @ concat (map (\<lambda>e. enc_string (fst e) @ enc_value (snd e)) e)) ((d @ [(k, v)]) @ e)"
    by (rule parses_then [OF string.parsing [OF TrueI]], rule parses_then [OF v], rule IH)
  then show ?case by (subst ReadDictionary_loop.simps) (simp add: kv)
qed

lemma ReadList_loop_parses:
  assumes "\<forall>v \<in> set e. parses (ReadValue (r + 1)) (enc_value v) v"
  shows "parses (ReadList_loop r (length e) (length l) l) (concat (map enc_value e)) (l @ e)"
  using assms
proof (induction e arbitrary: l)
  case Nil
  then show ?case by (subst ReadList_loop.simps) (simp add: parses_ok)
next
  case (Cons v e)
  have v: "parses (ReadValue (r + 1)) (enc_value v) v" using Cons.prems by simp
  have "parses (ReadList_loop r (length e) (length (l @ [v])) (l @ [v])) (concat (map enc_value e)) ((l @ [v]) @ e)"
    using Cons.prems by (intro Cons.IH) simp
  then have IH: "parses (ReadList_loop r (length e) (length l + 1) (List_Set (length l) v l))
      (concat (map enc_value e)) ((l @ [v]) @ e)" by simp
  have "parses (read_then (ReadValue (r + 1)) (\<lambda>v. ReadList_loop r (length e) (length l + 1) (List_Set (length l) v l)))
      (enc_value v @ concat (map enc_value e)) ((l @ [v]) @ e)"
    by (rule parses_then [OF v]) (rule IH)
  then show ?case by (subst ReadList_loop.simps) simp
qed

lemma int_then: "parses (f n) cs y \<Longrightarrow> parses (read_then int_Read f) (enc_int n @ cs) y"
  by (rule parses_then [OF int.parsing [OF TrueI]])

lemma ReadValue_parses: "wire_value r v \<Longrightarrow> parses (ReadValue r) (enc_value v) v"
proof (induction v arbitrary: r)
  case NullValue
  have "parses (read_then int_Read f) (enc_int 0) y" if "parses (f 0) [] y" for f and y :: Value
    using int_then [of f 0 "[]" y] that by simp
  then show ?case using NullValue
    by (subst ReadValue.simps) (auto simp: type_code.simps parses_ok)
next
  case (BooleanValue b)
  then show ?case
    by (subst ReadValue.simps) (auto simp: type_code.simps intro!: int_then parses_map [OF bool.parsing])
next
  case (IntegerValue b)
  then show ?case
    by (subst ReadValue.simps) (auto simp: type_code.simps intro!: int_then parses_map [OF int.parsing])
next
  case (RealValue b)
  then show ?case
    by (subst ReadValue.simps) (auto simp: type_code.simps intro!: int_then parses_map [OF double.parsing])
next
  case (StringValue b)
  then show ?case
    by (subst ReadValue.simps) (auto simp: type_code.simps intro!: int_then parses_map [OF string.parsing])
next
  case (BinaryValue b)
  then show ?case
    by (subst ReadValue.simps) (auto simp: type_code.simps intro!: int_then parses_map [OF ReadData_parses])
next
  case (DictionaryValue d)
  have n: "length d < 2147483648" and r: "\<not> r > kMaxRecursionDepth"
    using DictionaryValue.prems by simp_all
  have "\<forall>kv \<in> set d. 46 \<notin> set (fst kv) \<and> parses (ReadValue (r + 1)) (enc_value (snd kv)) (snd kv)"
  proof
    fix kv assume kv: "kv \<in> set d"
    then have w: "46 \<notin> set (fst kv)" "wire_value (r + 1) (snd kv)"
      using DictionaryValue.prems by (simp_all add: list_all_iff)
    then show "46 \<notin> set (fst kv) \<and> parses (ReadValue (r + 1)) (enc_value (snd kv)) (snd kv)"
      using DictionaryValue.IH [OF kv, of "snd kv"] by (simp add: snds.intros)
  qed
  then have "parses (ReadDictionary_loop r (length d) [])
      (concat (map (\<lambda>e. enc_string (fst e) @ enc_value (snd e)) d)) ([] @ d)"
    using DictionaryValue.prems by (intro ReadDictionary_loop_parses) simp_all
  then have "parses (read_then (ReadDictionary_loop r (length d) []) (\<lambda>val. read_ok (DictionaryValue val)))
      (concat (map (\<lambda>e. enc_string (fst e) @ enc_value (snd e)) d)) (DictionaryValue d)"
    by (intro parses_map) simp_all
  then show ?case using r
    by (subst ReadValue.simps) (auto simp: type_code.simps small_word [OF n] intro!: int_then)
next
  case (ListValue l)
  have n: "length l < 2147483648" and r: "\<not> r > kMaxRecursionDepth"
    using ListValue.prems by simp_all
  have "\<forall>v \<in> set l. parses (ReadValue (r + 1)) (enc_value v) v"
    using ListValue.prems ListValue.IH by (simp add: list_all_iff)
  from ReadList_loop_parses [OF this, of "[]"]
  have "parses (read_then (ReadList_loop r (length l) 0 []) (\<lambda>val. read_ok (ListValue val)))
      (concat (map enc_value l)) (ListValue l)"
    by (intro parses_map) simp_all
  then show ?case using r
    by (subst ReadValue.simps) (auto simp: type_code.simps small_word [OF n] intro!: int_then)
qed

definition fit_dictionary :: "value_map \<Rightarrow> bool" where
  "fit_dictionary d = wire_value 0 (DictionaryValue d)"

definition enc_dictionary :: "value_map \<Rightarrow> u8 list list" where
  "enc_dictionary d = enc_value (DictionaryValue d)"

definition fit_listvalue :: "Value list \<Rightarrow> bool" where
  "fit_listvalue l = wire_value 0 (ListValue l)"

definition enc_listvalue :: "Value list \<Rightarrow> u8 list list" where
  "enc_listvalue l = enc_value (ListValue l)"

lemma read_dictionary_value:
  assumes "parses (ReadValue 0) cs (DictionaryValue d)" "cs = enc_int 6 @ ds"
  shows "parses DictionaryValue_Read cs d"
  unfolding parses_def
proof (intro allI impI, elim conjE)
  fix m :: message and off it assume m: "in_block m" "has_chunks m off cs" "iter_at m off it"
  then obtain it' where r: "ReadValue 0 m it = Some (Some (DictionaryValue d), it', m)"
    "iter_at m (off + chunks_len cs) it'"
    using assms(1) unfolding parses_def by blast
  have "has_chunks m off (enc_int 6)" using m(2) assms(2) by simp
  then obtain it1 where "int_Read m it = Some (Some 6, it1, m)"
    using m(1,3) int.parsing [of 6] unfolding parses_def by blast
  with r(1) have "DictionaryValue_Read m it = Some (Some d, it', m)"
    by (subst (asm) ReadValue.simps)
      (auto simp: kMaxRecursionDepth_def type_code.simps DictionaryValue_Read_def ReadDictionaryValue_def
        read_then_def read_ok_def split: option.splits)
  with r(2) show "\<exists>it'. DictionaryValue_Read m it = Some (Some d, it', m) \<and> iter_at m (off + chunks_len cs) it'"
    by blast
qed

lemma read_list_value:
  assumes "parses (ReadValue 0) cs (ListValue l)" "cs = enc_int 7 @ ds"
  shows "parses ListValue_Read cs l"
  unfolding parses_def
proof (intro allI impI, elim conjE)
  fix m :: message and off it assume m: "in_block m" "has_chunks m off cs" "iter_at m off it"
  then obtain it' where r: "ReadValue 0 m it = Some (Some (ListValue l), it', m)"
    "iter_at m (off + chunks_len cs) it'"
    using assms(1) unfolding parses_def by blast
  have "has_chunks m off (enc_int 7)" using m(2) assms(2) by simp
  then obtain it1 where "int_Read m it = Some (Some 7, it1, m)"
    using m(1,3) int.parsing [of 7] unfolding parses_def by blast
  with r(1) have "ListValue_Read m it = Some (Some l, it', m)"
    by (subst (asm) ReadValue.simps)
      (auto simp: kMaxRecursionDepth_def type_code.simps ListValue_Read_def ReadListValue_def
        read_then_def read_ok_def split: option.splits)
  with r(2) show "\<exists>it'. ListValue_Read m it = Some (Some l, it', m) \<and> iter_at m (off + chunks_len cs) it'"
    by blast
qed

interpretation dictionary: param_traits DictionaryValue_Read DictionaryValue_Write enc_dictionary fit_dictionary
proof unfold_locales
  fix d assume w: "fit_dictionary d"
  show "appends (\<lambda>h. DictionaryValue_Write h d) (enc_dictionary d)"
    using WriteValue_appends [OF w [unfolded fit_dictionary_def]]
    by (rule appends_cong) (simp_all add: DictionaryValue_Write_def enc_dictionary_def)
  show "parses DictionaryValue_Read (enc_dictionary d) d"
    using ReadValue_parses [OF w [unfolded fit_dictionary_def]]
    by (intro read_dictionary_value) (simp_all add: enc_dictionary_def)
qed

interpretation listvalue: param_traits ListValue_Read ListValue_Write enc_listvalue fit_listvalue
proof unfold_locales
  fix l assume w: "fit_listvalue l"
  show "appends (\<lambda>h. ListValue_Write h l) (enc_listvalue l)"
    using WriteValue_appends [OF w [unfolded fit_listvalue_def]]
    by (rule appends_cong) (simp_all add: ListValue_Write_def enc_listvalue_def)
  show "parses ListValue_Read (enc_listvalue l) l"
    using ReadValue_parses [OF w [unfolded fit_listvalue_def]]
    by (intro read_list_value) (simp_all add: enc_listvalue_def)
qed

end
