(* ===== verification/FdTraits.thy ===== *)
theory FdTraits imports ParamTraits begin

text \<open>
  The \<open>ParamTraits\<close> of \<open>ipc/ipc_message_utils.cc\<close> that carry descriptors or messages:
  \<open>base::FileDescriptor\<close>, \<open>IPC::ChannelHandle\<close>, \<open>LogData\<close> and \<open>IPC::Message\<close> itself. A
  descriptor travels as its index in the set beside the payload.
\<close>

section \<open>Descriptors and channel handles\<close>

definition FileDescriptor_Write :: "FileDescriptor writing" where
  "FileDescriptor_Write h p m = (let valid = fd p \<ge> 0 in do {
     m1 \<leftarrow> bool_Write h valid m;
     if valid then dropped (WriteFileDescriptor h p m1) else Some m1 })"

definition FileDescriptor_Read :: "FileDescriptor reader" where
  "FileDescriptor_Read = read_then bool_Read (\<lambda>valid.
     if \<not> valid then read_ok \<lparr>fd = - 1, auto_close = False\<rparr> else ReadFileDescriptor)"

record ChannelHandle =
  ch_name :: str
  socket :: FileDescriptor

definition ChannelHandle_Write :: "ChannelHandle writing" where
  "ChannelHandle_Write h p m = do {
     m1 \<leftarrow> string_Write h (ch_name p) m;
     FileDescriptor_Write h (socket p) m1 }"

definition ChannelHandle_Read :: "ChannelHandle reader" where
  "ChannelHandle_Read = read_then string_Read (\<lambda>n. read_then FileDescriptor_Read (\<lambda>s.
     read_ok \<lparr>ch_name = n, socket = s\<rparr>))"

section \<open>Log data\<close>

record LogData =
  channel :: str
  log_routing_id :: u32
  log_type :: u32
  log_flags :: str
  sent :: u64
  receive :: u64
  dispatch :: u64
  message_name :: str
  params :: str

definition LogData_Write :: "LogData writing" where
  "LogData_Write h p m = do {
     m1 \<leftarrow> string_Write h (channel p) m;
     m2 \<leftarrow> int_Write h (log_routing_id p) m1;
     m3 \<leftarrow> int_Write h (log_type p) m2;
     m4 \<leftarrow> string_Write h (log_flags p) m3;
     m5 \<leftarrow> int64_Write h (sent p) m4;
     m6 \<leftarrow> int64_Write h (receive p) m5;
     m7 \<leftarrow> int64_Write h (dispatch p) m6;
     string_Write h (params p) m7 }"

text \<open>The reader narrows the type to 16 bits and leaves \<open>message_name\<close> as it was.\<close>

definition LogData_Read :: "LogData \<Rightarrow> LogData reader" where
  "LogData_Read r = read_then string_Read (\<lambda>c. read_then int_Read (\<lambda>rid. read_then int_Read (\<lambda>type.
     read_then string_Read (\<lambda>f. read_then int64_Read (\<lambda>s. read_then int64_Read (\<lambda>rc.
     read_then int64_Read (\<lambda>d. read_then string_Read (\<lambda>p.
     read_ok (r\<lparr>channel := c, log_routing_id := rid, log_type := ucast (ucast type :: u16),
       log_flags := f, sent := s, receive := rc, dispatch := d, params := p\<rparr>)))))))))"

section \<open>Messages in messages\<close>

definition Message_Write :: "message writing" where
  "Message_Write h p m = do {
     n \<leftarrow> pickle_size p;
     data \<leftarrow> pload p (hdr p) (unat n);
     m1 \<leftarrow> dropped (WriteInt h n m);
     dropped (WriteData h data m1) }"

text \<open>
  The nested bytes are wrapped in a \<open>Message\<close> where they lie in the outer block, and that is
  assigned to \<open>r\<close>, which copies it.
\<close>

definition Message_Read :: "heap \<Rightarrow> message \<Rightarrow> message reader" where
  "Message_Read h r = read_then int_Read (\<lambda>size m iter. do {
     (d, it) \<leftarrow> ReadData m iter;
     case d of None \<Rightarrow> Some (None, it, m)
     | Some data \<Rightarrow> do {
         nested \<leftarrow> Message_const (it - AlignInt (word_of_nat (length data)) 4) data;
         r' \<leftarrow> Message_assign h nested r;
         Some (Some r', it, m) } })"

section \<open>Reading is safe\<close>

lemma ReadFileDescriptor_safe: "reads_safely ReadFileDescriptor"
  unfolding reads_safely_def
proof (intro allI impI)
  fix m :: message and it :: u32
  assume m: "readable m"
  then obtain r it1 where r: "ReadInt m it = Some (r, it1)"
    using fixed_read_safe(1) [OF m, of it] by (cases "ReadInt m it") auto
  have eq: "m = m\<lparr>fd_set := fd_set m\<rparr>" by simp
  show "\<exists>r it' s. ReadFileDescriptor m it = Some (r, it', m\<lparr>fd_set := s\<rparr>)"
  proof (cases r)
    case None
    then have "ReadFileDescriptor m it = Some (None, it1, m\<lparr>fd_set := fd_set m\<rparr>)"
      using r by (simp add: ReadFileDescriptor_def)
    then show ?thesis by blast
  next
    case (Some i)
    show ?thesis
    proof (cases "fd_set m")
      case None
      then have "ReadFileDescriptor m it = Some (None, it1, m\<lparr>fd_set := fd_set m\<rparr>)"
        using r Some by (simp add: ReadFileDescriptor_def)
      then show ?thesis by blast
    next
      case (Some s)
      then show ?thesis using r \<open>r = Some i\<close> by (auto simp: ReadFileDescriptor_def split: prod.split)
    qed
  qed
qed

interpretation FileDescriptor: param_reader FileDescriptor_Read
  by unfold_locales (auto simp: FileDescriptor_Read_def
    intro!: reads_safely_then bool.safe ReadFileDescriptor_safe)

interpretation ChannelHandle: param_reader ChannelHandle_Read
  by unfold_locales (auto simp: ChannelHandle_Read_def
    intro!: reads_safely_then string.safe FileDescriptor.safe)

interpretation LogData: param_reader "LogData_Read r" for r
  by unfold_locales (auto simp: LogData_Read_def
    intro!: reads_safely_then string.safe int.safe int64.safe)

section \<open>Descriptors arrive\<close>

lemma fd_set_views [simp]:
  "writable (m\<lparr>fd_set := s\<rparr>) = writable m" "in_block (m\<lparr>fd_set := s\<rparr>) = in_block m"
  "psize (m\<lparr>fd_set := s\<rparr>) = psize m" "padded_payload (m\<lparr>fd_set := s\<rparr>) = padded_payload m"
  "extra_header (m\<lparr>fd_set := s\<rparr>) = extra_header m" "at_off (m\<lparr>fd_set := s\<rparr>) off = at_off m off"
  "iter_at (m\<lparr>fd_set := s\<rparr>) off it = iter_at m off it" "room h (m\<lparr>fd_set := s\<rparr>) cs = room h m cs"
  by (simp_all add: writable_def in_block_def psize_def padded_payload_def extra_header_def at_off_def
    payload_def iter_at_def room_def)

lemma has_chunks_fd_set [simp]: "has_chunks ((m :: message)\<lparr>fd_set := s\<rparr>) off cs = has_chunks m off cs"
  by (induction cs arbitrary: off) simp_all

lemma more_fd_set:
  fixes m m' :: message
  shows "pickle.more m' = pickle.more m \<longleftrightarrow> fd_set m' = fd_set m"
  by (cases m; cases m') simp

lemma appended_same_fds:
  fixes m m' :: message
  shows "appended m cs m' \<Longrightarrow> fd_set m' = fd_set m"
  by (simp add: appended_def more_fd_set)

lemma appended_fd_set:
  fixes m m' :: message
  assumes "appended (m\<lparr>fd_set := s\<rparr>) cs m'"
  shows "fd_set m' = s" "appended m cs (m'\<lparr>fd_set := fd_set m\<rparr>)"
proof -
  show "fd_set m' = s" using appended_same_fds [OF assms] by simp
  show "appended m cs (m'\<lparr>fd_set := fd_set m\<rparr>)" using assms by (simp add: appended_def more_fd_set)
qed

text \<open>The descriptors of a message, none when it has no set.\<close>

definition message_fds :: "message \<Rightarrow> FileDescriptor list" where
  "message_fds m = (case fd_set m of None \<Rightarrow> [] | Some s \<Rightarrow> descriptors_of s)"

definition enc_fd :: "nat \<Rightarrow> u8 list list" where
  "enc_fd i = enc_bool True @ enc_int (word_of_nat i)"

lemma FileDescriptor_Write_ok:
  assumes "0 \<le> fd d" "length (message_fds m) < MAX_DESCRIPTORS_PER_MESSAGE"
    "room h m (enc_fd (length (message_fds m)))"
  obtains m' where "FileDescriptor_Write h d m = Some m'" "message_fds m' = message_fds m @ [d]"
    "appended m (enc_fd (length (message_fds m))) (m'\<lparr>fd_set := fd_set m\<rparr>)"
proof -
  let ?n = "length (message_fds m)"
  have r: "room h m (enc_bool True @ enc_int (word_of_nat ?n))" using assms(3) by (simp add: enc_fd_def)
  then have "room h m (enc_bool True)" by (rule room_append)
  then obtain m1 where m1: "bool_Write h True m = Some m1" "appended m (enc_bool True) m1"
    using bool.writes by blast
  have r1: "room h m1 (enc_int (word_of_nat ?n))" using r m1(2) by (rule room_after)
  have f1: "fd_set m1 = fd_set m" using m1(2) by (rule appended_same_fds)
  define s0 where "s0 = (case fd_set m of Some s \<Rightarrow> s | None \<Rightarrow> FileDescriptorSet_new)"
  have s0: "descriptors_of s0 = message_fds m" "EnsureFileDescriptorSet m1 = m1\<lparr>fd_set := Some s0\<rparr>"
    by (auto simp: s0_def message_fds_def FileDescriptorSet_new_def EnsureFileDescriptorSet_def f1
      split: option.split)
  let ?m0 = "m1\<lparr>fd_set := Some s0\<rparr>"
  have sz: "file_descriptor_set ?m0 = s0" by (simp add: file_descriptor_set_def EnsureFileDescriptorSet_def)
  have "room h ?m0 (enc_int (word_of_nat ?n))" using r1 by simp
  then obtain m2 where m2: "WriteInt h (word_of_nat ?n) ?m0 = Some (True, m2)"
    "appended ?m0 (enc_int (word_of_nat ?n)) m2"
    unfolding enc_int_def WriteInt_def using WriteBytes_room by blast
  note a2 = appended_fd_set [OF m2(2)]
  have fs: "file_descriptor_set m2 = s0" by (simp add: file_descriptor_set_def EnsureFileDescriptorSet_def a2(1))
  define s1 where "s1 = s0\<lparr>descriptors_of := message_fds m @ [d]\<rparr>"
  have s1: "(if auto_close d then fds_AddAndAutoClose (fd d) s0 else fds_Add (fd d) s0) = (True, s1)"
    using assms(2) s0(1) by (cases d) (simp add: s1_def fds_AddAndAutoClose_def fds_Add_def)
  have w: "WriteFileDescriptor h d m1 = Some (True, m2\<lparr>fd_set := Some s1\<rparr>)"
    using m2(1) s1 by (cases "auto_close d") (simp_all add: WriteFileDescriptor_def Let_def s0 sz fds_size_def fs)
  show thesis
  proof (rule that)
    show "FileDescriptor_Write h d m = Some (m2\<lparr>fd_set := Some s1\<rparr>)"
      using assms(1) m1(1) w by (simp add: FileDescriptor_Write_def Let_def dropped_def)
    show "message_fds (m2\<lparr>fd_set := Some s1\<rparr>) = message_fds m @ [d]"
      by (simp add: message_fds_def s1_def)
    have "appended m (enc_bool True @ enc_int (word_of_nat ?n)) (m2\<lparr>fd_set := fd_set m1\<rparr>)"
      using m1(2) a2(2) by (rule appended_trans)
    then show "appended m (enc_fd ?n) (m2\<lparr>fd_set := Some s1, fd_set := fd_set m\<rparr>)"
      by (simp add: enc_fd_def f1)
  qed
qed

text \<open>Reading the descriptor at the high-water mark.\<close>

lemma FileDescriptor_Read_ok:
  assumes ib: "in_block m" and c: "has_chunks m off (enc_fd i)" and it: "iter_at m off it"
    and s: "fd_set m = Some s" "highwater s = i" "i < length (descriptors_of s)" "i < 4294967296"
      "0 \<le> fd (descriptors_of s ! i)"
  obtains it' where "FileDescriptor_Read m it = Some (Some \<lparr>fd = fd (descriptors_of s ! i), auto_close = True\<rparr>,
      it', m\<lparr>fd_set := Some (s\<lparr>highwater := Suc i\<rparr>)\<rparr>)"
    "iter_at m (off + chunks_len (enc_fd i)) it'"
proof -
  have "has_chunks m off (enc_bool True)" using c by (simp add: enc_fd_def)
  then obtain it1 where 1: "bool_Read m it = Some (Some True, it1, m)"
    "iter_at m (off + chunks_len (enc_bool True)) it1"
    using bool.parsing [of True] ib it unfolding parses_def by blast
  have h: "has_chunks m (off + chunks_len (enc_bool True)) [w32_bytes (word_of_nat i)]"
    using c by (simp add: enc_fd_def enc_int_def)
  from ReadInt_has [OF ib h 1(2)]
  have 2: "ReadInt m it1 = Some (Some (word_of_nat i), at_off m (off + chunks_len (enc_bool True) + 4))"
    (is "_ = Some (_, ?it2)") .
  have ui: "unat (word_of_nat i :: u32) = i" using s(4) by (rule unat_word_of_nat32)
  have "GetDescriptorAt i s = (fd (descriptors_of s ! i), s\<lparr>highwater := Suc i\<rparr>)"
    using s(2,3) by (auto simp: GetDescriptorAt_def)
  then have "ReadFileDescriptor m it1 = Some (Some \<lparr>fd = fd (descriptors_of s ! i), auto_close = True\<rparr>,
      ?it2, m\<lparr>fd_set := Some (s\<lparr>highwater := Suc i\<rparr>)\<rparr>)"
    using 2 s(1,5) ui by (simp add: ReadFileDescriptor_def)
  then have "FileDescriptor_Read m it = Some (Some \<lparr>fd = fd (descriptors_of s ! i), auto_close = True\<rparr>,
      ?it2, m\<lparr>fd_set := Some (s\<lparr>highwater := Suc i\<rparr>)\<rparr>)"
    using 1(1) by (simp add: FileDescriptor_Read_def read_then_def)
  then show thesis by (rule that) (simp add: enc_fd_def enc_int_def add.assoc align_up_id)
qed

definition enc_fds :: "nat \<Rightarrow> nat \<Rightarrow> u8 list list" where
  "enc_fds i n = concat (map enc_fd [i..<i + n])"

lemma enc_fds_Suc: "enc_fds i (Suc n) = enc_fd i @ enc_fds (Suc i) n"
  by (simp add: enc_fds_def upt_conv_Cons del: upt_Suc)

text \<open>Several descriptors written one after another, and read back from the received set.\<close>

lemma write_fds:
  assumes "\<forall>d \<in> set ds. 0 \<le> fd d" "length (message_fds m) + length ds \<le> MAX_DESCRIPTORS_PER_MESSAGE"
    "room h m (enc_fds (length (message_fds m)) (length ds))"
  shows "\<exists>m'. write_each FileDescriptor_Write h ds m = Some m' \<and> message_fds m' = message_fds m @ ds \<and>
    appended m (enc_fds (length (message_fds m)) (length ds)) (m'\<lparr>fd_set := fd_set m\<rparr>)"
  using assms
proof (induction ds arbitrary: m)
  case Nil
  then show ?case by (simp add: enc_fds_def room_def appended_nil)
next
  case (Cons d ds)
  let ?n = "length (message_fds m)"
  have r: "room h m (enc_fd ?n @ enc_fds (Suc ?n) (length ds))"
    using Cons.prems(3) by (simp add: enc_fds_Suc)
  then have "room h m (enc_fd ?n)" by (rule room_append)
  moreover have "0 \<le> fd d" "?n < MAX_DESCRIPTORS_PER_MESSAGE" using Cons.prems(1,2) by simp_all
  ultimately obtain m1 where m1: "FileDescriptor_Write h d m = Some m1"
    "message_fds m1 = message_fds m @ [d]" "appended m (enc_fd ?n) (m1\<lparr>fd_set := fd_set m\<rparr>)"
    using FileDescriptor_Write_ok by metis
  have "room h m1 (enc_fds (Suc ?n) (length ds))" using room_after [OF r m1(3)] by simp
  with Cons.prems m1(2) obtain m2 where m2: "write_each FileDescriptor_Write h ds m1 = Some m2"
    "message_fds m2 = message_fds m1 @ ds" "appended m1 (enc_fds (Suc ?n) (length ds)) (m2\<lparr>fd_set := fd_set m1\<rparr>)"
    using Cons.IH [of m1] by auto
  have "appended (m1\<lparr>fd_set := fd_set m, fd_set := fd_set m1\<rparr>) (enc_fds (Suc ?n) (length ds)) (m2\<lparr>fd_set := fd_set m1\<rparr>)"
    using m2(3) by simp
  from appended_fd_set(2) [OF this]
  have "appended (m1\<lparr>fd_set := fd_set m\<rparr>) (enc_fds (Suc ?n) (length ds)) (m2\<lparr>fd_set := fd_set m\<rparr>)" by simp
  with m1(3) have "appended m (enc_fd ?n @ enc_fds (Suc ?n) (length ds)) (m2\<lparr>fd_set := fd_set m\<rparr>)"
    by (rule appended_trans)
  then show ?case using m1(1,2) m2(1,2) by (simp add: enc_fds_Suc)
qed

definition closing :: "FileDescriptor \<Rightarrow> FileDescriptor" where
  "closing d = d\<lparr>auto_close := True\<rparr>"

lemma read_fds_ok:
  assumes "in_block m" "has_chunks m off (enc_fds i n)" "iter_at m off it"
    "fd_set m = Some s" "highwater s = i" "i + n = length (descriptors_of s)" "i + n < 4294967296"
    "\<forall>d \<in> set (descriptors_of s). 0 \<le> fd d"
  shows "\<exists>it'. read_each FileDescriptor_Read n m it = Some (Some (map closing (drop i (descriptors_of s))), it',
      m\<lparr>fd_set := Some (s\<lparr>highwater := i + n\<rparr>)\<rparr>) \<and> iter_at m (off + chunks_len (enc_fds i n)) it'"
  using assms
proof (induction n arbitrary: m off it i s)
  case 0
  then have "m\<lparr>fd_set := Some (s\<lparr>highwater := i + 0\<rparr>)\<rparr> = m" by simp
  with 0 show ?case by (simp add: read_ok_def enc_fds_def)
next
  case (Suc n)
  let ?ds = "descriptors_of s" and ?m1 = "m\<lparr>fd_set := Some (s\<lparr>highwater := Suc i\<rparr>)\<rparr>"
  have c: "has_chunks m off (enc_fd i)" "has_chunks m (off + chunks_len (enc_fd i)) (enc_fds (Suc i) n)"
    using Suc.prems(2) by (simp_all add: enc_fds_Suc)
  have i: "i < length ?ds" "i < 4294967296" "0 \<le> fd (?ds ! i)" using Suc.prems(6-8) by simp_all
  obtain it1 where 1: "FileDescriptor_Read m it = Some (Some \<lparr>fd = fd (?ds ! i), auto_close = True\<rparr>, it1, ?m1)"
    "iter_at m (off + chunks_len (enc_fd i)) it1"
    by (rule FileDescriptor_Read_ok [OF Suc.prems(1) c(1) Suc.prems(3,4,5) i])
  have "\<exists>it'. read_each FileDescriptor_Read n ?m1 it1 =
      Some (Some (map closing (drop (Suc i) (descriptors_of (s\<lparr>highwater := Suc i\<rparr>)))), it',
        ?m1\<lparr>fd_set := Some (s\<lparr>highwater := Suc i, highwater := Suc i + n\<rparr>)\<rparr>) \<and>
      iter_at ?m1 (off + chunks_len (enc_fd i) + chunks_len (enc_fds (Suc i) n)) it'"
    using Suc.prems 1(2) c(2) by (intro Suc.IH) simp_all
  then obtain it2 where 2: "read_each FileDescriptor_Read n ?m1 it1 =
      Some (Some (map closing (drop (Suc i) ?ds)), it2, m\<lparr>fd_set := Some (s\<lparr>highwater := i + Suc n\<rparr>)\<rparr>)"
    "iter_at m (off + chunks_len (enc_fds i (Suc n))) it2"
    by (auto simp: enc_fds_Suc add.assoc)
  have "drop i ?ds = ?ds ! i # drop (Suc i) ?ds" using i(1) by (simp add: Cons_nth_drop_Suc)
  moreover have "closing (?ds ! i) = \<lparr>fd = fd (?ds ! i), auto_close = True\<rparr>" by (simp add: closing_def)
  ultimately show ?case using 1(1) 2 by (auto simp: read_then_def read_ok_def)
qed


text \<open>
  C12: descriptors sent in a message reach the receiver in order, each to be closed by its new
  owner, and the receiver's set has nothing left to close.
\<close>

theorem descriptors_transfer:
  assumes "\<forall>d \<in> set ds. 0 \<le> fd d" "length ds \<le> MAX_DESCRIPTORS_PER_MESSAGE"
    "room h m (enc_fds 0 (length ds))" "fd_set m = None"
  shows "\<exists>m' it q. write_each FileDescriptor_Write h ds m = Some m' \<and>
    read_each FileDescriptor_Read (length ds)
      (m'\<lparr>fd_set := Some (SetDescriptors (map fd (message_fds m')) FileDescriptorSet_new)\<rparr>)
      (at_off m' (align_up 4 (psize m))) = Some (Some (map closing ds), it, q) \<and>
    map_option FileDescriptorSet_destroy (fd_set q) = Some []"
proof -
  let ?n = "length ds"
  have e: "message_fds m = []" by (simp add: message_fds_def assms(4))
  obtain m' where m': "write_each FileDescriptor_Write h ds m = Some m'" "message_fds m' = ds"
    "appended m (enc_fds 0 ?n) (m'\<lparr>fd_set := fd_set m\<rparr>)"
    using write_fds [of ds m h] assms e by auto
  define s where "s = SetDescriptors (map fd (message_fds m')) FileDescriptorSet_new"
  have s: "descriptors_of s = map closing ds" "highwater s = 0"
    by (simp_all add: s_def SetDescriptors_def FileDescriptorSet_new_def m'(2) closing_def)
  let ?q = "m'\<lparr>fd_set := Some s\<rparr>" and ?off = "align_up 4 (psize m)"
  have "has_chunks (m'\<lparr>fd_set := fd_set m\<rparr>) ?off (enc_fds 0 ?n)"
    using assms(3) m'(3) by (rule appended_has_chunks)
  then have c: "has_chunks ?q ?off (enc_fds 0 ?n)" by simp
  have ib: "in_block ?q" using appended_readable [OF m'(3)] by simp
  have "\<exists>it'. read_each FileDescriptor_Read ?n ?q (at_off m' ?off) =
      Some (Some (map closing (drop 0 (descriptors_of s))), it', ?q\<lparr>fd_set := Some (s\<lparr>highwater := 0 + ?n\<rparr>)\<rparr>) \<and>
      iter_at ?q (?off + chunks_len (enc_fds 0 ?n)) it'"
    using ib c s assms(1,2)
    by (intro read_fds_ok) (simp_all add: closing_def MAX_DESCRIPTORS_PER_MESSAGE_def)
  then obtain it where "read_each FileDescriptor_Read ?n ?q (at_off m' ?off) =
      Some (Some (map closing ds), it, m'\<lparr>fd_set := Some (s\<lparr>highwater := ?n\<rparr>)\<rparr>)"
    by (auto simp: s closing_def comp_def)
  then show ?thesis using m'(1)
    by (intro exI [of _ m'] exI [of _ it] exI [of _ "m'\<lparr>fd_set := Some (s\<lparr>highwater := ?n\<rparr>)\<rparr>"])
      (simp add: s_def [symmetric] FileDescriptorSet_destroy_def s)
qed

theorem descriptors_transfer_witness:
  "\<exists>m. Message_new sample_heap 7 8 PRIORITY_NORMAL = Some m \<and>
   (\<exists>m' it q. write_each FileDescriptor_Write sample_heap
        [\<lparr>fd = 5, auto_close = True\<rparr>, \<lparr>fd = 6, auto_close = False\<rparr>] m = Some m' \<and>
    read_each FileDescriptor_Read 2
      (m'\<lparr>fd_set := Some (SetDescriptors (map fd (message_fds m')) FileDescriptorSet_new)\<rparr>)
      (at_off m' (align_up 4 (psize m))) =
        Some (Some [\<lparr>fd = 5, auto_close = True\<rparr>, \<lparr>fd = 6, auto_close = True\<rparr>], it, q) \<and>
    map_option FileDescriptorSet_destroy (fd_set q) = Some [])"
proof -
  let ?ds = "[\<lparr>fd = 5, auto_close = True\<rparr>, \<lparr>fd = 6, auto_close = False\<rparr>] :: FileDescriptor list"
  obtain m where m: "Message_new sample_heap 7 8 PRIORITY_NORMAL = Some m" "writable m" "msg_ok m"
    "psize m = 0" "fd_set m = None"
    by (rule sample_message)
  have "room sample_heap m (enc_fds 0 (length ?ds))"
    using m(2-4) by (intro sample_room) (simp_all add: enc_fds_def enc_fd_def enc_bool_def enc_int_def align_up_def upt_rec)
  from descriptors_transfer [OF _ _ this m(5)] show ?thesis using m(1)
    by (simp add: closing_def MAX_DESCRIPTORS_PER_MESSAGE_def numeral_2_eq_2)
qed

section \<open>Log data on the wire\<close>

definition enc_logdata :: "LogData \<Rightarrow> u8 list list" where
  "enc_logdata p = enc_string (channel p) @ enc_int (log_routing_id p) @ enc_int (log_type p) @
     enc_string (log_flags p) @ enc_int64 (sent p) @ enc_int64 (receive p) @ enc_int64 (dispatch p) @
     enc_string (params p)"

lemma LogData_appends: "appends (\<lambda>h. LogData_Write h p) (enc_logdata p)"
  unfolding LogData_Write_def enc_logdata_def
  by (intro appends_seq [OF string.appending] appends_seq [OF int.appending] appends_seq [OF int64.appending]
    string.appending) simp_all

lemma LogData_parses:
  "parses (LogData_Read r) (enc_logdata p) (p\<lparr>log_type := ucast (ucast (log_type p) :: u16), message_name := message_name r\<rparr>)"
  unfolding LogData_Read_def enc_logdata_def
  by (cases p; cases r) (intro parses_then [OF string.parsing] parses_then [OF int.parsing]
    parses_then [OF int64.parsing] parses_map [OF string.parsing]; simp)

section \<open>Nested messages on the wire\<close>

definition enc_nested :: "u8 list \<Rightarrow> u8 list list" where
  "enc_nested data = enc_int (word_of_nat (length data)) @ enc_string data"

lemma Message_Read_data:
  assumes "in_block m" "has_chunks m off (enc_nested data)" "iter_at m off it"
  shows "\<exists>it'. iter_at m (off + chunks_len (enc_nested data)) it' \<and>
    Message_Read h r m it = do {
      nested \<leftarrow> Message_const (it' - AlignInt (word_of_nat (length data)) 4) data;
      r' \<leftarrow> Message_assign h nested r;
      Some (Some r', it', m) }"
proof -
  have c: "has_chunks m off (enc_int (word_of_nat (length data)))"
    "has_chunks m (off + chunks_len (enc_int (word_of_nat (length data)))) (enc_string data)"
    using assms(2) by (simp_all add: enc_nested_def)
  obtain it1 where 1: "int_Read m it = Some (Some (word_of_nat (length data)), it1, m)"
    "iter_at m (off + chunks_len (enc_int (word_of_nat (length data)))) it1"
    using int.parsing c(1) assms(1,3) unfolding parses_def by blast
  obtain it2 where 2: "plain ReadData m it1 = Some (Some data, it2, m)"
    "iter_at m (off + chunks_len (enc_int (word_of_nat (length data))) + chunks_len (enc_string data)) it2"
    using ReadData_parses c(2) assms(1) 1(2) unfolding parses_def by blast
  have "ReadData m it1 = Some (Some data, it2)"
    using 2(1) by (auto simp: plain_def)
  then show ?thesis using 1(1) 2(2)
    by (intro exI [of _ it2]) (simp add: Message_Read_def read_then_def enc_nested_def add.assoc)
qed

text \<open>
  a nested message shorter than a size word is found invalid and then copied: the code reads
  through the null header.
\<close>

theorem nested_message_null_read:
  assumes "in_block m" "has_chunks m off (enc_nested data)" "iter_at m off it" "length data < 4"
  shows "Message_Read h r m it = None"
proof -
  have "sint (word_of_nat (length data) :: u32) = int (length data)"
    using assms(4) by (intro small_word) simp
  then have "Message_const a data = Some (as_message \<lparr>hdr = 0, hdr_mem = [], hdr_size = 0,
      capacity = kCapacityReadOnly, variable_buffer_offset = 0\<rparr> None)" for a
    using assms(4) by (simp add: Message_const_def Pickle_const_def Let_def AlignInt_def)
  moreover have "Message_assign h n r = None" if "hdr_mem n = []" for n
    using that by (simp add: Message_assign_def Pickle_assign_def copy_block_def pickle_size_def
      payload_size_def pload_def mload_def Let_def)
  ultimately show ?thesis using Message_Read_data [OF assms(1-3), of h r] by auto
qed

theorem nested_message_null_read_witness:
  "\<forall>r. Message_Read sample_heap r (as_message \<lparr>hdr = 4096, hdr_mem = [12, 0, 0, 0, 1, 0, 0, 0, 2, 0, 0, 0, 2, 0, 0, 0,
      0, 0, 0, 0, 2, 0, 0, 0, 2, 0, 0, 0, 5, 6, 0, 0], hdr_size = 20, capacity = - 1,
      variable_buffer_offset = 0\<rparr> None) 0 = None"
proof (rule allI, rule nested_message_null_read [where data = "[5, 6]" and off = 0])
  have e: "enc_nested [5, 6] = [[2, 0, 0, 0], [2, 0, 0, 0], [5, 6]]" by code_simp
  show "has_chunks (as_message \<lparr>hdr = 4096, hdr_mem = [12, 0, 0, 0, 1, 0, 0, 0, 2, 0, 0, 0, 2, 0, 0, 0,
      0, 0, 0, 0, 2, 0, 0, 0, 2, 0, 0, 0, 5, 6, 0, 0], hdr_size = 20, capacity = - 1,
      variable_buffer_offset = 0\<rparr> None) 0 (enc_nested [5, 6])"
    unfolding e by (simp add: psize_def align_up_def padded_payload_def)
qed (simp_all add: in_block_def psize_def)

end
