(* ===== verification/SyncMessage.thy ===== *)
theory SyncMessage imports ValueTraits FdTraits begin

text \<open>
  \<open>ipc/ipc_sync_message.h\<close> and \<open>.cc\<close> and the generic message classes of \<open>ipc/ipc_message_utils.h\<close>:
  asynchronous messages that carry a tuple, synchronous messages with their id in front of the
  parameters, the reply that is generated for them, and the dispatchers. The object that handles a
  message is a state, a method a function on it; what a dispatcher sends is part of its result.
\<close>

section \<open>Synchronous messages\<close>

definition kSyncMessageHeaderSize :: u32 where
  "kSyncMessageHeaderSize = 4"

definition ReadSyncHeader :: "message \<Rightarrow> u32 option option" where
  "ReadSyncHeader msg = do { (r, it) \<leftarrow> ReadInt msg 0; Some r }"

definition WriteSyncHeader :: "heap \<Rightarrow> u32 \<Rightarrow> message \<Rightarrow> (bool \<times> message) option" where
  "WriteSyncHeader h message_id msg = WriteInt h message_id msg"

text \<open>
  A \<open>SyncMessage\<close> is a message with the deserialiser of its reply and the event that starts message
  pumping. The sequence number of the process is a parameter and comes back incremented.
\<close>

record 'd sync_message =
  base :: message
  deserializer :: "'d option"
  pump_messages_event :: "nat option"

definition SyncMessage_new :: "heap \<Rightarrow> u32 \<Rightarrow> u32 \<Rightarrow> u32 \<Rightarrow> u32 \<Rightarrow> 'd \<Rightarrow> ('d sync_message \<times> u32) option" where
  "SyncMessage_new h g_next_id routing typ prio des = do {
     m \<leftarrow> Message_new h routing typ prio;
     m1 \<leftarrow> set_sync m;
     m2 \<leftarrow> set_unblock True m1;
     (_, m3) \<leftarrow> WriteSyncHeader h g_next_id m2;
     Some (\<lparr>base = m3, deserializer = Some des, pump_messages_event = None\<rparr>, g_next_id + 1) }"

definition set_pump_messages_event :: "nat option \<Rightarrow> 'd sync_message \<Rightarrow> 'd sync_message option" where
  "set_pump_messages_event event s = do {
     f \<leftarrow> flags (base s);
     m \<leftarrow> set_flags (if event \<noteq> None then f OR PUMPING_MSGS_BIT else f AND NOT PUMPING_MSGS_BIT) (base s);
     Some (s\<lparr>base := m, pump_messages_event := event\<rparr>) }"

definition EnableMessagePumping :: "nat \<Rightarrow> 'd sync_message \<Rightarrow> 'd sync_message option" where
  "EnableMessagePumping dummy_event s = set_pump_messages_event (Some dummy_event) s"

definition GetReplyDeserializer :: "'d sync_message \<Rightarrow> 'd option \<times> 'd sync_message" where
  "GetReplyDeserializer s = (deserializer s, s\<lparr>deserializer := None\<rparr>)"

definition GetDataIterator :: "message \<Rightarrow> u32" where
  "GetDataIterator msg = UpdateIter (payload msg) kSyncMessageHeaderSize"

definition GetMessageId :: "message \<Rightarrow> u32 option" where
  "GetMessageId msg = do {
     s \<leftarrow> is_sync msg;
     r \<leftarrow> is_reply msg;
     if \<not> s \<and> \<not> r then Some 0
     else do {
       i \<leftarrow> ReadSyncHeader msg;
       Some (case i of None \<Rightarrow> 0 | Some message_id \<Rightarrow> message_id) } }"

definition IsMessageReplyTo :: "message \<Rightarrow> u32 \<Rightarrow> bool option" where
  "IsMessageReplyTo msg request_id = do {
     r \<leftarrow> is_reply msg;
     if \<not> r then Some False
     else do { i \<leftarrow> GetMessageId msg; Some (i = request_id) } }"

definition GenerateReply :: "heap \<Rightarrow> message \<Rightarrow> message option" where
  "GenerateReply h msg = do {
     routing \<leftarrow> routing_id msg;
     prio \<leftarrow> priority msg;
     reply \<leftarrow> Message_new h routing IPC_REPLY_ID prio;
     reply1 \<leftarrow> set_reply reply;
     message_id \<leftarrow> GetMessageId msg;
     (_, reply2) \<leftarrow> WriteSyncHeader h message_id reply1;
     Some reply2 }"

section \<open>Generic messages\<close>

definition MessageWithTuple_new :: "heap \<Rightarrow> 'p writing \<Rightarrow> u32 \<Rightarrow> u32 \<Rightarrow> 'p \<Rightarrow> message option" where
  "MessageWithTuple_new h W routing typ p = do {
     m \<leftarrow> Message_new h routing typ PRIORITY_NORMAL;
     W h p m }"

definition MessageWithTuple_Read :: "'p reader \<Rightarrow> message \<Rightarrow> ('p option \<times> message) option" where
  "MessageWithTuple_Read R msg = do { (r, it, msg') \<leftarrow> R msg 0; Some (r, msg') }"

definition MessageWithTuple_Dispatch :: "'p reader \<Rightarrow> message \<Rightarrow> ('p \<Rightarrow> 'o \<Rightarrow> 'o) \<Rightarrow> 'o \<Rightarrow> (bool \<times> 'o) option" where
  "MessageWithTuple_Dispatch R msg func obj = do {
     (r, msg') \<leftarrow> MessageWithTuple_Read R msg;
     Some (case r of Some p \<Rightarrow> (True, func p obj) | None \<Rightarrow> (False, obj)) }"

text \<open>
  \<open>MessageWithReply\<close>: the send parameters follow the id; the deserialiser reads the reply's
  parameters behind its id.
\<close>

definition MessageWithReply_new :: "heap \<Rightarrow> u32 \<Rightarrow> 'p writing \<Rightarrow> u32 \<Rightarrow> u32 \<Rightarrow> 'p \<Rightarrow> 'd \<Rightarrow> ('d sync_message \<times> u32) option" where
  "MessageWithReply_new h g_next_id W routing typ send des = do {
     (s, next_id) \<leftarrow> SyncMessage_new h g_next_id routing typ PRIORITY_NORMAL des;
     m \<leftarrow> W h send (base s);
     Some (s\<lparr>base := m\<rparr>, next_id) }"

definition ReadSendParam :: "'p reader \<Rightarrow> message \<Rightarrow> ('p option \<times> message) option" where
  "ReadSendParam R msg = do { (r, it, msg') \<leftarrow> R msg (GetDataIterator msg); Some (r, msg') }"

definition ReadReplyParam :: "'p reader \<Rightarrow> message \<Rightarrow> ('p option \<times> message) option" where
  "ReadReplyParam R msg = do { (r, it, msg') \<leftarrow> R msg (GetDataIterator msg); Some (r, msg') }"

definition SerializeOutputParameters :: "'p reader \<Rightarrow> message \<Rightarrow> ('p option \<times> message) option" where
  "SerializeOutputParameters R msg = do { (r, it, msg') \<leftarrow> R msg (GetDataIterator msg); Some (r, msg') }"

text \<open>The dispatchers return whether the message was well-formed, the reply sent, and the object.\<close>

definition MessageWithReply_Dispatch :: "heap \<Rightarrow> 'p reader \<Rightarrow> 'r writing \<Rightarrow> message \<Rightarrow>
    ('p \<Rightarrow> 'o \<Rightarrow> 'r \<times> 'o) \<Rightarrow> 'o \<Rightarrow> (bool \<times> message \<times> 'o) option" where
  "MessageWithReply_Dispatch h R W msg func obj = do {
     reply \<leftarrow> GenerateReply h msg;
     (r, msg') \<leftarrow> ReadSendParam R msg;
     case r of
       Some send_params \<Rightarrow> (case func send_params obj of (reply_params, obj') \<Rightarrow> do {
         reply' \<leftarrow> W h reply_params reply;
         Some (True, reply', obj') })
     | None \<Rightarrow> do {
         reply' \<leftarrow> set_reply_error reply;
         Some (False, reply', obj) } }"

text \<open>With a delayed reply the method keeps the reply; the dispatcher sends only the error.\<close>

definition DispatchDelayReply :: "heap \<Rightarrow> 'p reader \<Rightarrow> message \<Rightarrow>
    ('p \<Rightarrow> message \<Rightarrow> 'o \<Rightarrow> 'o) \<Rightarrow> 'o \<Rightarrow> (bool \<times> message option \<times> 'o) option" where
  "DispatchDelayReply h R msg func obj = do {
     reply \<leftarrow> GenerateReply h msg;
     (r, msg') \<leftarrow> ReadSendParam R msg;
     case r of
       Some send_params \<Rightarrow> Some (True, None, func send_params reply obj)
     | None \<Rightarrow> do {
         reply' \<leftarrow> set_reply_error reply;
         Some (False, Some reply', obj) } }"

definition WriteReplyParams :: "heap \<Rightarrow> 'r writing \<Rightarrow> 'r \<Rightarrow> message \<Rightarrow> message option" where
  "WriteReplyParams h W p reply = W h p reply"

section \<open>Messages over the wire\<close>

lemma has_chunks_payload:
  assumes "psize q = psize p" "payload_bytes q = payload_bytes p"
  shows "has_chunks q off cs = has_chunks p off cs"
proof -
  have t: "take n (drop off (padded_payload r)) = take n (drop off (payload_bytes r))"
    if "off + n \<le> psize r" for n off and r :: "'c pickle_scheme"
    using that align_up_ge [of "psize r" 4]
    by (simp add: padded_payload_def payload_bytes_def take_drop_prefix)
  have t': "take n (drop off (padded_payload r)) = take n (drop off (payload_bytes r))"
    if "off + n \<le> psize r" for n off and r :: "'d pickle_scheme"
    using that align_up_ge [of "psize r" 4]
    by (simp add: padded_payload_def payload_bytes_def take_drop_prefix)
  show ?thesis
  proof (induction cs arbitrary: off)
    case Nil
    then show ?case by simp
  next
    case (Cons c cs)
    show ?case
    proof (cases "off + length c \<le> psize p")
      case True
      then show ?thesis using Cons assms t [of off "length c" q] t' [of off "length c" p] by auto
    next
      case False
      then show ?thesis using assms(1) by simp
    qed
  qed
qed

text \<open>A message that was sent: the receiver's view of it.\<close>

lemma message_received:
  assumes m: "msg_ok m" and b: "wire m = Some bytes"
    and addr: "addr \<noteq> 0" "unat addr + length bytes + 4 < 4294967296" "length bytes < 2147483648"
  obtains q where "Message_const addr bytes = Some q" "msg_ok q" "header_of q = header_of m"
    "\<forall>off cs. has_chunks q off cs = has_chunks m off cs" "fd_set q = None" "psize q = psize m"
proof -
  have i: "in_block m" "4 dvd unat (hdr_size m)" using msg_okD [OF m] by simp_all
  obtain p where p: "Pickle_const addr bytes = Some p" "in_block p" "hdr_size p = hdr_size m"
    "psize p = psize m" "extra_header p = extra_header m" "payload_bytes p = payload_bytes m"
    by (rule wire_received [OF i b addr])
  let ?q = "as_message p None"
  have ok: "msg_ok ?q" using p(2,3) msg_okD [OF m] by (simp add: msg_ok_def)
  show thesis
  proof (rule that [OF _ ok])
    show "Message_const addr bytes = Some ?q" using p(1) by (simp add: Message_const_def)
    show "header_of ?q = header_of m"
      using p(5) by (simp add: header_of_def header_fields [OF ok] header_fields [OF m])
    show "\<forall>off cs. has_chunks ?q off cs = has_chunks m off cs"
      using p(4,6) by (intro allI has_chunks_payload) simp_all
  qed (simp_all add: p(4))
qed

lemma wire_msg:
  assumes "msg_ok m"
  obtains bytes where "wire m = Some bytes" "length bytes = 20 + psize m"
proof
  show "wire m = Some (take (20 + psize m) (hdr_mem m))"
    using wire_in_block [OF msg_okD(1) [OF assms]] msg_okD [OF assms] by simp
  show "length (take (20 + psize m) (hdr_mem m)) = 20 + psize m"
    using msg_okD(3) [OF assms] by simp
qed

text \<open>What a heap of size \<open>L\<close> is good for.\<close>

definition fits :: "nat \<Rightarrow> u8 list list \<Rightarrow> bool" where
  "fits L cs \<longleftrightarrow> 128 \<le> L \<and> L < 4294967296 \<and> 2 * (20 + chunks_len cs) + 64 \<le> L"

lemma message_bounds:
  assumes "n = 20 + k" "k \<le> chunks_len cs" "fits L cs" "a + L + 4 < 4294967296"
  shows "a + n + 4 < 4294967296" "n < 2147483648"
  using assms by (simp_all add: fits_def)

lemma fits_append: "fits L (as @ bs) \<Longrightarrow> fits L as"
  by (simp add: fits_def)

lemma room_new:
  assumes "heap_ok h L" "fits L cs" "writable m" "msg_ok m" "psize m = 0"
  shows "room h m cs"
  using assms msg_okD [OF assms(4)]
  by (auto simp: room_def fits_def align_up_def)

lemma same_payload_room: "same_payload m m' \<Longrightarrow> room h m' cs = room h m cs"
  using same_payload_ok [of m m'] same_payload_more [of m m'] by (simp add: room_def)

lemma appended_same_payload:
  assumes "same_payload m m1" "appended m1 cs m'"
  shows "hdr_size m' = hdr_size m" "psize m' = chunks_end (psize m) cs"
  using assms same_payload_more [OF assms(1)] by (simp_all add: appended_def)

lemma has_chunks_new:
  assumes "room h m cs" "appended m cs m'" "psize m = 0"
  shows "has_chunks m' 0 cs"
  using appended_has_chunks [OF assms(1,2)] by (simp add: assms(3) align_up_def)

lemma psize_bound: "appended m cs m' \<Longrightarrow> psize m = 0 \<Longrightarrow> psize m' \<le> chunks_len cs"
  using chunks_end_len [of 0 cs] align_up_ge [of "chunks_end 0 cs" 4]
  by (simp add: appended_def align_up_def)

text \<open>A tuple that a message was built from is what its receiver dispatches.\<close>

context param_traits
begin

lemma tuple_message:
  assumes h: "heap_ok h L" "fits L (enc p)" and p: "fit p"
    and addr: "addr \<noteq> 0" "unat addr + L + 4 < 4294967296"
  shows "\<exists>m bytes q. MessageWithTuple_new h W routing typ p = Some m \<and> wire m = Some bytes \<and>
    Message_const addr bytes = Some q \<and> header_of q = Some (routing, typ, PRIORITY_NORMAL, 0) \<and>
    MessageWithTuple_Dispatch R q func obj = Some (True, func p obj)"
proof -
  have L: "128 \<le> L" "L < 4294967296" "2 * (20 + chunks_len (enc p)) + 64 \<le> L"
    using h(2) by (simp_all add: fits_def)
  obtain m0 where m0: "Message_new h routing typ PRIORITY_NORMAL = Some m0" "writable m0" "msg_ok m0"
    "psize m0 = 0" "header_of m0 = Some (routing, typ, PRIORITY_NORMAL, 0)"
    by (rule Message_new_ok [OF h(1) L(1,2)])
  have r: "room h m0 (enc p)" by (rule room_new [OF h m0(2,3,4)])
  obtain m where m: "W h p m0 = Some m" "appended m0 (enc p) m" using writes [OF p r] by blast
  note ok = message_appended [OF m0(3) m(2)]
  have ps: "psize m \<le> chunks_len (enc p)" by (rule psize_bound [OF m(2) m0(4)])
  obtain bytes where b: "wire m = Some bytes" "length bytes = 20 + psize m" by (rule wire_msg [OF ok(1)])
  note a = message_bounds [OF b(2) ps h(2) addr(2)]
  obtain q where q: "Message_const addr bytes = Some q" "msg_ok q" "header_of q = header_of m"
    "\<forall>off cs. has_chunks q off cs = has_chunks m off cs"
    by (rule message_received [OF ok(1) b(1) addr(1) a])
  have "has_chunks m 0 (enc p)" by (rule has_chunks_new [OF r m(2) m0(4)])
  then have "has_chunks q 0 (enc p)" using q(4) by simp
  then obtain it where "R q 0 = Some (Some p, it, q)"
    using parsing [OF p] msg_okD(1) [OF q(2)] unfolding parses_def by blast
  then have "MessageWithTuple_Dispatch R q func obj = Some (True, func p obj)"
    by (simp add: MessageWithTuple_Dispatch_def MessageWithTuple_Read_def)
  then show ?thesis using m0(1,5) m(1) b(1) q(1,3) ok(2)
    by (auto simp: MessageWithTuple_new_def)
qed

end


section \<open>Remote procedure calls\<close>

text \<open>A synchronous message or reply: its id, then the chunks of its parameters.\<close>

definition carries :: "message \<Rightarrow> u32 \<Rightarrow> u8 list list \<Rightarrow> bool" where
  "carries m message_id cs \<longleftrightarrow> msg_ok m \<and> has_chunks m 0 (enc_int message_id @ cs)"

lemma carries_data:
  assumes "carries m i cs"
  shows "ReadSyncHeader m = Some (Some i)" "iter_at m 4 (GetDataIterator m)" "has_chunks m 4 cs" "in_block m"
proof -
  show ib: "in_block m" using assms msg_okD by (auto simp: carries_def)
  have c: "has_chunks m 0 [w32_bytes i]" "has_chunks m 4 cs"
    using assms by (simp_all add: carries_def enc_int_def align_up_id)
  show "ReadSyncHeader m = Some (Some i)"
    using ReadInt_has [OF ib c(1), of 0] by (simp add: ReadSyncHeader_def)
  show "has_chunks m 4 cs" by (rule c(2))
  have "AlignInt 4 4 = (4 :: u32)" by (simp add: AlignInt_def)
  then have "GetDataIterator m = at_off m 4"
    by (simp add: GetDataIterator_def UpdateIter_def kSyncMessageHeaderSize_def at_off_def)
  then show "iter_at m 4 (GetDataIterator m)" by simp
qed

lemma GetMessageId_carries:
  assumes "carries m i cs" "flags m = Some f" "f AND (SYNC_BIT OR REPLY_BIT) \<noteq> 0"
  shows "GetMessageId m = Some i"
proof -
  have "f AND SYNC_BIT \<noteq> 0 \<or> f AND REPLY_BIT \<noteq> 0"
    using assms(3) by (auto simp: bit.conj_disj_distrib)
  then show ?thesis using assms(2) carries_data(1) [OF assms(1)]
    by (auto simp: GetMessageId_def is_sync_def is_reply_def)
qed

text \<open>The id is written to a message that is otherwise new.\<close>

lemma sync_header_written:
  assumes h: "heap_ok h L" "fits L (enc_int i @ cs)"
    and m0: "writable m0" "msg_ok m0" "psize m0 = 0" and m1: "same_payload m0 m1"
  obtains m2 where "WriteSyncHeader h i m1 = Some (True, m2)" "appended m1 (enc_int i) m2" "msg_ok m2"
    "header_of m2 = header_of m1" "room h m1 (enc_int i @ cs)" "psize m1 = 0" "msg_ok m1"
proof -
  have "room h m0 (enc_int i @ cs)" using h m0 by (rule room_new)
  then have r: "room h m1 (enc_int i @ cs)" by (simp add: same_payload_room [OF m1])
  then have "room h m1 (enc_int i)" by (rule room_append)
  then obtain m2 where m2: "WriteSyncHeader h i m1 = Some (True, m2)" "appended m1 (enc_int i) m2"
    unfolding enc_int_def WriteSyncHeader_def WriteInt_def using WriteBytes_room by blast
  have ok: "msg_ok m1" using same_payload_ok [OF m1] m0(2) by simp
  have "psize m1 = 0" using same_payload_more [OF m1] m0(3) by simp
  then show thesis using that [OF m2 message_appended [OF ok m2(2)] r _ ok] by simp
qed

lemma carries_appended:
  assumes "room h m1 (enc_int i @ cs)" "appended m1 (enc_int i) m2" "appended m2 cs m3"
    "psize m1 = 0" "msg_ok m1"
  shows "carries m3 i cs" "header_of m3 = header_of m1" "psize m3 \<le> chunks_len (enc_int i @ cs)"
proof -
  have a: "appended m1 (enc_int i @ cs) m3" using assms(2,3) by (rule appended_trans)
  show "carries m3 i cs"
    using has_chunks_new [OF assms(1) a assms(4)] message_appended(1) [OF assms(5) a]
    by (simp add: carries_def)
  show "header_of m3 = header_of m1" by (rule message_appended(2) [OF assms(5) a])
  show "psize m3 \<le> chunks_len (enc_int i @ cs)" by (rule psize_bound [OF a assms(4)])
qed

lemma carries_received:
  assumes "carries m i cs" "psize m \<le> chunks_len (enc_int i @ cs)" "fits L (enc_int i @ cs)"
    "addr \<noteq> 0" "unat addr + L + 4 < 4294967296"
  obtains bytes q where "wire m = Some bytes" "Message_const addr bytes = Some q" "carries q i cs"
    "header_of q = header_of m"
proof -
  have ok: "msg_ok m" using assms(1) by (simp add: carries_def)
  obtain bytes where b: "wire m = Some bytes" "length bytes = 20 + psize m" by (rule wire_msg [OF ok])
  note a = message_bounds [OF b(2) assms(2,3,5)]
  obtain q where q: "Message_const addr bytes = Some q" "msg_ok q" "header_of q = header_of m"
    "\<forall>off cs. has_chunks q off cs = has_chunks m off cs"
    by (rule message_received [OF ok b(1) assms(4) a])
  have "carries q i cs" using assms(1) q(2,4) by (simp add: carries_def)
  then show thesis by (rule that [OF b(1) q(1) _ q(3)])
qed

text \<open>The request as its sender builds it.\<close>

lemma SyncMessage_new_ok:
  assumes h: "heap_ok h L" "fits L (enc_int i @ cs)"
  obtains m1 s where "SyncMessage_new h i routing typ prio des = Some (s, i + 1)"
    "deserializer s = Some des" "room h m1 (enc_int i @ cs)" "appended m1 (enc_int i) (base s)"
    "psize m1 = 0" "msg_ok m1"
    "header_of m1 = Some (routing, typ, (prio OR SYNC_BIT) OR UNBLOCK_BIT, 0)"
proof -
  have L: "128 \<le> L" "L < 4294967296" using h(2) by (simp_all add: fits_def)
  obtain m where m: "Message_new h routing typ prio = Some m" "writable m" "msg_ok m" "psize m = 0"
    "header_of m = Some (routing, typ, prio, 0)"
    by (rule Message_new_ok [OF h(1) L])
  obtain ma where ma: "set_flags (prio OR SYNC_BIT) m = Some ma" "same_payload m ma"
    "header_of ma = Some (routing, typ, prio OR SYNC_BIT, 0)"
    using set_flags_ok [OF m(3,5)] by blast
  have oka: "msg_ok ma" using same_payload_ok [OF ma(2)] m(3) by simp
  obtain mb where mb: "set_flags ((prio OR SYNC_BIT) OR UNBLOCK_BIT) ma = Some mb" "same_payload ma mb"
    "header_of mb = Some (routing, typ, (prio OR SYNC_BIT) OR UNBLOCK_BIT, 0)"
    using set_flags_ok [OF oka ma(3)] by blast
  have "same_payload m mb" using ma(2) mb(2) by (rule same_payload_trans)
  from sync_header_written [OF h m(2,3,4) this]
  obtain m2 where m2: "WriteSyncHeader h i mb = Some (True, m2)" "appended mb (enc_int i) m2" "msg_ok m2"
    "room h mb (enc_int i @ cs)" "psize mb = 0" "msg_ok mb" by blast
  have f: "flags m = Some prio" "flags ma = Some (prio OR SYNC_BIT)"
    using m(5) ma(3) by (simp_all add: header_of_fields)
  have new: "SyncMessage_new h i routing typ prio des =
      Some (\<lparr>base = m2, deserializer = Some des, pump_messages_event = None\<rparr>, i + 1)"
    using m(1) ma(1) mb(1) m2(1) f by (simp add: SyncMessage_new_def set_sync_def set_unblock_def)
  show thesis by (rule that [OF new]) (use m2(2,4,5,6) mb(3) in simp_all)
qed

text \<open>The reply to a request has its id, routing and priority, and is recognised by the sender.\<close>

lemma GenerateReply_ok:
  assumes h: "heap_ok h L" "fits L (enc_int i @ cs)" and q: "carries q i ds"
    and hd: "header_of q = Some (routing, typ, f, n)" "f AND SYNC_BIT \<noteq> 0"
  obtains m1 reply where "GenerateReply h q = Some reply" "room h m1 (enc_int i @ cs)"
    "appended m1 (enc_int i) reply" "psize m1 = 0" "msg_ok m1"
    "header_of m1 = Some (routing, IPC_REPLY_ID, (f AND PRIORITY_MASK) OR REPLY_BIT, 0)"
proof -
  have L: "128 \<le> L" "L < 4294967296" using h(2) by (simp_all add: fits_def)
  let ?p = "f AND PRIORITY_MASK"
  obtain m where m: "Message_new h routing IPC_REPLY_ID ?p = Some m" "writable m" "msg_ok m" "psize m = 0"
    "header_of m = Some (routing, IPC_REPLY_ID, ?p, 0)"
    by (rule Message_new_ok [OF h(1) L])
  obtain ma where ma: "set_flags (?p OR REPLY_BIT) m = Some ma" "same_payload m ma"
    "header_of ma = Some (routing, IPC_REPLY_ID, ?p OR REPLY_BIT, 0)"
    using set_flags_ok [OF m(3,5)] by blast
  from sync_header_written [OF h m(2,3,4) ma(2)]
  obtain m2 where m2: "WriteSyncHeader h i ma = Some (True, m2)" "appended ma (enc_int i) m2" "msg_ok m2"
    "room h ma (enc_int i @ cs)" "psize ma = 0" "msg_ok ma" by blast
  have fm: "flags m = Some ?p" and fq: "flags q = Some f" and rq: "routing_id q = Some routing"
    using m(5) hd(1) by (simp_all add: header_of_fields)
  have "f AND (SYNC_BIT OR REPLY_BIT) \<noteq> 0"
    using hd(2) by (metis bit.conj_disj_distrib word_bw_comms(2) bit.disj_zero_right or_eq_0_iff)
  then have "GetMessageId q = Some i" by (rule GetMessageId_carries [OF q fq])
  then have "GenerateReply h q = Some m2"
    using rq fq m(1) fm ma(1) m2(1) by (simp add: GenerateReply_def priority_def set_reply_def)
  then show thesis using m2 ma(3) by (intro that)
qed


locale rpc = S: param_traits RS WS encS fitS + P: param_traits RP WP encP fitP
  for RS :: "'p reader" and WS :: "'p writing" and encS and fitS
  and RP :: "'r reader" and WP :: "'r writing" and encP and fitP
begin

lemma request_built:
  assumes h: "heap_ok h L" "fits L (enc_int i @ encS p)" "fitS p"
  shows "\<exists>s. MessageWithReply_new h i WS routing typ p des = Some (s, i + 1) \<and> deserializer s = Some des \<and>
    carries (base s) i (encS p) \<and> psize (base s) \<le> chunks_len (enc_int i @ encS p) \<and>
    header_of (base s) = Some (routing, typ, (PRIORITY_NORMAL OR SYNC_BIT) OR UNBLOCK_BIT, 0)"
proof -
  obtain m1 s where s: "SyncMessage_new h i routing typ PRIORITY_NORMAL des = Some (s, i + 1)"
    "deserializer s = Some des" "room h m1 (enc_int i @ encS p)" "appended m1 (enc_int i) (base s)"
    "psize m1 = 0" "msg_ok m1"
    "header_of m1 = Some (routing, typ, (PRIORITY_NORMAL OR SYNC_BIT) OR UNBLOCK_BIT, 0)"
    by (rule SyncMessage_new_ok [OF h(1,2)])
  have "room h (base s) (encS p)" using s(3,4) by (rule room_after)
  then obtain m where m: "WS h p (base s) = Some m" "appended (base s) (encS p) m"
    using S.writes h(3) by blast
  note c = carries_appended [OF s(3,4) m(2) s(5,6)]
  show ?thesis using s(1,2,7) m(1) c
    by (intro exI [of _ "s\<lparr>base := m\<rparr>"]) (simp add: MessageWithReply_new_def)
qed

lemma request_dispatched:
  assumes h: "heap_ok h L" "fits L (enc_int i @ encP (fst (func p obj)))" "fitS p" "fitP (fst (func p obj))"
    and q: "carries q i (encS p)" "header_of q = Some (routing, typ, f, n)" "f AND SYNC_BIT \<noteq> 0"
  shows "\<exists>reply. MessageWithReply_Dispatch h RS WP q func obj = Some (True, reply, snd (func p obj)) \<and>
    carries reply i (encP (fst (func p obj))) \<and>
    psize reply \<le> chunks_len (enc_int i @ encP (fst (func p obj))) \<and>
    header_of reply = Some (routing, IPC_REPLY_ID, (f AND PRIORITY_MASK) OR REPLY_BIT, 0)"
proof -
  let ?r = "fst (func p obj)"
  obtain m1 reply where g: "GenerateReply h q = Some reply" "room h m1 (enc_int i @ encP ?r)"
    "appended m1 (enc_int i) reply" "psize m1 = 0" "msg_ok m1"
    "header_of m1 = Some (routing, IPC_REPLY_ID, (f AND PRIORITY_MASK) OR REPLY_BIT, 0)"
    by (rule GenerateReply_ok [OF h(1,2) q])
  note d = carries_data [OF q(1)]
  obtain it where "RS q (GetDataIterator q) = Some (Some p, it, q)"
    using S.parsing [OF h(3)] d unfolding parses_def by blast
  then have rs: "ReadSendParam RS q = Some (Some p, q)" by (simp add: ReadSendParam_def)
  have "room h reply (encP ?r)" using g(2,3) by (rule room_after)
  then obtain reply' where r': "WP h ?r reply = Some reply'" "appended reply (encP ?r) reply'"
    using P.writes h(4) by blast
  note c = carries_appended [OF g(2,3) r'(2) g(4,5)]
  show ?thesis using g(1,6) rs r'(1) c
    by (intro exI [of _ reply']) (simp add: MessageWithReply_Dispatch_def split_def)
qed

lemma reply_read:
  assumes "fitP r" "carries q i (encP r)" "header_of q = Some (routing, typ, f, n)" "f AND REPLY_BIT \<noteq> 0"
  shows "IsMessageReplyTo q i = Some True \<and> SerializeOutputParameters RP q = Some (Some r, q)"
proof -
  have fl: "flags q = Some f" using assms(3) by (simp add: header_of_fields)
  have "f AND (SYNC_BIT OR REPLY_BIT) \<noteq> 0"
    using assms(4) by (metis bit.conj_disj_distrib or_eq_0_iff)
  then have "GetMessageId q = Some i" by (rule GetMessageId_carries [OF assms(2) fl])
  then have rep: "IsMessageReplyTo q i = Some True"
    using fl assms(4) by (simp add: IsMessageReplyTo_def is_reply_def)
  obtain it where "RP q (GetDataIterator q) = Some (Some r, it, q)"
    using P.parsing [OF assms(1)] carries_data [OF assms(2)] unfolding parses_def by blast
  then show ?thesis using rep by (simp add: SerializeOutputParameters_def)
qed

text \<open>The whole call: request, transport, dispatch, reply, transport, deserialisation.\<close>

lemma call:
  assumes h: "heap_ok hc L" "heap_ok hs L" "fits L (enc_int i @ encS p)" "fits L (enc_int i @ encP (fst (func p obj)))"
    and fit: "fitS p" "fitP (fst (func p obj))"
    and addr: "a1 \<noteq> 0" "unat a1 + L + 4 < 4294967296" "a2 \<noteq> 0" "unat a2 + L + 4 < 4294967296"
  shows "\<exists>s bytes q reply bytes' q'. MessageWithReply_new hc i WS routing typ p des = Some (s, i + 1) \<and>
    wire (base s) = Some bytes \<and> Message_const a1 bytes = Some q \<and>
    MessageWithReply_Dispatch hs RS WP q func obj = Some (True, reply, snd (func p obj)) \<and>
    wire reply = Some bytes' \<and> Message_const a2 bytes' = Some q' \<and> routing_id q' = Some routing \<and>
    IsMessageReplyTo q' i = Some True \<and> is_reply_error q' = Some False \<and>
    SerializeOutputParameters RP q' = Some (Some (fst (func p obj)), q')"
proof -
  let ?f = "(PRIORITY_NORMAL OR SYNC_BIT) OR UNBLOCK_BIT"
  let ?g = "(?f AND PRIORITY_MASK) OR REPLY_BIT"
  obtain s where s: "MessageWithReply_new hc i WS routing typ p des = Some (s, i + 1)"
    "carries (base s) i (encS p)" "psize (base s) \<le> chunks_len (enc_int i @ encS p)"
    "header_of (base s) = Some (routing, typ, ?f, 0)"
    using request_built [OF h(1,3) fit(1), of routing "typ" des] by auto
  obtain bytes q where q: "wire (base s) = Some bytes" "Message_const a1 bytes = Some q"
    "carries q i (encS p)" "header_of q = header_of (base s)"
    by (rule carries_received [OF s(2,3) h(3) addr(1,2)])
  have hq: "header_of q = Some (routing, typ, ?f, 0)" using q(4) s(4) by simp
  have f: "?f AND SYNC_BIT \<noteq> 0" by (simp add: PRIORITY_NORMAL_def flag_bits)
  obtain reply where r: "MessageWithReply_Dispatch hs RS WP q func obj = Some (True, reply, snd (func p obj))"
    "carries reply i (encP (fst (func p obj)))"
    "psize reply \<le> chunks_len (enc_int i @ encP (fst (func p obj)))"
    "header_of reply = Some (routing, IPC_REPLY_ID, ?g, 0)"
    using request_dispatched [where func = func and p = p and obj = obj, OF h(2,4) fit q(3) hq f] by auto
  obtain bytes' q' where q': "wire reply = Some bytes'" "Message_const a2 bytes' = Some q'"
    "carries q' i (encP (fst (func p obj)))" "header_of q' = header_of reply"
    by (rule carries_received [OF r(2,3) h(4) addr(3,4)])
  have hq': "header_of q' = Some (routing, IPC_REPLY_ID, ?g, 0)" using q'(4) r(4) by simp
  have g: "?g AND REPLY_BIT \<noteq> 0" "?g AND REPLY_ERROR_BIT = 0"
    by (simp_all add: PRIORITY_NORMAL_def flag_bits)
  have "is_reply_error q' = Some False" "routing_id q' = Some routing"
    using hq' g(2) by (simp_all add: is_reply_error_def header_of_fields)
  then show ?thesis using s(1) q(1,2) r(1) q'(1,2) reply_read [OF fit(2) q'(3) hq' g(1)] by blast
qed

end

interpretation settings_call: rpc "Tuple3_Read string_Read int_Read (vector_Read string_Read 4)"
    "Tuple3_Write string_Write int_Write (vector_Write string_Write)"
    "enc_pair enc_string (enc_pair enc_int (enc_list enc_string))"
    "fit_pair (\<lambda>_. True) (fit_pair (\<lambda>_. True) strings.fit_vector)"
    DictionaryValue_Read DictionaryValue_Write enc_dictionary fit_dictionary
  by unfold_locales

section \<open>What crosses the wire\<close>

text \<open>
  C6: whatever parameters with lawful traits a message is built from, its bytes laid out at another
  address are a message with the same routing and type, whose dispatch calls the handler with
  exactly those parameters.
\<close>

theorem tuple_message_dispatched:
  assumes "param_traits R W enc fit" "heap_ok h L" "fits L (enc p)" "fit p"
    "addr \<noteq> 0" "unat addr + L + 4 < 4294967296"
  shows "\<exists>m bytes q. MessageWithTuple_new h W routing type_id p = Some m \<and> wire m = Some bytes \<and>
    Message_const addr bytes = Some q \<and> header_of q = Some (routing, type_id, PRIORITY_NORMAL, 0) \<and>
    MessageWithTuple_Dispatch R q func obj = Some (True, func p obj)"
  using assms by (rule param_traits.tuple_message)

theorem tuple_message_dispatched_witness:
  "\<exists>m bytes q. MessageWithTuple_new sample_heap (Tuple3_Write string_Write int_Write (vector_Write string_Write))
      5 9 ([104, 105], 7, [[1], [2, 3]]) = Some m \<and> wire m = Some bytes \<and>
    Message_const 65536 bytes = Some q \<and> header_of q = Some (5, 9, PRIORITY_NORMAL, 0) \<and>
    MessageWithTuple_Dispatch (Tuple3_Read string_Read int_Read (vector_Read string_Read 4)) q (\<lambda>p log. log @ [p]) [] =
      Some (True, [] @ [([104, 105], 7, [[1], [2, 3]])])"
proof (rule tuple_message_dispatched [OF settings.tuple3.param_traits_axioms sample_heap_ok [of 4096]])
  show "fits 4096 (enc_pair enc_string (enc_pair enc_int (enc_list enc_string)) ([104, 105], 7, [[1], [2, 3]]))"
    by (simp add: fits_def enc_pair_def enc_string_def enc_int_def enc_list_def align_up_def)
qed (simp_all add: fit_pair_def strings.fit_vector_def)

text \<open>
  C3: a synchronous call. The request reaches the handler with the sender's parameters, the reply
  carries the handler's result, and the caller recognises it by its id, finds no error flag and
  reads exactly that result.
\<close>

theorem sync_call_returns:
  assumes "rpc RS WS encS fitS RP WP encP fitP"
    and "heap_ok hc L" "heap_ok hs L" "fits L (enc_int i @ encS p)" "fits L (enc_int i @ encP (fst (func p obj)))"
    and "fitS p" "fitP (fst (func p obj))"
    and "req_at \<noteq> 0" "unat req_at + L + 4 < 4294967296" "rep_at \<noteq> 0" "unat rep_at + L + 4 < 4294967296"
  shows "\<exists>s bytes q reply bytes' q'. MessageWithReply_new hc i WS routing type_id p des = Some (s, i + 1) \<and>
    wire (base s) = Some bytes \<and> Message_const req_at bytes = Some q \<and>
    MessageWithReply_Dispatch hs RS WP q func obj = Some (True, reply, snd (func p obj)) \<and>
    wire reply = Some bytes' \<and> Message_const rep_at bytes' = Some q' \<and> routing_id q' = Some routing \<and>
    IsMessageReplyTo q' i = Some True \<and> is_reply_error q' = Some False \<and>
    SerializeOutputParameters RP q' = Some (Some (fst (func p obj)), q')"
  using assms by (rule rpc.call)

theorem sync_call_returns_witness:
  "\<exists>s bytes q reply bytes' q'. MessageWithReply_new sample_heap 3
      (Tuple3_Write string_Write int_Write (vector_Write string_Write)) 5 9 ([104, 105], 7, [[1]]) 77 = Some (s, 3 + 1) \<and>
    wire (base s) = Some bytes \<and> Message_const 65536 bytes = Some q \<and>
    MessageWithReply_Dispatch sample_heap (Tuple3_Read string_Read int_Read (vector_Read string_Read 4))
      DictionaryValue_Write q (\<lambda>(s, n, v) obj. ([(s, IntegerValue n)], obj + 1)) (0 :: nat) = Some (True, reply, 1) \<and>
    wire reply = Some bytes' \<and> Message_const 131072 bytes' = Some q' \<and> routing_id q' = Some 5 \<and>
    IsMessageReplyTo q' 3 = Some True \<and> is_reply_error q' = Some False \<and>
    SerializeOutputParameters DictionaryValue_Read q' = Some (Some [([104, 105], IntegerValue 7)], q')"
proof -
  let ?p = "([104, 105], 7, [[1]]) :: u8 list \<times> u32 \<times> u8 list list"
  let ?func = "\<lambda>(s :: u8 list, n :: u32, v :: u8 list list) obj :: nat. ([(s, IntegerValue n)], obj + 1)"
  let ?enc = "enc_pair enc_string (enc_pair enc_int (enc_list enc_string))"
  have h: "heap_ok sample_heap 4096" by (rule sample_heap_ok) simp
  have s: "fits 4096 (enc_int 3 @ ?enc ?p)"
    by (simp add: fits_def enc_pair_def enc_string_def enc_int_def enc_list_def align_up_def)
  have r: "fits 4096 (enc_int 3 @ enc_dictionary (fst (?func ?p 0)))"
    by (simp add: fits_def enc_dictionary_def enc_string_def enc_int_def align_up_def)
  have d: "fit_dictionary (fst (?func ?p 0))"
    by (simp add: fit_dictionary_def sorted_keys_def kMaxRecursionDepth_def)
  from sync_call_returns [where func = ?func and p = ?p and obj = 0 and req_at = 65536 and rep_at = 131072
      and i = 3 and routing = 5 and type_id = 9 and des = 77, OF settings_call.rpc_axioms h h s r _ d]
  show ?thesis by (simp add: fit_pair_def strings.fit_vector_def)
qed

end
