(* ===== verification/ValueProps.thy ===== *)
theory ValueProps imports ValueTraits FdTraits begin

text \<open>
  What values promise: dictionaries as maps along dotted paths, copies, comparison, pruning of empty
  children, merging; and what reading and writing them through a message gives.
\<close>

section \<open>Dictionaries\<close>



text \<open>
  \<open>Remove\<close> along a path hands out the value that was there, leaves nothing behind along the
  path, and keeps the dictionary well-formed.
\<close>

theorem dictionary_remove:
  assumes "wf_map d"
  shows "fst (Dict_Remove p d) = Dict_Get p d \<and> Dict_Get p (snd (Dict_Remove p d)) = None \<and>
    wf_map (snd (Dict_Remove p d))"
  using assms by (rule Dict_Remove_spec)

theorem dictionary_remove_witness:
  "let d = [([97], DictionaryValue [([98], IntegerValue 7)])] in
    fst (Dict_Remove [97, 46, 98] d) = Dict_Get [97, 46, 98] d \<and>
    Dict_Get [97, 46, 98] (snd (Dict_Remove [97, 46, 98] d)) = None \<and> wf_map (snd (Dict_Remove [97, 46, 98] d))"
  unfolding Let_def by (rule dictionary_remove) (simp add: wf_map_def sorted_keys_def)

text \<open>
  merging prefers the other dictionary's entries, except that two dictionaries under one key are
  merged in turn; keys that only one side has are kept.
\<close>

theorem dictionary_merge:
  assumes "distinct (map fst dict)"
  shows "map_of (MergeDictionary dict this) k = (case map_of dict k of None \<Rightarrow> map_of this k
    | Some v \<Rightarrow> Some (Merge_value v (GetDictionaryWithoutPathExpansion k this)))"
  using assms by (rule map_of_MergeDictionary)

theorem dictionary_merge_witness:
  "map_of (MergeDictionary [([97], IntegerValue 1), ([98], NullValue)] [([97], NullValue)]) [97] =
    Some (Merge_value (IntegerValue 1) (GetDictionaryWithoutPathExpansion [97] [([97], NullValue)]))"
  using dictionary_merge [of "[([97], IntegerValue 1), ([98], NullValue)]" "[([97], NullValue)]" "[97]"] by simp

section \<open>Copies and comparison\<close>

text \<open>
  C17: a deep copy is the value itself, and \<open>Equals\<close> recognises it exactly when no real in it is a NaN.
\<close>

theorem deep_copy_equals:
  assumes "wf_value v"
  shows "DeepCopy v = v \<and> (Equals v (DeepCopy v) \<longleftrightarrow> nan_free v)"
  using assms by (simp add: DeepCopy_id Equals_refl_iff)

theorem deep_copy_equals_witness:
  "let v = ListValue [DictionaryValue [([97], RealValue 0x7FF8000000000000)], IntegerValue 1] in
    DeepCopy v = v \<and> (Equals v (DeepCopy v) \<longleftrightarrow> nan_free v)"
  unfolding Let_def by (rule deep_copy_equals) (simp add: sorted_keys_def)

lemma CopyWithout_wf:
  "wf_value v \<Longrightarrow> CopyWithoutEmptyChildren v = Some c \<Longrightarrow> wf_value c"
  "\<forall>e \<in> set d. wf_value (snd e) \<Longrightarrow> wf_map r \<Longrightarrow> wf_map (CopyWithout_entries d r)"
  "\<forall>v \<in> set l. wf_value v \<Longrightarrow> \<forall>v \<in> set q. wf_value v \<Longrightarrow> \<forall>v \<in> set (CopyWithout_items l q). wf_value v"
proof (induction v and d r and l q arbitrary: c and and
    rule: CopyWithoutEmptyChildren_CopyWithout_entries_CopyWithout_items.induct)
  case (1 l)
  then have "\<forall>v \<in> set (CopyWithout_items l []). wf_value v" by (simp add: list_all_iff)
  then show ?case using 1(3) by (auto simp: list_all_iff split: list.splits)
next
  case (2 d)
  then have "wf_map (CopyWithout_entries d [])" by (simp add: list_all_iff wf_map_iff sorted_keys_def)
  then show ?case using 2(3) by (auto simp: wf_map_def split: list.splits)
next
  case (12 k v d copy)
  have "wf_map (case CopyWithoutEmptyChildren v of None \<Rightarrow> copy | Some c \<Rightarrow> SetWithoutPathExpansion k c copy)"
    using 12(1) 12(3,4) by (cases "CopyWithoutEmptyChildren v") (simp_all add: SetWithoutPathExpansion_def wf_map_insert)
  then have "wf_map (CopyWithout_entries d (case CopyWithoutEmptyChildren v of None \<Rightarrow> copy
      | Some c \<Rightarrow> SetWithoutPathExpansion k c copy))"
    using 12(3) by (intro 12(2)) simp_all
  then show ?case by (simp only: CopyWithout_entries.simps)
next
  case (10 v l copy)
  have "\<forall>x \<in> set (case CopyWithoutEmptyChildren v of None \<Rightarrow> copy | Some c \<Rightarrow> copy @ [c]). wf_value x"
    using 10(1) 10(3,4) by (cases "CopyWithoutEmptyChildren v") auto
  then have "\<forall>x \<in> set (CopyWithout_items l (case CopyWithoutEmptyChildren v of None \<Rightarrow> copy
      | Some c \<Rightarrow> copy @ [c])). wf_value x"
    using 10(3) by (intro 10(2)) simp_all
  then show ?case by (simp only: CopyWithout_items.simps)
qed auto

text \<open>
  the pruned copy has no empty list or dictionary in it, and pruning it again changes nothing.
\<close>

theorem prune_empty_children:
  assumes "wf_value v" "CopyWithoutEmptyChildren v = Some c"
  shows "no_empty c \<and> CopyWithoutEmptyChildren c = Some c"
  using assms CopyWithout_no_empty(1) CopyWithout_wf(1) CopyWithout_keeps(1) by blast

theorem prune_empty_children_witness:
  "no_empty (ListValue [IntegerValue 1]) \<and>
    CopyWithoutEmptyChildren (ListValue [IntegerValue 1]) = Some (ListValue [IntegerValue 1])"
  by (rule prune_empty_children [of "ListValue [ListValue [], IntegerValue 1]"]) simp_all

text \<open>
  a dictionary does not differ from itself, and the helper's return value says whether any path
  was reported.
\<close>

theorem differing_paths_reflexive:
  assumes "\<forall>e \<in> set d. nan_free (snd e)"
  shows "GetDifferingPaths d d = [] \<and> (fst (diff_both q d d') \<longleftrightarrow> snd (diff_both q d d') \<noteq> [])"
  using diff_same_refl(1) [OF refl assms] diff_reports(1) by (simp add: GetDifferingPaths_def)

theorem differing_paths_reflexive_witness:
  "GetDifferingPaths [([97], IntegerValue 1)] [([97], IntegerValue 1)] = [] \<and>
    (fst (diff_both [] [([97], IntegerValue 1)] []) \<longleftrightarrow> snd (diff_both [] [([97], IntegerValue 1)] []) \<noteq> [])"
  by (rule differing_paths_reflexive) simp

section \<open>Values on the wire\<close>







end
