(* ===== verification/Channel.thy ===== *)
theory Channel imports Message begin

text \<open>
  \<open>ipc/ipc_channel_posix.h\<close> and \<open>.cc\<close>: a channel over a Unix socket, with its handshake, the queue
  of outgoing messages, the reassembly of messages from a stream of bytes, and the descriptors that
  arrive beside it. The operating system is a parameter: every system call is a function on a world.
  The listener is called with a message and may read its descriptors; it does not call back into the
  channel. \<open>None\<close> is a failed \<open>CHECK\<close>, a \<open>LOG(FATAL)\<close> or an access outside a buffer.
\<close>

section \<open>The environment\<close>

type_synonym name = "u8 list"

datatype errno = EAGAIN | ECONNRESET | EPIPE | EOTHER

datatype control = SCM_RIGHTS "int list" | OTHER_CONTROL

text \<open>\<open>Received data control truncated\<close>; no data is the end of the stream.\<close>

datatype recv_result = RecvFailed errno | Received "u8 list" "control list" bool

datatype send_result = SendFailed errno | Sent nat

record 'w os =
  os_recv :: "int \<Rightarrow> bool \<Rightarrow> nat \<Rightarrow> 'w \<Rightarrow> recv_result \<times> 'w"
  os_send :: "int \<Rightarrow> u8 list \<Rightarrow> int list option \<Rightarrow> 'w \<Rightarrow> send_result \<times> 'w"
  os_close :: "int \<Rightarrow> 'w \<Rightarrow> 'w"
  os_dup :: "int \<Rightarrow> 'w \<Rightarrow> int \<times> 'w"
  os_socketpair :: "'w \<Rightarrow> (int \<times> int) option \<times> 'w"
  os_socket :: "'w \<Rightarrow> int \<times> 'w"
  os_nonblock :: "int \<Rightarrow> 'w \<Rightarrow> bool \<times> 'w"
  os_bind :: "int \<Rightarrow> name \<Rightarrow> 'w \<Rightarrow> bool \<times> 'w"
  os_listen :: "int \<Rightarrow> 'w \<Rightarrow> bool \<times> 'w"
  os_accept :: "int \<Rightarrow> 'w \<Rightarrow> int \<times> 'w"
  os_connect :: "int \<Rightarrow> name \<Rightarrow> 'w \<Rightarrow> bool \<times> 'w"
  os_unlink :: "name \<Rightarrow> 'w \<Rightarrow> 'w"
  os_is_dir :: "int \<Rightarrow> 'w \<Rightarrow> bool"
  os_pid :: u32
  os_primary_channel :: int
  input_buf_at :: u32
  overflow_buf_at :: "u8 list \<Rightarrow> u32"
  behind_buffer :: "u8 list"
  listener :: "message \<Rightarrow> 'w \<Rightarrow> message \<times> 'w"

datatype mode = MODE_NONE | MODE_SERVER | MODE_CLIENT | MODE_NAMED_SERVER | MODE_NAMED_CLIENT

datatype event = OnChannelConnected "u32 option" | OnMessageReceived message | OnChannelError

record channel =
  mode :: mode
  is_blocked_on_write :: bool
  message_send_bytes_written :: nat
  uses_fifo :: bool
  server_listen_pipe :: int
  pipe :: int
  client_pipe :: int
  fd_pipe :: int
  remote_fd_pipe :: int
  pipe_name :: name
  output_queue :: "message list"
  input_overflow_buf :: "u8 list"
  input_overflow_fds :: "int list"
  waiting_connect :: bool
  listen_watch :: "int option"
  read_watch :: "int option"
  write_watch :: "int option"

text \<open>A channel in its process: the pipe map and the static flag of the process, what the listener
  was told, and the world.\<close>

record 'w state = channel +
  pipe_map :: "name \<rightharpoonup> int"
  used_initial_channel :: bool
  events :: "event list"
  world :: 'w

definition HELLO_MESSAGE_TYPE :: u32 where
  "HELLO_MESSAGE_TYPE = 0xFFFF"

definition kMaximumMessageSize :: nat where
  "kMaximumMessageSize = 128 * 1024 * 1024"

definition kReadBufferSize :: nat where
  "kReadBufferSize = 4 * 1024"

definition kMaxPipeNameLength :: nat where
  "kMaxPipeNameLength = 108"

definition close_fd :: "'w os \<Rightarrow> int \<Rightarrow> 'w state \<Rightarrow> 'w state" where
  "close_fd os f st = st\<lparr>world := os_close os f (world st)\<rparr>"

definition close_fds :: "'w os \<Rightarrow> int list \<Rightarrow> 'w state \<Rightarrow> 'w state" where
  "close_fds os fs st = fold (close_fd os) fs st"

definition tell :: "event \<Rightarrow> 'w state \<Rightarrow> 'w state" where
  "tell e st = st\<lparr>events := events st @ [e]\<rparr>"

section \<open>The pipe map\<close>

definition PipeMap_Lookup :: "name \<Rightarrow> 'w state \<Rightarrow> int" where
  "PipeMap_Lookup channel_id st = (case pipe_map st channel_id of None \<Rightarrow> - 1 | Some f \<Rightarrow> f)"

definition PipeMap_RemoveAndClose :: "'w os \<Rightarrow> name \<Rightarrow> 'w state \<Rightarrow> 'w state" where
  "PipeMap_RemoveAndClose os channel_id st = (case pipe_map st channel_id of None \<Rightarrow> st
     | Some f \<Rightarrow> (let st1 = close_fd os f st in st1\<lparr>pipe_map := (pipe_map st1)(channel_id := None)\<rparr>))"

definition PipeMap_Insert :: "name \<Rightarrow> int \<Rightarrow> 'w state \<Rightarrow> 'w state option" where
  "PipeMap_Insert channel_id f st = (if pipe_map st channel_id \<noteq> None then None
     else Some (st\<lparr>pipe_map := (pipe_map st)(channel_id \<mapsto> f)\<rparr>))"

definition ChannelNameToFD :: "'w os \<Rightarrow> name \<Rightarrow> 'w state \<Rightarrow> (int \<times> 'w state) option" where
  "ChannelNameToFD os channel_id st = (let f = PipeMap_Lookup channel_id st in
     if f \<noteq> - 1
     then (case os_dup os f (world st) of (dup_fd, w) \<Rightarrow>
       if dup_fd < 0 then None else Some (dup_fd, st\<lparr>world := w\<rparr>))
     else Some (f, st))"

definition AddChannelSocket :: "name \<Rightarrow> int \<Rightarrow> 'w state \<Rightarrow> 'w state option" where
  "AddChannelSocket nm socket st = PipeMap_Insert nm socket st"

definition RemoveAndCloseChannelSocket :: "'w os \<Rightarrow> name \<Rightarrow> 'w state \<Rightarrow> 'w state" where
  "RemoveAndCloseChannelSocket os nm st = PipeMap_RemoveAndClose os nm st"

definition ChannelSocketExists :: "name \<Rightarrow> 'w state \<Rightarrow> bool" where
  "ChannelSocketExists nm st = (PipeMap_Lookup nm st \<noteq> - 1)"

section \<open>Sockets\<close>

text \<open>\<open>snprintf\<close> into \<open>sun_path\<close> stops at a NUL byte.\<close>

definition sun_path :: "name \<Rightarrow> name" where
  "sun_path nm = take (kMaxPipeNameLength - 1) (takeWhile (\<lambda>c. c \<noteq> 0) nm)"

definition CreateServerFifo :: "'w os \<Rightarrow> name \<Rightarrow> 'w state \<Rightarrow> int option \<times> 'w state" where
  "CreateServerFifo os nm st =
     (if length nm = 0 \<or> length nm \<ge> kMaxPipeNameLength then (None, st)
      else case os_socket os (world st) of (f, w) \<Rightarrow>
        if f < 0 then (None, st\<lparr>world := w\<rparr>)
        else case os_nonblock os f w of (ok, w1) \<Rightarrow>
          if \<not> ok then (None, close_fd os f (st\<lparr>world := w1\<rparr>))
          else case os_bind os f (sun_path nm) (os_unlink os (takeWhile (\<lambda>c. c \<noteq> 0) nm) w1) of (ok, w2) \<Rightarrow>
            if \<not> ok then (None, close_fd os f (st\<lparr>world := w2\<rparr>))
            else case os_listen os f w2 of (ok, w3) \<Rightarrow>
              if \<not> ok then (None, close_fd os f (st\<lparr>world := w3\<rparr>))
              else (Some f, st\<lparr>world := w3\<rparr>))"

definition ServerAcceptFifoConnection :: "'w os \<Rightarrow> int \<Rightarrow> 'w state \<Rightarrow> int option \<times> 'w state" where
  "ServerAcceptFifoConnection os server_listen_fd st =
     (case os_accept os server_listen_fd (world st) of (f, w) \<Rightarrow>
        if f < 0 then (None, st\<lparr>world := w\<rparr>)
        else case os_nonblock os f w of (ok, w1) \<Rightarrow>
          if \<not> ok then (None, close_fd os f (st\<lparr>world := w1\<rparr>)) else (Some f, st\<lparr>world := w1\<rparr>))"

definition ClientConnectToFifo :: "'w os \<Rightarrow> name \<Rightarrow> 'w state \<Rightarrow> int option \<times> 'w state" where
  "ClientConnectToFifo os nm st =
     (case os_socket os (world st) of (f, w) \<Rightarrow>
        if f < 0 then (None, st\<lparr>world := w\<rparr>)
        else case os_nonblock os f w of (ok, w1) \<Rightarrow>
          if \<not> ok then (None, close_fd os f (st\<lparr>world := w1\<rparr>))
          else case os_connect os f (sun_path nm) w1 of (ok, w2) \<Rightarrow>
            if \<not> ok then (None, close_fd os f (st\<lparr>world := w2\<rparr>)) else (Some f, st\<lparr>world := w2\<rparr>))"

definition SocketPair :: "'w os \<Rightarrow> 'w state \<Rightarrow> (int \<times> int) option \<times> 'w state" where
  "SocketPair os st = (case os_socketpair os (world st) of
     (None, w) \<Rightarrow> (None, st\<lparr>world := w\<rparr>)
   | (Some (f0, f1), w) \<Rightarrow> (case os_nonblock os f0 w of (ok0, w1) \<Rightarrow>
       if \<not> ok0 then (None, close_fd os f1 (close_fd os f0 (st\<lparr>world := w1\<rparr>)))
       else case os_nonblock os f1 w1 of (ok1, w2) \<Rightarrow>
         if \<not> ok1 then (None, close_fd os f1 (close_fd os f0 (st\<lparr>world := w2\<rparr>)))
         else (Some (f0, f1), st\<lparr>world := w2\<rparr>)))"

definition SocketWriteErrorIsRecoverable :: "errno \<Rightarrow> bool" where
  "SocketWriteErrorIsRecoverable e = (e = EAGAIN)"

section \<open>Closing\<close>

definition close_pipe :: "'w os \<Rightarrow> int \<Rightarrow> 'w state \<Rightarrow> 'w state" where
  "close_pipe os f st = (if f \<noteq> - 1 then close_fd os f st else st)"

text \<open>A message that is deleted closes the auto-close descriptors it still holds.\<close>

definition delete_message :: "'w os \<Rightarrow> message \<Rightarrow> 'w state \<Rightarrow> 'w state" where
  "delete_message os m st = (case fd_set m of None \<Rightarrow> st
     | Some s \<Rightarrow> close_fds os (FileDescriptorSet_destroy s) st)"

definition Close :: "'w os \<Rightarrow> 'w state \<Rightarrow> 'w state" where
  "Close os st = (let
     st1 = (close_pipe os (server_listen_pipe st) (st\<lparr>listen_watch := None\<rparr>))\<lparr>server_listen_pipe := - 1\<rparr>;
     st2 = (close_pipe os (pipe st1) (st1\<lparr>read_watch := None, write_watch := None\<rparr>))\<lparr>pipe := - 1\<rparr>;
     st3 = (if client_pipe st2 \<noteq> - 1
       then (PipeMap_RemoveAndClose os (pipe_name st2) st2)\<lparr>client_pipe := - 1\<rparr> else st2);
     st4 = (close_pipe os (fd_pipe st3) st3)\<lparr>fd_pipe := - 1\<rparr>;
     st5 = (close_pipe os (remote_fd_pipe st4) st4)\<lparr>remote_fd_pipe := - 1\<rparr>;
     st6 = (if uses_fifo st5 then st5\<lparr>world := os_unlink os (takeWhile (\<lambda>c. c \<noteq> 0) (pipe_name st5)) (world st5)\<rparr> else st5);
     st7 = (fold (delete_message os) (output_queue st6) st6)\<lparr>output_queue := []\<rparr>
   in (close_fds os (input_overflow_fds st7) st7)\<lparr>input_overflow_fds := []\<rparr>)"


section \<open>Sending\<close>

definition is_hello :: "message \<Rightarrow> bool option" where
  "is_hello m = do {
     r \<leftarrow> routing_id m;
     t \<leftarrow> msg_type m;
     Some (r = MSG_ROUTING_NONE \<and> t = HELLO_MESSAGE_TYPE) }"

text \<open>
  The Hello message of a client that has made the socket pair for descriptors is replaced by one
  that carries the other end of that pair.
\<close>

definition hello_with_fd_pipe :: "heap \<Rightarrow> int \<Rightarrow> message \<Rightarrow> message option" where
  "hello_with_fd_pipe h remote msg = do {
     hello \<leftarrow> Message_new h MSG_ROUTING_NONE HELLO_MESSAGE_TYPE PRIORITY_NORMAL;
     (pid, it) \<leftarrow> ReadInt msg 0;
     hello1 \<leftarrow> (case pid of None \<Rightarrow> Some hello | Some p \<Rightarrow> map_option snd (WriteInt h p hello));
     (_, hello2) \<leftarrow> WriteFileDescriptor h \<lparr>fd = remote, auto_close = False\<rparr> hello1;
     Some hello2 }"

definition CommitAll_message :: "'w os \<Rightarrow> message \<Rightarrow> 'w state \<Rightarrow> message \<times> 'w state" where
  "CommitAll_message os m st = (case CommitAll (file_descriptor_set m) of (closed, s) \<Rightarrow>
     ((EnsureFileDescriptorSet m)\<lparr>fd_set := Some s\<rparr>, close_fds os closed st))"

text \<open>
  The descriptors of the first chunk of a message go out with it, or ahead of it on the dedicated
  socket. The result is the message, the control data left for the pipe, what \<open>bytes_written\<close> (and
  \<open>errno\<close>) is so far, and the state.
\<close>

definition send_descriptors :: "'w os \<Rightarrow> message \<Rightarrow> 'w state \<Rightarrow>
    (message \<times> int list option \<times> send_result \<times> 'w state) option" where
  "send_descriptors os m st = (let m0 = EnsureFileDescriptorSet m; s = file_descriptor_set m0 in
     if message_send_bytes_written st = 0 \<and> \<not> fds_empty s
     then (if ContainsDirectoryDescriptor (\<lambda>f. os_is_dir os f (world st)) s then None
       else do {
         m1 \<leftarrow> set_num_fds (word_of_nat (fds_size s)) m0;
         hello \<leftarrow> is_hello m1;
         if \<not> uses_fifo st \<and> \<not> hello
         then (case os_send os (fd_pipe st) [0] (Some (GetDescriptors s)) (world st) of (r, w) \<Rightarrow>
           let st1 = st\<lparr>world := w\<rparr> in
           Some (case r of
             Sent n \<Rightarrow> (if n > 0
               then (case CommitAll_message os m1 st1 of (m2, st2) \<Rightarrow> (m2, None, r, st2))
               else (m1, None, r, st1))
           | SendFailed e \<Rightarrow> (m1, None, r, st1)))
         else Some (m1, Some (GetDescriptors s), Sent 1, st) })
     else Some (m0, None, Sent 1, st))"

text \<open>The bytes go to the pipe unless the descriptors could not be sent ahead.\<close>

definition write_out :: "'w os \<Rightarrow> send_result \<Rightarrow> int list option \<Rightarrow> u8 list \<Rightarrow> 'w state \<Rightarrow> send_result \<times> 'w state" where
  "write_out os r1 ctl out_bytes st = (if r1 = Sent 1
     then (case os_send os (pipe st) out_bytes ctl (world st) of (r, w) \<Rightarrow> (r, st\<lparr>world := w\<rparr>))
     else (r1, st))"

definition commit_sent :: "'w os \<Rightarrow> send_result \<Rightarrow> message \<Rightarrow> 'w state \<Rightarrow> message \<times> 'w state" where
  "commit_sent os r m st = (case r of
     Sent n \<Rightarrow> (if n > 0 then CommitAll_message os m st else (m, st))
   | SendFailed e \<Rightarrow> (m, st))"

text \<open>
  One round of the loop on the message at the head of the queue: \<open>Inl\<close> is a \<open>return\<close>, \<open>Inr\<close> goes
  on with the message gone from the queue.
\<close>

definition send_front :: "'w os \<Rightarrow> heap \<Rightarrow> 'w state \<Rightarrow> (bool \<times> 'w state + 'w state) option" where
  "send_front os h st = do {
     let front = hd (output_queue st);
     hello \<leftarrow> is_hello front;
     let temp = (remote_fd_pipe st \<noteq> - 1 \<and> hello);
     msg \<leftarrow> (if temp then hello_with_fd_pipe h (remote_fd_pipe st) front else Some front);
     size0 \<leftarrow> pickle_size msg;
     let amt_to_write = unat size0 - message_send_bytes_written st;
     (msg1, ctl, r1, st1) \<leftarrow> send_descriptors os msg st;
     bytes \<leftarrow> wire msg1;
     let out_bytes = drop (message_send_bytes_written st) bytes;
     let (r2, st2) = write_out os r1 ctl out_bytes st1;
     let (msg2, st3) = commit_sent os r2 msg1 st2;
     let st4 = (if temp then st3 else st3\<lparr>output_queue := msg2 # tl (output_queue st3)\<rparr>);
     case r2 of
       SendFailed e \<Rightarrow>
         (if \<not> SocketWriteErrorIsRecoverable e
          then Some (Inl (False, if e = EPIPE then Close os st4 else st4))
          else Some (Inl (True, st4\<lparr>is_blocked_on_write := True, write_watch := Some (pipe st4)\<rparr>)))
     | Sent n \<Rightarrow>
         (if n \<noteq> amt_to_write
          then Some (Inl (True, st4\<lparr>message_send_bytes_written := message_send_bytes_written st4 + n,
            is_blocked_on_write := True, write_watch := Some (pipe st4)\<rparr>))
          else (let st5 = st4\<lparr>message_send_bytes_written := 0\<rparr>
            in Some (Inr ((delete_message os (hd (output_queue st5)) st5)\<lparr>output_queue := tl (output_queue st5)\<rparr>)))) }"

text \<open>Each round that does not return takes a message off the queue.\<close>

fun send_loop :: "nat \<Rightarrow> 'w os \<Rightarrow> heap \<Rightarrow> 'w state \<Rightarrow> (bool \<times> 'w state) option" where
  "send_loop 0 os h st = Some (True, st)"
| "send_loop (Suc n) os h st = do {
     r \<leftarrow> send_front os h st;
     case r of Inl res \<Rightarrow> Some res | Inr st1 \<Rightarrow> send_loop n os h st1 }"

definition ProcessOutgoingMessages :: "'w os \<Rightarrow> heap \<Rightarrow> 'w state \<Rightarrow> (bool \<times> 'w state) option" where
  "ProcessOutgoingMessages os h st = (let st0 = st\<lparr>is_blocked_on_write := False\<rparr> in
     if output_queue st0 = [] then Some (True, st0)
     else if pipe st0 = - 1 then Some (False, st0)
     else send_loop (length (output_queue st0)) os h st0)"

definition Send :: "'w os \<Rightarrow> heap \<Rightarrow> message \<Rightarrow> 'w state \<Rightarrow> (bool \<times> 'w state) option" where
  "Send os h message st = (let st1 = st\<lparr>output_queue := output_queue st @ [message]\<rparr> in
     if \<not> waiting_connect st1 \<and> \<not> is_blocked_on_write st1
     then ProcessOutgoingMessages os h st1 else Some (True, st1))"

section \<open>Creation and connection\<close>

definition CreatePipe :: "'w os \<Rightarrow> heap \<Rightarrow> name \<Rightarrow> mode \<Rightarrow> 'w state \<Rightarrow> (bool \<times> 'w state) option" where
  "CreatePipe os h channel_id md st = do {
     let st0 = st\<lparr>pipe_name := channel_id\<rparr>;
     (ok, st1) \<leftarrow> (if uses_fifo st0
       then (if md = MODE_SERVER
         then (case CreateServerFifo os (pipe_name st0) st0 of
             (None, s) \<Rightarrow> Some (False, s)
           | (Some f, s) \<Rightarrow> Some (True, s\<lparr>server_listen_pipe := f\<rparr>))
         else (case ClientConnectToFifo os (pipe_name st0) st0 of
             (None, s) \<Rightarrow> Some (False, s)
           | (Some f, s) \<Rightarrow> Some (True, s\<lparr>pipe := f, waiting_connect := False\<rparr>)))
       else do {
         (p, s0) \<leftarrow> ChannelNameToFD os (pipe_name st0) st0;
         let s1 = s0\<lparr>pipe := p\<rparr>;
         if p < 0
         then (if md = MODE_SERVER
           then (case SocketPair os s1 of
               (None, s) \<Rightarrow> Some (False, s)
             | (Some (f0, f1), s) \<Rightarrow> do {
                 s2 \<leftarrow> AddChannelSocket (pipe_name s) f1 (s\<lparr>pipe := f0, client_pipe := f1\<rparr>);
                 Some (True, s2) })
           else if used_initial_channel s1 then None
           else Some (True, s1\<lparr>used_initial_channel := True, pipe := os_primary_channel os\<rparr>))
         else Some (True, s1\<lparr>waiting_connect := (md = MODE_SERVER)\<rparr>) });
     if \<not> ok then Some (False, st1)
     else do {
       msg \<leftarrow> Message_new h MSG_ROUTING_NONE HELLO_MESSAGE_TYPE PRIORITY_NORMAL;
       let (ok2, st2) = (if \<not> uses_fifo st1
         then (if md = MODE_SERVER then (True, st1\<lparr>fd_pipe := - 1\<rparr>)
           else if remote_fd_pipe st1 = - 1
           then (case SocketPair os st1 of
               (None, s) \<Rightarrow> (False, s)
             | (Some (f0, f1), s) \<Rightarrow> (True, s\<lparr>fd_pipe := f0, remote_fd_pipe := f1\<rparr>))
           else (True, st1))
         else (True, st1));
       if \<not> ok2 then Some (False, st2)
       else do {
         (written, msg1) \<leftarrow> WriteInt h (os_pid os) msg;
         if \<not> written then Some (False, Close os st2)
         else Some (True, st2\<lparr>output_queue := output_queue st2 @ [msg1]\<rparr>) } } }"

text \<open>The constructor; \<open>use_fifo\<close> is the command line switch.\<close>

definition ChannelImpl_new :: "'w os \<Rightarrow> heap \<Rightarrow> bool \<Rightarrow> name \<Rightarrow> mode \<Rightarrow> (name \<rightharpoonup> int) \<Rightarrow> bool \<Rightarrow> 'w \<Rightarrow> 'w state option" where
  "ChannelImpl_new os h use_fifo channel_id md pm used w = do {
     let md' = (if md = MODE_NAMED_SERVER then MODE_SERVER
       else if md = MODE_NAMED_CLIENT then MODE_CLIENT else md);
     (ok, st) \<leftarrow> CreatePipe os h channel_id md'
       \<lparr>mode = md', is_blocked_on_write = False, message_send_bytes_written = 0,
        uses_fifo = (use_fifo \<or> md = MODE_NAMED_SERVER \<or> md = MODE_NAMED_CLIENT),
        server_listen_pipe = - 1, pipe = - 1, client_pipe = - 1, fd_pipe = - 1, remote_fd_pipe = - 1,
        pipe_name = [], output_queue = [], input_overflow_buf = [], input_overflow_fds = [],
        waiting_connect = True, listen_watch = None, read_watch = None, write_watch = None,
        pipe_map = pm, used_initial_channel = used, events = [], world = w\<rparr>;
     Some st }"

definition Connect :: "'w os \<Rightarrow> heap \<Rightarrow> 'w state \<Rightarrow> (bool \<times> 'w state) option" where
  "Connect os h st =
     (if mode st = MODE_SERVER \<and> uses_fifo st
      then (if server_listen_pipe st = - 1 then Some (False, st)
        else (let st1 = st\<lparr>listen_watch := Some (server_listen_pipe st)\<rparr> in
          if \<not> waiting_connect st1 then ProcessOutgoingMessages os h st1 else Some (True, st1)))
      else (if pipe st = - 1 then Some (False, st)
        else (let st1 = st\<lparr>read_watch := Some (pipe st), waiting_connect := (mode st = MODE_SERVER)\<rparr> in
          if \<not> waiting_connect st1 then ProcessOutgoingMessages os h st1 else Some (True, st1))))"

section \<open>Receiving\<close>

text \<open>The first array of descriptors among the control messages.\<close>

fun rights :: "control list \<Rightarrow> int list option" where
  "rights [] = None"
| "rights (SCM_RIGHTS fs # cs) = Some fs"
| "rights (OTHER_CONTROL # cs) = rights cs"

text \<open>
  What the loop of \<open>ProcessIncomingMessages\<close> has in its local variables: the descriptors of the
  last \<open>recvmsg\<close> and those not yet used.
\<close>

record 'w incoming =
  inst :: "'w state"
  wire_fds :: "int list"
  fds :: "int list"

text \<open>
  A message needs more descriptors than are there: ask the dedicated socket. \<open>Inl\<close> is the
  \<open>return false\<close> of truncated control data.
\<close>

definition fetch_descriptors :: "'w os \<Rightarrow> 'w incoming \<Rightarrow> ('w state + 'w incoming)" where
  "fetch_descriptors os s = (let st = inst s in
     if uses_fifo st then Inr s
     else case os_recv os (fd_pipe st) True 1 (world st) of (r, w) \<Rightarrow>
       let st1 = st\<lparr>world := w\<rparr> in
       case r of
         Received [c] (ctl # ctls) trunc \<Rightarrow>
           (case rights (ctl # ctls) of
             Some fs \<Rightarrow>
               (if trunc then Inl (close_fds os fs st1)
                else if input_overflow_fds st1 = []
                then Inr \<lparr>inst = st1, wire_fds = fs, fds = fs\<rparr>
                else Inr \<lparr>inst = st1\<lparr>input_overflow_fds := input_overflow_fds st1 @ fs\<rparr>, wire_fds = fs,
                  fds = input_overflow_fds st1 @ fs\<rparr>)
           | None \<Rightarrow>
               (if input_overflow_fds st1 = []
                then Inr \<lparr>inst = st1, wire_fds = wire_fds s, fds = wire_fds s\<rparr>
                else Inr \<lparr>inst = st1\<lparr>input_overflow_fds := input_overflow_fds st1 @ wire_fds s\<rparr>,
                  wire_fds = wire_fds s, fds = input_overflow_fds st1 @ wire_fds s\<rparr>))
       | _ \<Rightarrow> Inr (s\<lparr>inst := st1\<rparr>))"

text \<open>The descriptors a received message says it has; \<open>Inl\<close> aborts the connection.\<close>

definition take_descriptors :: "'w os \<Rightarrow> nat \<Rightarrow> message \<Rightarrow> 'w incoming \<Rightarrow> ('w state + message \<times> 'w incoming)" where
  "take_descriptors os n m s =
     (if n = 0 then Inr (m, s)
      else case (if n > length (fds s) then fetch_descriptors os s else Inr s) of
        Inl st \<Rightarrow> Inl st
      | Inr s1 \<Rightarrow>
          (if n > length (fds s1) \<or> n > MAX_DESCRIPTORS_PER_MESSAGE
           then Inl ((close_fds os (fds s1) (inst s1))\<lparr>input_overflow_fds := []\<rparr>)
           else Inr ((EnsureFileDescriptorSet m)\<lparr>fd_set :=
               Some (SetDescriptors (take n (fds s1)) (file_descriptor_set m))\<rparr>,
             s1\<lparr>fds := drop n (fds s1)\<rparr>)))"

text \<open>
  The Hello message. The server takes its descriptor socket from it, and the \<open>CHECK\<close> fails when
  the message does not name a descriptor.
\<close>

definition receive_hello :: "'w os \<Rightarrow> message \<Rightarrow> 'w state \<Rightarrow> (message \<times> 'w state) option" where
  "receive_hello os m st = do {
     (pid, it) \<leftarrow> ReadInt m 0;
     if mode st = MODE_SERVER \<and> \<not> uses_fifo st
     then do {
       (index, it2) \<leftarrow> ReadInt m it;
       case (index, fd_set m) of
         (Some i, Some s) \<Rightarrow> (case GetDescriptorAt (unat i) s of (f, s') \<Rightarrow>
           Some (m\<lparr>fd_set := Some s'\<rparr>, tell (OnChannelConnected pid) (st\<lparr>fd_pipe := f\<rparr>)))
       | _ \<Rightarrow> None }
     else Some (m, tell (OnChannelConnected pid) st) }"

definition receive_message :: "'w os \<Rightarrow> message \<Rightarrow> 'w state \<Rightarrow> (message \<times> 'w state) option" where
  "receive_message os m st = do {
     hello \<leftarrow> is_hello m;
     if hello then receive_hello os m st
     else (case listener os m (world st) of (m', w) \<Rightarrow>
       Some (m', tell (OnMessageReceived m) (st\<lparr>world := w\<rparr>))) }"

text \<open>
  The loop over the messages in the buffer. \<open>at\<close> is the address of \<open>rest\<close>; the size word is read
  even when less than four bytes are left, so what lies behind the buffer is a parameter. \<open>Inl\<close> is
  \<open>return false\<close>; \<open>Inr\<close> has the bytes of the partial message that is left. A message has at least
  20 bytes, so one round more than there are bytes is never used up.
\<close>

fun messages_loop :: "nat \<Rightarrow> 'w os \<Rightarrow> u32 \<Rightarrow> u8 list \<Rightarrow> 'w incoming \<Rightarrow> ('w state + u8 list \<times> 'w incoming) option" where
  "messages_loop 0 os at rest s = None"
| "messages_loop (Suc n) os at rest s =
     (if rest = [] then Some (Inr (rest, s))
      else do {
        tail \<leftarrow> Message_FindNext (rest @ behind_buffer os) at (at + word_of_nat (length rest));
        if tail = 0 then Some (Inr (rest, s))
        else do {
          let len = unat (tail - at);
          m \<leftarrow> Message_const at (take len rest);
          nfds \<leftarrow> num_fds m;
          case take_descriptors os (unat nfds) m s of
            Inl st \<Rightarrow> Some (Inl st)
          | Inr (m1, s1) \<Rightarrow> do {
              (m2, st) \<leftarrow> receive_message os m1 (inst s1);
              let st1 = (delete_message os m2 st)\<lparr>input_overflow_fds := fds s1\<rparr>;
              messages_loop n os tail (drop len rest) (s1\<lparr>inst := st1\<rparr>) } } })"

text \<open>One read from the pipe and what follows it. \<open>Inl\<close> returns, \<open>Inr\<close> reads again.\<close>

definition receive_once :: "'w os \<Rightarrow> 'w state \<Rightarrow> (bool \<times> 'w state + 'w state) option" where
  "receive_once os st =
     (if pipe st = - 1 then Some (Inl (False, st))
      else case os_recv os (pipe st) (\<not> fd_pipe st \<ge> 0) kReadBufferSize (world st) of (r, w) \<Rightarrow>
        let st0 = st\<lparr>world := w\<rparr> in
        case r of
          RecvFailed e \<Rightarrow> Some (Inl (e = EAGAIN, st0))
        | Received [] ctl trunc \<Rightarrow> Some (Inl (False, st0))
        | Received (d # ds) ctl trunc \<Rightarrow>
            (let data = d # ds;
                 st1 = (if client_pipe st0 \<noteq> - 1
                   then (PipeMap_RemoveAndClose os (pipe_name st0) st0)\<lparr>client_pipe := - 1\<rparr> else st0);
                 wfds = (if fd_pipe st0 \<ge> 0 then None else rights ctl);
                 num_wire = (case wfds of None \<Rightarrow> [] | Some fs \<Rightarrow> fs)
             in if wfds \<noteq> None \<and> trunc then Some (Inl (False, close_fds os num_wire st1))
             else if input_overflow_buf st1 \<noteq> [] \<and>
               length (input_overflow_buf st1) > kMaximumMessageSize - length data
             then Some (Inl (False, st1\<lparr>input_overflow_buf := []\<rparr>))
             else (let buf = input_overflow_buf st1 @ data;
                 st2 = (if input_overflow_buf st1 = [] then st1 else st1\<lparr>input_overflow_buf := buf\<rparr>);
                 at = (if input_overflow_buf st1 = [] then input_buf_at os else overflow_buf_at os buf);
                 s = (if input_overflow_fds st2 = []
                   then \<lparr>inst = st2, wire_fds = num_wire, fds = num_wire\<rparr>
                   else \<lparr>inst = st2\<lparr>input_overflow_fds := input_overflow_fds st2 @ num_wire\<rparr>,
                     wire_fds = num_wire, fds = input_overflow_fds st2 @ num_wire\<rparr>)
               in do {
                 r \<leftarrow> messages_loop (Suc (length buf)) os at buf s;
                 case r of
                   Inl st3 \<Rightarrow> Some (Inl (False, st3))
                 | Inr (rest, s1) \<Rightarrow>
                     (let st3 = (inst s1)\<lparr>input_overflow_buf := rest, input_overflow_fds := fds s1\<rparr>
                      in Some (if rest = [] \<and> fds s1 \<noteq> [] then Inl (False, st3) else Inr st3)) })))"

text \<open>The loop runs as long as the pipe has data; the first argument bounds its rounds.\<close>

fun ProcessIncomingMessages :: "nat \<Rightarrow> 'w os \<Rightarrow> 'w state \<Rightarrow> (bool \<times> 'w state) option" where
  "ProcessIncomingMessages 0 os st = None"
| "ProcessIncomingMessages (Suc n) os st = do {
     r \<leftarrow> receive_once os st;
     case r of Inl res \<Rightarrow> Some res | Inr st1 \<Rightarrow> ProcessIncomingMessages n os st1 }"

section \<open>Events of the message loop\<close>

definition OnFileCanReadWithoutBlocking :: "nat \<Rightarrow> 'w os \<Rightarrow> heap \<Rightarrow> int \<Rightarrow> 'w state \<Rightarrow> 'w state option" where
  "OnFileCanReadWithoutBlocking n os h f st = do {
     let send_server_hello_msg = (waiting_connect st \<and> mode st = MODE_SERVER);
     let st1 = (if send_server_hello_msg
       then (if uses_fifo st
         then (case ServerAcceptFifoConnection os (server_listen_pipe st) st of (r, s) \<Rightarrow>
           let s1 = (case r of Some p \<Rightarrow> s\<lparr>pipe := p\<rparr> | None \<Rightarrow> Close os s)
           in s1\<lparr>listen_watch := None, read_watch := Some (pipe s1), waiting_connect := False\<rparr>)
         else st\<lparr>waiting_connect := False\<rparr>)
       else st);
     (ok, st2) \<leftarrow> (if \<not> waiting_connect st1 \<and> f = pipe st1
       then ProcessIncomingMessages n os st1 else Some (True, st1));
     if \<not> ok then Some (tell OnChannelError (Close os st2))
     else if send_server_hello_msg then map_option snd (ProcessOutgoingMessages os h st2)
     else Some st2 }"

definition OnFileCanWriteWithoutBlocking :: "'w os \<Rightarrow> heap \<Rightarrow> int \<Rightarrow> 'w state \<Rightarrow> 'w state option" where
  "OnFileCanWriteWithoutBlocking os h f st = do {
     (ok, st1) \<leftarrow> ProcessOutgoingMessages os h st;
     Some (if \<not> ok then tell OnChannelError (Close os st1) else st1) }"

definition GetClientFileDescriptor :: "'w state \<Rightarrow> int" where
  "GetClientFileDescriptor st = client_pipe st"

end
