(* ===== verification/ChannelClose.thy ===== *)
theory ChannelClose imports Channel begin

text \<open>
  Closing a channel: it gives back every descriptor it owns, once, and closing it again does nothing.
\<close>

lemma close_fds_world: "world (close_fds os fs st) = fold (os_close os) fs (world st)"
  by (induction fs arbitrary: st) (simp_all add: close_fds_def close_fd_def)

lemma close_fds_state: "close_fds os fs st = st\<lparr>world := fold (os_close os) fs (world st)\<rparr>"
  by (induction fs arbitrary: st) (simp_all add: close_fds_def close_fd_def)

definition held :: "int \<Rightarrow> int list" where
  "held f = (if f = - 1 then [] else [f])"

lemma close_pipe_state: "close_pipe os f st = close_fds os (held f) st"
  by (simp add: close_pipe_def held_def close_fds_def)

text \<open>The descriptors a deleted message closes.\<close>

definition owned_by_message :: "message \<Rightarrow> int list" where
  "owned_by_message m = (case fd_set m of None \<Rightarrow> [] | Some s \<Rightarrow> FileDescriptorSet_destroy s)"

lemma delete_message_state: "delete_message os m st = close_fds os (owned_by_message m) st"
  by (simp add: delete_message_def owned_by_message_def close_fds_def split: option.split)

lemma delete_messages_state:
  "fold (delete_message os) ms st = close_fds os (concat (map owned_by_message ms)) st"
  by (induction ms arbitrary: st) (simp_all add: delete_message_state close_fds_state)

text \<open>Everything a channel owns, in the order \<open>Close\<close> gives it back.\<close>

definition owned :: "'w state \<Rightarrow> int list" where
  "owned st = held (server_listen_pipe st) @ held (pipe st) @
     (if client_pipe st = - 1 then [] else case pipe_map st (pipe_name st) of None \<Rightarrow> [] | Some f \<Rightarrow> [f]) @
     held (fd_pipe st) @ held (remote_fd_pipe st) @
     concat (map owned_by_message (output_queue st)) @ input_overflow_fds st"

definition closed_state :: "'w state \<Rightarrow> 'w state" where
  "closed_state st = st\<lparr>server_listen_pipe := - 1, pipe := - 1, client_pipe := - 1, fd_pipe := - 1,
     remote_fd_pipe := - 1, output_queue := [], input_overflow_fds := [], listen_watch := None,
     read_watch := None, write_watch := None,
     pipe_map := (if client_pipe st = - 1 then pipe_map st else (pipe_map st)(pipe_name st := None))\<rparr>"

lemma PipeMap_RemoveAndClose_state: "PipeMap_RemoveAndClose os nm st =
    (close_fds os (case pipe_map st nm of None \<Rightarrow> [] | Some f \<Rightarrow> [f]) st)\<lparr>pipe_map := (pipe_map st)(nm := None)\<rparr>"
  by (auto simp: PipeMap_RemoveAndClose_def close_fds_def close_fd_def Let_def fun_upd_idem split: option.split)

lemma Close_sockets:
  assumes "\<not> uses_fifo st"
  shows "Close os st = (closed_state st)\<lparr>world := fold (os_close os) (owned st) (world st)\<rparr>"
  using assms by (simp add: Close_def Let_def close_pipe_state close_fds_state delete_messages_state
    PipeMap_RemoveAndClose_state closed_state_def owned_def)


text \<open>For the examples: an operating system in which nothing happens, a client that has connected, and
  a world that is the list of closed descriptors.\<close>

definition idle_os :: "'w os" where
  "idle_os = \<lparr>os_recv = (\<lambda>f c n w. (RecvFailed EAGAIN, w)), os_send = (\<lambda>f bs c w. (SendFailed EAGAIN, w)),
     os_close = (\<lambda>f w. w), os_dup = (\<lambda>f w. (f + 100, w)), os_socketpair = (\<lambda>w. (None, w)),
     os_socket = (\<lambda>w. (- 1, w)), os_nonblock = (\<lambda>f w. (True, w)), os_bind = (\<lambda>f nm w. (True, w)),
     os_listen = (\<lambda>f w. (True, w)), os_accept = (\<lambda>f w. (- 1, w)), os_connect = (\<lambda>f nm w. (True, w)),
     os_unlink = (\<lambda>nm w. w), os_is_dir = (\<lambda>f w. False), os_pid = 42, os_primary_channel = 3,
     input_buf_at = 4096, overflow_buf_at = (\<lambda>b. 65536), behind_buffer = [0, 0, 0],
     listener = (\<lambda>m w. (m, w))\<rparr>"

definition idle_channel :: "'w \<Rightarrow> 'w state" where
  "idle_channel w = \<lparr>mode = MODE_CLIENT, is_blocked_on_write = False, message_send_bytes_written = 0,
     uses_fifo = False, server_listen_pipe = - 1, pipe = 4, client_pipe = - 1, fd_pipe = 6, remote_fd_pipe = - 1,
     pipe_name = [1], output_queue = [], input_overflow_buf = [], input_overflow_fds = [],
     waiting_connect = False, listen_watch = None, read_watch = Some 4, write_watch = None,
     pipe_map = Map.empty, used_initial_channel = False, events = [], world = w\<rparr>"

lemma idle_channel_simps [simp]:
  "mode (idle_channel w) = MODE_CLIENT" "is_blocked_on_write (idle_channel w) = False"
  "message_send_bytes_written (idle_channel w) = 0" "uses_fifo (idle_channel w) = False"
  "server_listen_pipe (idle_channel w) = - 1" "pipe (idle_channel w) = 4" "client_pipe (idle_channel w) = - 1"
  "fd_pipe (idle_channel w) = 6" "remote_fd_pipe (idle_channel w) = - 1" "pipe_name (idle_channel w) = [1]"
  "output_queue (idle_channel w) = []" "input_overflow_buf (idle_channel w) = []"
  "input_overflow_fds (idle_channel w) = []" "waiting_connect (idle_channel w) = False"
  "pipe_map (idle_channel w) = Map.empty" "events (idle_channel w) = []" "world (idle_channel w) = w"
  by (simp_all add: idle_channel_def)


end
