(* ===== verification/Framing.thy ===== *)
theory Framing imports Message begin

text \<open>
  The byte stream of a channel as a sequence of frames: each is a 20-byte header whose first word is
  the size of the payload behind it. \<open>frames\<close> is the reference against which the reassembly in
  \<open>Channel::ChannelImpl::ProcessIncomingMessages\<close> is proved; the lemmas relate it to
  \<open>Message::FindNext\<close> and to the constructor of a received message.
\<close>

section \<open>Splitting a stream\<close>

definition frame_len :: "u8 list \<Rightarrow> nat" where
  "frame_len bs = 20 + le_nat (take 4 bs)"

text \<open>The frames that are complete, and the bytes of the partial one behind them.\<close>

function frames :: "u8 list \<Rightarrow> u8 list list \<times> u8 list" where
  "frames bs = (if 4 \<le> length bs \<and> frame_len bs \<le> length bs
     then (case frames (drop (frame_len bs) bs) of (fs, r) \<Rightarrow> (take (frame_len bs) bs # fs, r))
     else ([], bs))"
  by pat_completeness auto
termination by (relation "measure length") (auto simp: frame_len_def)

declare frames.simps [simp del]

definition whole :: "u8 list \<Rightarrow> bool" where
  "whole bs \<longleftrightarrow> 4 \<le> length bs \<and> frame_len bs \<le> length bs"

lemma frames_whole: "whole bs \<Longrightarrow> frames bs =
    (take (frame_len bs) bs # fst (frames (drop (frame_len bs) bs)), snd (frames (drop (frame_len bs) bs)))"
  by (subst frames.simps) (simp add: whole_def split_def)

lemma frames_partial: "\<not> whole bs \<Longrightarrow> frames bs = ([], bs)"
  by (subst frames.simps) (auto simp: whole_def)

lemma frame_len_append: "4 \<le> length bs \<Longrightarrow> frame_len (bs @ cs) = frame_len bs"
  by (simp add: frame_len_def)

lemma whole_append: "whole bs \<Longrightarrow> whole (bs @ cs)"
  by (simp add: whole_def frame_len_append)

text \<open>No byte is lost: the frames and the rest are the stream.\<close>

lemma frames_concat: "concat (fst (frames bs)) @ snd (frames bs) = bs"
proof (induction bs rule: frames.induct)
  case (1 bs)
  show ?case
  proof (cases "whole bs")
    case True
    then show ?thesis using 1 by (simp add: frames_whole) (simp add: whole_def)
  qed (simp add: frames_partial)
qed

lemma frames_rest_partial: "\<not> whole (snd (frames bs))"
proof (induction bs rule: frames.induct)
  case (1 bs)
  show ?case
  proof (cases "whole bs")
    case True
    then show ?thesis using 1 by (simp add: frames_whole) (simp add: whole_def)
  qed (simp add: frames_partial)
qed

text \<open>The frames of a stream do not depend on where it is cut.\<close>

lemma frames_append: "frames (bs @ cs) =
    (fst (frames bs) @ fst (frames (snd (frames bs) @ cs)), snd (frames (snd (frames bs) @ cs)))"
proof (induction bs rule: frames.induct)
  case (1 bs)
  show ?case
  proof (cases "whole bs")
    case True
    then have l: "4 \<le> length bs" "frame_len bs \<le> length bs" by (simp_all add: whole_def)
    then have "take (frame_len bs) (bs @ cs) = take (frame_len bs) bs"
      "drop (frame_len bs) (bs @ cs) = drop (frame_len bs) bs @ cs" by simp_all
    then show ?thesis using 1 [OF conjI [OF l]] frame_len_append [OF l(1), of cs]
      by (simp add: frames_whole [OF True] frames_whole [OF whole_append [OF True]])
  qed (simp add: frames_partial)
qed

lemma frames_length:
  assumes "f \<in> set (fst (frames bs))"
  shows "whole f" "length f = frame_len f" "length f \<le> length bs"
proof -
  have "whole f \<and> length f = frame_len f \<and> length f \<le> length bs" using assms
  proof (induction bs rule: frames.induct)
    case (1 bs)
    show ?case
    proof (cases "whole bs")
      case True
      then have l: "4 \<le> length bs" "frame_len bs \<le> length bs" by (simp_all add: whole_def)
      have "4 \<le> frame_len bs" by (simp add: frame_len_def)
      then have "frame_len (take (frame_len bs) bs) = frame_len bs" by (simp add: frame_len_def)
      then show ?thesis using 1 l True \<open>4 \<le> frame_len bs\<close>
        by (auto simp: frames_whole whole_def)
    qed (use 1 in \<open>simp add: frames_partial\<close>)
  qed
  then show "whole f" "length f = frame_len f" "length f \<le> length bs" by simp_all
qed

section \<open>\<open>FindNext\<close> on a buffer\<close>

text \<open>
  The loop calls \<open>FindNext\<close> on whatever is left in the buffer, and the size word is read even when
  fewer than four bytes are left; what lies behind the buffer does not matter.
\<close>

lemma Message_FindNext_buffer:
  assumes b: "3 \<le> length behind" "bs \<noteq> []" and a: "unat addr + length bs + 64 < 4294967296"
  shows "Message_FindNext (bs @ behind) addr (addr + word_of_nat (length bs)) =
    Some (if whole bs then addr + word_of_nat (frame_len bs) else 0)"
proof -
  let ?fin = "addr + word_of_nat (length bs)"
  have fin: "unat ?fin = unat addr + length bs"
    using a by (subst unat_add_lt) (simp_all add: unat_word_of_nat32)
  show ?thesis
  proof (cases "4 \<le> length bs")
    case True
    have "FindNext 20 (bs @ behind) addr ?fin = FindNext 20 bs addr ?fin"
      using True by (simp add: FindNext_def mload_def)
    also have "\<dots> = Some (if unat (20 :: u32) + le_nat (take 4 bs) \<le> length bs
        then addr + 20 + word_of_nat (le_nat (take 4 bs)) else 0)"
      using True a fin by (intro FindNext_spec) simp_all
    finally show ?thesis using True
      by (simp add: Message_FindNext_def sizeof_MessageHeader_def whole_def frame_len_def)
  next
    case False
    let ?h = "bytes_w32 (take 4 (bs @ behind))"
    have "4 \<le> length (bs @ behind)" using b False by (cases bs) auto
    then have l: "mload 0 4 (bs @ behind) = Some (take 4 (bs @ behind))" by (simp add: mload_def)
    have ub: "unat (addr + 20) = unat addr + 20" using a by (subst unat_add_lt) simp_all
    have "addr + 20 + ?h < addr + 20 \<or> addr + 20 + ?h > ?fin"
    proof (cases "addr + 20 + ?h < addr + 20")
      case False
      then have "unat addr + 20 \<le> unat (addr + 20 + ?h)" using ub by (simp add: word_less_nat_alt)
      then show ?thesis using fin \<open>\<not> 4 \<le> length bs\<close> by (simp add: word_less_nat_alt)
    qed simp
    then show ?thesis using l False
      by (auto simp: Message_FindNext_def sizeof_MessageHeader_def FindNext_def Let_def whole_def)
  qed
qed

section \<open>A frame as a message\<close>

text \<open>The header fields of a frame.\<close>

definition frame_fds :: "u8 list \<Rightarrow> nat" where
  "frame_fds f = unat (bytes_w16 (take 2 (drop 16 f)))"

definition frame_routing :: "u8 list \<Rightarrow> u32" where
  "frame_routing f = bytes_w32 (take 4 (drop 4 f))"

definition frame_type :: "u8 list \<Rightarrow> u32" where
  "frame_type f = bytes_w32 (take 4 (drop 8 f))"

lemma Message_const_frame:
  assumes f: "whole f" "length f = frame_len f"
    and a: "addr \<noteq> 0" "unat addr + length f + 4 < 4294967296" "length f < 2147483648"
  obtains m where "Message_const addr f = Some m" "msg_ok m" "wire m = Some f" "fd_set m = None"
    "num_fds m = Some (bytes_w16 (take 2 (drop 16 f)))" "routing_id m = Some (frame_routing f)"
    "msg_type m = Some (frame_type f)"
proof -
  define p :: pickle where "p = \<lparr>hdr = addr, hdr_mem = f, hdr_size = 20, capacity = kCapacityReadOnly,
    variable_buffer_offset = 0\<rparr>"
  let ?m = "as_message p None"
  have p: "hdr p = addr" "hdr_mem p = f" "hdr_size p = 20" by (simp_all add: p_def)
  have len: "20 + psize p = length f" using f(2) unfolding psize_def p(2) frame_len_def by (rule sym)
  then have ib: "in_block p" using a(1,2) unfolding in_block_def p by (intro conjI) simp_all
  have w: "wire p = Some f" using wire_in_block [OF ib] len by (simp add: p)
  obtain q where q: "Pickle_const addr f = Some q" "in_block q" "hdr_size q = hdr_size p" "hdr q = addr"
    using wire_received [OF ib _ w a] by (auto simp: p(3))
  have "hdr_mem q = f" "capacity q = kCapacityReadOnly" "variable_buffer_offset q = 0"
    using q(1,4) a(1) by (cases q; auto simp: Pickle_const_def Let_def bind_eq_Some_conv split: if_splits)+
  with q have c: "Pickle_const addr f = Some p" by (simp add: p_def)
  have ok: "msg_ok ?m" using ib by (simp add: msg_ok_def p(3))
  have e: "extra_header p = drop 4 (take 20 f)" by (simp add: extra_header_def p)
  show thesis
  proof (rule that [OF _ ok])
    show "Message_const addr f = Some ?m" using c by (simp add: Message_const_def)
    show "wire ?m = Some f"
      using wire_in_block [OF msg_okD(1) [OF ok]] len by (simp add: p)
    show "num_fds ?m = Some (bytes_w16 (take 2 (drop 16 f)))" "routing_id ?m = Some (frame_routing f)"
      "msg_type ?m = Some (frame_type f)"
      using header_fields [OF ok] by (simp_all add: e frame_routing_def frame_type_def drop_take)
  qed simp
qed

end
