(* ===== verification/ChannelIn.thy ===== *)
theory ChannelIn imports ChannelClose Framing begin

text \<open>
  The receiving side of a channel. The bytes of the pipe arrive in chunks that respect no boundary;
  \<open>ProcessIncomingMessages\<close> hands the listener exactly the frames of the stream, in order, and keeps
  the partial one. On hostile bytes a client never accesses memory outside its buffers, and a server
  aborts on a Hello message that names no descriptor.
\<close>

section \<open>The environment of a receiver\<close>

text \<open>
  The buffers of the process do not wrap around the address space, and the three bytes behind the
  data of a buffer can be read.
\<close>

definition buffers_ok :: "'w os \<Rightarrow> bool" where
  "buffers_ok os \<longleftrightarrow> 3 \<le> length (behind_buffer os) \<and> input_buf_at os \<noteq> 0 \<and>
     unat (input_buf_at os) + kReadBufferSize + 64 < 4294967296 \<and>
     (\<forall>b. length b \<le> kMaximumMessageSize \<longrightarrow> overflow_buf_at os b \<noteq> 0 \<and>
        unat (overflow_buf_at os b) + length b + 64 < 4294967296)"

text \<open>\<open>recvmsg\<close> never returns more than it was asked for.\<close>

definition recv_bounded :: "'w os \<Rightarrow> bool" where
  "recv_bounded os \<longleftrightarrow> (\<forall>f ctl n w data cs trunc w'.
     os_recv os f ctl n w = (Received data cs trunc, w') \<longrightarrow> length data \<le> n)"

text \<open>
  A socket that delivers the pending chunks one per read, without descriptors, then has no more data;
  and a listener that leaves the message and the socket alone.
\<close>

definition chunk_ok :: "u8 list \<Rightarrow> bool" where
  "chunk_ok c \<longleftrightarrow> c \<noteq> [] \<and> length c \<le> kReadBufferSize"

definition delivers_stream :: "'w os \<Rightarrow> ('w \<Rightarrow> u8 list list) \<Rightarrow> bool" where
  "delivers_stream os pending \<longleftrightarrow> buffers_ok os \<and>
     (\<forall>f ctl w c cs. pending w = c # cs \<and> chunk_ok c \<longrightarrow>
        fst (os_recv os f ctl kReadBufferSize w) = Received c [] False \<and>
        pending (snd (os_recv os f ctl kReadBufferSize w)) = cs) \<and>
     (\<forall>f ctl n w. pending w = [] \<longrightarrow> fst (os_recv os f ctl n w) = RecvFailed EAGAIN \<and>
        pending (snd (os_recv os f ctl n w)) = []) \<and>
     (\<forall>m w. fst (listener os m w) = m \<and> pending (snd (listener os m w)) = pending w)"

text \<open>What the listener was handed, as bytes.\<close>

definition event_bytes :: "event \<Rightarrow> u8 list option" where
  "event_bytes e = (case e of OnMessageReceived m \<Rightarrow> wire m | _ \<Rightarrow> None)"

definition received :: "'w state \<Rightarrow> u8 list option list" where
  "received st = map event_bytes (events st)"

text \<open>A frame that is an ordinary message without descriptors.\<close>

definition plain_frame :: "u8 list \<Rightarrow> bool" where
  "plain_frame f \<longleftrightarrow> frame_fds f = 0 \<and>
     \<not> (frame_routing f = MSG_ROUTING_NONE \<and> frame_type f = HELLO_MESSAGE_TYPE)"

section \<open>The loop over the messages of a buffer\<close>

lemma next_frame:
  assumes b: "3 \<le> length behind" and w: "whole buf"
    and a: "at \<noteq> 0" "unat at + length buf + 64 < 4294967296" "length buf < 2147483648"
  obtains m where
    "Message_FindNext (buf @ behind) at (at + word_of_nat (length buf)) = Some (at + word_of_nat (frame_len buf))"
    "at + word_of_nat (frame_len buf) \<noteq> (0 :: u32)" "unat (at + word_of_nat (frame_len buf)) = unat at + frame_len buf"
    "unat (at + word_of_nat (frame_len buf) - at) = frame_len buf"
    "Message_const at (take (frame_len buf) buf) = Some m" "msg_ok m" "wire m = Some (take (frame_len buf) buf)"
    "fd_set m = None" "num_fds m = Some (bytes_w16 (take 2 (drop 16 (take (frame_len buf) buf))))"
    "routing_id m = Some (frame_routing (take (frame_len buf) buf))"
    "msg_type m = Some (frame_type (take (frame_len buf) buf))"
proof -
  let ?f = "take (frame_len buf) buf"
  have l: "4 \<le> length buf" "frame_len buf \<le> length buf" using w by (simp_all add: whole_def)
  have f4: "4 \<le> frame_len buf" by (simp add: frame_len_def)
  then have "frame_len ?f = frame_len buf" by (simp add: frame_len_def)
  then have f: "whole ?f" "length ?f = frame_len ?f" using l f4 by (simp_all add: whole_def)
  have len: "length ?f \<le> length buf" by simp
  have "unat at + length ?f + 4 < 4294967296" "length ?f < 2147483648" using len a by linarith+
  then obtain m where m: "Message_const at ?f = Some m" "msg_ok m" "wire m = Some ?f" "fd_set m = None"
    "num_fds m = Some (bytes_w16 (take 2 (drop 16 ?f)))" "routing_id m = Some (frame_routing ?f)"
    "msg_type m = Some (frame_type ?f)"
    using Message_const_frame [OF f a(1)] by metis
  have fu: "frame_len buf < 4294967296" using l(2) a(3) by simp
  have u: "unat (at + word_of_nat (frame_len buf)) = unat at + frame_len buf"
    using l(2) a(2) by (subst unat_add_lt) (simp_all add: unat_word_of_nat32 fu)
  have nz: "at + word_of_nat (frame_len buf) \<noteq> (0 :: u32)" using u f4 by (metis add_is_0 not_numeral_le_zero unat_0)
  have "buf \<noteq> []" using l(1) by auto
  from Message_FindNext_buffer [OF b this a(2)] w
  have "Message_FindNext (buf @ behind) at (at + word_of_nat (length buf)) = Some (at + word_of_nat (frame_len buf))"
    by simp
  then show thesis using that [OF _ nz u _ m] fu by (simp add: unat_word_of_nat32)
qed

lemma plain_received:
  assumes D: "delivers_stream os pending" and m: "fd_set m = None" "routing_id m = Some r" "msg_type m = Some t"
    and p: "\<not> (r = MSG_ROUTING_NONE \<and> t = HELLO_MESSAGE_TYPE)"
  obtains w' where "receive_message os m st = Some (m, tell (OnMessageReceived m) (st\<lparr>world := w'\<rparr>))"
    "pending w' = pending (world st)"
proof -
  have "fst (listener os m (world st)) = m" "pending (snd (listener os m (world st))) = pending (world st)"
    using D by (simp_all add: delivers_stream_def)
  then obtain w' where "listener os m (world st) = (m, w')" "pending w' = pending (world st)"
    by (metis prod.collapse)
  then show thesis using m p by (intro that [of w']) (auto simp: receive_message_def is_hello_def)
qed

text \<open>What a run of the loop changes: the events and the world.\<close>

definition delivered :: "('w \<Rightarrow> u8 list list) \<Rightarrow> u8 list list \<Rightarrow> 'w state \<Rightarrow> 'w state \<Rightarrow> bool" where
  "delivered pending fs st st' \<longleftrightarrow> st' = st\<lparr>events := events st', world := world st'\<rparr> \<and>
     received st' = received st @ map Some fs \<and> pending (world st') = pending (world st)"

lemma delivered_none: "delivered pending [] st st"
  by (simp add: delivered_def)

lemma delivered_one:
  "wire m = Some f \<Longrightarrow> pending w = pending (world st) \<Longrightarrow>
    delivered pending [f] st (tell (OnMessageReceived m) (st\<lparr>world := w\<rparr>))"
  by (simp add: delivered_def tell_def received_def event_bytes_def)

lemma delivered_trans:
  assumes "delivered pending fs st st1" "delivered pending gs st1 st2"
  shows "delivered pending (fs @ gs) st st2"
proof -
  obtain e1 w1 e2 w2 where "st1 = st\<lparr>events := e1, world := w1\<rparr>" "st2 = st1\<lparr>events := e2, world := w2\<rparr>"
    using assms unfolding delivered_def by blast
  then have "st2 = st\<lparr>events := events st2, world := world st2\<rparr>" by simp
  then show ?thesis using assms by (simp add: delivered_def)
qed

lemma delivered_overflow: "delivered pending fs st st' \<Longrightarrow> input_overflow_fds st' = input_overflow_fds st"
  by (metis delivered_def state.surjective channel.surjective state.update_convs(3,4) channel.select_convs(13))

lemma messages_loop_frames:
  assumes D: "delivers_stream os pending"
  shows "at \<noteq> 0 \<Longrightarrow> unat at + length buf + 64 < 4294967296 \<Longrightarrow> length buf < 2147483648 \<Longrightarrow>
    \<forall>f \<in> set (fst (frames buf)). plain_frame f \<Longrightarrow> fds s = [] \<Longrightarrow> input_overflow_fds (inst s) = [] \<Longrightarrow>
    length buf < n \<Longrightarrow>
    \<exists>s'. messages_loop n os at buf s = Some (Inr (snd (frames buf), s')) \<and> fds s' = [] \<and>
      delivered pending (fst (frames buf)) (inst s) (inst s')"
proof (induction n arbitrary: "at" buf s)
  case 0
  then show ?case by simp
next
  case (Suc n)
  have b: "3 \<le> length (behind_buffer os)" using D by (simp add: delivers_stream_def buffers_ok_def)
  show ?case
  proof (cases "whole buf")
    case False
    have "Message_FindNext (buf @ behind_buffer os) at (at + word_of_nat (length buf)) = Some 0" if "buf \<noteq> []"
      using Message_FindNext_buffer [OF b that Suc.prems(2)] False by simp
    then show ?thesis using Suc.prems(5) by (simp add: frames_partial [OF False] delivered_none)
  next
    case True
    define k where "k = frame_len buf"
    define f where "f = take k buf"
    define nxt where "nxt = at + word_of_nat k"
    have fr: "fst (frames buf) = f # fst (frames (drop k buf))" "snd (frames buf) = snd (frames (drop k buf))"
      by (simp_all add: frames_whole [OF True] f_def k_def)
    have l: "4 \<le> k" "k \<le> length buf" "buf \<noteq> []" using True by (auto simp: whole_def k_def frame_len_def)
    obtain m where m: "Message_FindNext (buf @ behind_buffer os) at (at + word_of_nat (length buf)) = Some nxt"
      "nxt \<noteq> 0" "unat nxt = unat at + k" "unat (nxt - at) = k" "Message_const at f = Some m" "msg_ok m"
      "wire m = Some f" "fd_set m = None" "num_fds m = Some (bytes_w16 (take 2 (drop 16 f)))"
      "routing_id m = Some (frame_routing f)" "msg_type m = Some (frame_type f)"
      using next_frame [OF b True Suc.prems(1-3)] unfolding k_def [symmetric] f_def [symmetric] nxt_def [symmetric]
      by metis
    have p: "frame_fds f = 0" "\<not> (frame_routing f = MSG_ROUTING_NONE \<and> frame_type f = HELLO_MESSAGE_TYPE)"
      using Suc.prems(4) by (simp_all add: fr plain_frame_def)
    obtain w where w: "receive_message os m (inst s) =
        Some (m, tell (OnMessageReceived m) ((inst s)\<lparr>world := w\<rparr>))" "pending w = pending (world (inst s))"
      by (rule plain_received [OF D m(8,10,11) p(2)])
    define st1 where "st1 = tell (OnMessageReceived m) ((inst s)\<lparr>world := w\<rparr>)"
    have d1: "delivered pending [f] (inst s) st1" unfolding st1_def by (rule delivered_one [OF m(7) w(2)])
    then have o: "input_overflow_fds st1 = []" using delivered_overflow Suc.prems(6) by fastforce
    have "take_descriptors os (unat (bytes_w16 (take 2 (drop 16 f)))) m s = Inr (m, s)"
      using p(1) by (simp add: take_descriptors_def frame_fds_def)
    moreover have "(delete_message os m st1)\<lparr>input_overflow_fds := fds s\<rparr> = st1"
      using m(8) o Suc.prems(5) by (simp add: delete_message_def)
    ultimately have step: "messages_loop (Suc n) os at buf s = messages_loop n os nxt (drop k buf) (s\<lparr>inst := st1\<rparr>)"
      using l m w(1) by (simp add: f_def [symmetric] st1_def)
    have "\<exists>s'. messages_loop n os nxt (drop k buf) (s\<lparr>inst := st1\<rparr>) = Some (Inr (snd (frames (drop k buf)), s')) \<and>
        fds s' = [] \<and> delivered pending (fst (frames (drop k buf))) (inst (s\<lparr>inst := st1\<rparr>)) (inst s')"
      using Suc.prems l m(2,3) fr o by (intro Suc.IH) auto
    then show ?thesis using step delivered_trans [OF d1] fr by auto
  qed
qed

section \<open>One read\<close>

lemma receive_once_chunk:
  assumes D: "delivers_stream os pending" and c: "pending (world st) = c # cs" "chunk_ok c"
    and st: "pipe st \<noteq> - 1" "client_pipe st = - 1" "input_overflow_fds st = []"
    and len: "length (input_overflow_buf st @ c) \<le> kMaximumMessageSize"
    and p: "\<forall>f \<in> set (fst (frames (input_overflow_buf st @ c))). plain_frame f"
  obtains st' where "receive_once os st = Some (Inr st')"
    "st' = st\<lparr>input_overflow_buf := snd (frames (input_overflow_buf st @ c)), events := events st', world := world st'\<rparr>"
    "received st' = received st @ map Some (fst (frames (input_overflow_buf st @ c)))" "pending (world st') = cs"
proof -
  let ?o = "input_overflow_buf st"
  define buf where "buf = ?o @ c"
  define at where "at = (if ?o = [] then input_buf_at os else overflow_buf_at os buf)"
  have B: "buffers_ok os" and cne: "c \<noteq> []" "length c \<le> kReadBufferSize"
    using D c(2) by (simp_all add: delivers_stream_def chunk_ok_def)
  have lb: "length buf \<le> kMaximumMessageSize" using len by (simp add: buf_def)
  have at: "at \<noteq> 0" "unat at + length buf + 64 < 4294967296" "length buf < 2147483648"
  proof -
    show "at \<noteq> 0" using B lb by (simp add: at_def buffers_ok_def)
    show "unat at + length buf + 64 < 4294967296"
    proof (cases "?o = []")
      case True
      then show ?thesis using B cne by (simp add: at_def buffers_ok_def buf_def)
    next
      case False
      then show ?thesis using B lb by (simp add: at_def buffers_ok_def)
    qed
    show "length buf < 2147483648" using lb by (simp add: kMaximumMessageSize_def)
  qed
  let ?ctl = "\<not> fd_pipe st \<ge> 0"
  obtain w where r: "os_recv os (pipe st) ?ctl kReadBufferSize (world st) = (Received c [] False, w)"
    and w: "pending w = cs"
    using D c by (metis delivers_stream_def prod.collapse)
  obtain d ds where dd: "c = d # ds" using cne(1) by (cases c) auto
  define st2 where "st2 = (if ?o = [] then st\<lparr>world := w\<rparr> else st\<lparr>world := w, input_overflow_buf := buf\<rparr>)"
  define s where "s = \<lparr>inst = st2, wire_fds = [], fds = []\<rparr>"
  have "input_overflow_fds st2 = []" using st(3) by (simp add: st2_def)
  then obtain s' where s': "messages_loop (Suc (length buf)) os at buf s = Some (Inr (snd (frames buf), s'))"
    "fds s' = []" "delivered pending (fst (frames buf)) st2 (inst s')"
    using messages_loop_frames [OF D at, of s "Suc (length buf)"] p by (auto simp: s_def buf_def)
  define st' where "st' = (inst s')\<lparr>input_overflow_buf := snd (frames buf), input_overflow_fds := []\<rparr>"
  have "\<not> length ?o > kMaximumMessageSize - length c" using len by simp
  moreover have "buf = ?o @ d # ds" by (simp add: buf_def dd)
  ultimately have "receive_once os st = Some (Inr st')"
    using st r s'(1,2) unfolding dd
    by (cases "?o = []") (simp_all add: receive_once_def Let_def at_def st2_def s_def st'_def del: messages_loop.simps)
  moreover obtain e1 w1 where i: "inst s' = st2\<lparr>events := e1, world := w1\<rparr>"
    using s'(3) unfolding delivered_def by blast
  then have "st' = st\<lparr>input_overflow_buf := snd (frames buf), events := events st', world := world st'\<rparr>"
    using st(3) by (simp add: st'_def st2_def)
  moreover have "received st' = received st @ map Some (fst (frames buf))" "pending (world st') = cs"
    using s'(3) w by (simp_all add: delivered_def st'_def received_def st2_def split: if_splits)
  ultimately show thesis using that unfolding buf_def by blast
qed

section \<open>The stream\<close>

text \<open>No message of the stream is so large that the code would give up on it.\<close>

definition stream_ok :: "u8 list \<Rightarrow> bool" where
  "stream_ok bs \<longleftrightarrow>
     (\<forall>f \<in> set (fst (frames bs)). plain_frame f \<and> length f + kReadBufferSize \<le> kMaximumMessageSize) \<and>
     length (snd (frames bs)) + kReadBufferSize \<le> kMaximumMessageSize"

lemma partial_prefix_small:
  assumes "\<not> whole b" "stream_ok (b @ x)"
  shows "length b + kReadBufferSize \<le> kMaximumMessageSize"
proof (cases "whole (b @ x)")
  case False
  then show ?thesis using assms(2) by (simp add: stream_ok_def frames_partial)
next
  case True
  then have l: "frame_len (b @ x) \<le> length (b @ x)" by (simp add: whole_def)
  have "take (frame_len (b @ x)) (b @ x) \<in> set (fst (frames (b @ x)))"
    by (subst frames_whole [OF True]) simp
  then have "length (take (frame_len (b @ x)) (b @ x)) + kReadBufferSize \<le> kMaximumMessageSize"
    using assms(2) unfolding stream_ok_def by blast
  then have F: "frame_len (b @ x) + kReadBufferSize \<le> kMaximumMessageSize"
    unfolding length_take min_absorb2 [OF l] .
  show ?thesis
  proof (cases "4 \<le> length b")
    case True
    then have "length b < frame_len (b @ x)" using assms(1) by (simp add: whole_def frame_len_append)
    then show ?thesis using F by simp
  next
    case False
    then show ?thesis by (simp add: kReadBufferSize_def kMaximumMessageSize_def)
  qed
qed

lemma stream_ok_rest: "stream_ok (b @ x) \<Longrightarrow> stream_ok (snd (frames b) @ x)"
  by (simp add: stream_ok_def frames_append [of b x])

lemma stream_ok_plain: "stream_ok (b @ x) \<Longrightarrow> \<forall>f \<in> set (fst (frames b)). plain_frame f"
  by (simp add: stream_ok_def frames_append [of b x])

lemma process_stream:
  assumes D: "delivers_stream os pending"
  shows "pending (world st) = cs \<Longrightarrow> list_all chunk_ok cs \<Longrightarrow> pipe st \<noteq> - 1 \<Longrightarrow> client_pipe st = - 1 \<Longrightarrow>
    input_overflow_fds st = [] \<Longrightarrow> \<not> whole (input_overflow_buf st) \<Longrightarrow>
    stream_ok (input_overflow_buf st @ concat cs) \<Longrightarrow>
    \<exists>st'. ProcessIncomingMessages (Suc (length cs)) os st = Some (True, st') \<and>
      st' = st\<lparr>input_overflow_buf := snd (frames (input_overflow_buf st @ concat cs)), events := events st',
        world := world st'\<rparr> \<and>
      received st' = received st @ map Some (fst (frames (input_overflow_buf st @ concat cs))) \<and>
      pending (world st') = []"
proof (induction cs arbitrary: st)
  case Nil
  let ?ctl = "\<not> fd_pipe st \<ge> 0"
  obtain w where r: "os_recv os (pipe st) ?ctl kReadBufferSize (world st) = (RecvFailed EAGAIN, w)" "pending w = []"
    using D Nil.prems(1) by (metis delivers_stream_def prod.collapse)
  then have "receive_once os st = Some (Inl (True, st\<lparr>world := w\<rparr>))"
    using Nil.prems(3) by (simp add: receive_once_def Let_def)
  then show ?case using r(2) Nil.prems(6) by (simp add: frames_partial received_def)
next
  case (Cons c cs)
  let ?b = "input_overflow_buf st" and ?x = "concat cs"
  have st: "stream_ok ((?b @ c) @ ?x)" "chunk_ok c" using Cons.prems by simp_all
  have len: "length (?b @ c) \<le> kMaximumMessageSize"
    using partial_prefix_small [OF Cons.prems(6,7)] st(2) by (simp add: chunk_ok_def)
  obtain st1 where st1: "receive_once os st = Some (Inr st1)"
    "st1 = st\<lparr>input_overflow_buf := snd (frames (?b @ c)), events := events st1, world := world st1\<rparr>"
    "received st1 = received st @ map Some (fst (frames (?b @ c)))" "pending (world st1) = cs"
    by (rule receive_once_chunk [OF D Cons.prems(1) st(2) Cons.prems(3-5) len stream_ok_plain [OF st(1)]])
  obtain e1 w1 where e1: "st1 = st\<lparr>input_overflow_buf := snd (frames (?b @ c)), events := e1, world := w1\<rparr>"
    using st1(2) by blast
  obtain st' where st': "ProcessIncomingMessages (Suc (length cs)) os st1 = Some (True, st')"
    "st' = st1\<lparr>input_overflow_buf := snd (frames (snd (frames (?b @ c)) @ ?x)), events := events st', world := world st'\<rparr>"
    "received st' = received st1 @ map Some (fst (frames (snd (frames (?b @ c)) @ ?x)))" "pending (world st') = []"
    using Cons.IH [of st1] Cons.prems(2-5) st1(4) frames_rest_partial stream_ok_rest [OF st(1)] e1
    by (auto simp: list_all_iff)
  obtain e2 w2 where "st' = st1\<lparr>input_overflow_buf := snd (frames (snd (frames (?b @ c)) @ ?x)), events := e2, world := w2\<rparr>"
    using st'(2) by blast
  then have "st' = st\<lparr>input_overflow_buf := snd (frames (?b @ c @ ?x)), events := events st', world := world st'\<rparr>"
    using frames_append [of "?b @ c" ?x] e1 by simp
  moreover have "received st' = received st @ map Some (fst (frames (?b @ c @ ?x)))"
    using st'(3) st1(3) frames_append [of "?b @ c" ?x] by simp
  ultimately show ?case using st1(1) st'(1,4) by simp
qed


text \<open>A pipe whose world is the list of chunks to come.\<close>

definition pipe_os :: "u8 list list os" where
  "pipe_os = idle_os\<lparr>os_recv := \<lambda>f ctl n w. (case w of [] \<Rightarrow> (RecvFailed EAGAIN, []) | c # cs \<Rightarrow> (Received c [] False, cs))\<rparr>"

lemma pipe_os_stream: "delivers_stream pipe_os (\<lambda>w. w)"
  by (simp add: delivers_stream_def buffers_ok_def pipe_os_def idle_os_def kReadBufferSize_def kMaximumMessageSize_def)


end
