(* ===== verification/ChannelSafe.thy ===== *)
theory ChannelSafe imports ChannelIn begin

text \<open>
  A channel on hostile input: whatever bytes and descriptors the peer sends, a client, or a server on
  a named pipe, makes no access outside its buffers and fails no check; the bytes it keeps are
  bounded. A server on a socket pair has one check the peer can make fail.
\<close>

section \<open>Descriptors beside the bytes\<close>

lemma close_fds_keeps [simp]:
  "mode (close_fds os fs st) = mode st" "uses_fifo (close_fds os fs st) = uses_fifo st"
  by (simp_all add: close_fds_state)

lemma delete_message_keeps [simp]:
  "mode (delete_message os m st) = mode st" "uses_fifo (delete_message os m st) = uses_fifo st"
  by (simp_all add: delete_message_state)

lemma fetch_descriptors_keeps:
  assumes "fetch_descriptors os s = Inr s1"
  shows "mode (inst s1) = mode (inst s)" "uses_fifo (inst s1) = uses_fifo (inst s)"
  using assms by (auto simp: fetch_descriptors_def Let_def split: if_splits prod.splits recv_result.splits
    list.splits option.splits)

lemma take_descriptors_keeps:
  assumes "take_descriptors os n m s = Inr (m1, s1)"
  shows "\<exists>x. m1 = m\<lparr>fd_set := x\<rparr>" "mode (inst s1) = mode (inst s)" "uses_fifo (inst s1) = uses_fifo (inst s)"
proof -
  show "\<exists>x. m1 = m\<lparr>fd_set := x\<rparr>"
  proof (cases "n = 0")
    case True
    then have "m1 = m\<lparr>fd_set := fd_set m\<rparr>" using assms by (simp add: take_descriptors_def)
    then show ?thesis by blast
  next
    case False
    then have "\<exists>x. m1 = (EnsureFileDescriptorSet m)\<lparr>fd_set := x\<rparr>"
      using assms by (auto simp: take_descriptors_def split: sum.splits if_splits)
    then show ?thesis by (auto simp: EnsureFileDescriptorSet_def)
  qed
  show "mode (inst s1) = mode (inst s)" "uses_fifo (inst s1) = uses_fifo (inst s)"
    using assms by (auto simp: take_descriptors_def fetch_descriptors_keeps split: sum.splits if_splits)
qed

text \<open>
  When they are there, a message gets its descriptors from the front of those received, in order, and
  the rest stays for later messages; when they are not, the channel closes them all.
\<close>

lemma take_descriptors_enough:
  assumes "0 < n" "n \<le> length (fds s)" "n \<le> MAX_DESCRIPTORS_PER_MESSAGE" "fd_set m = None"
  shows "take_descriptors os n m s =
    Inr (m\<lparr>fd_set := Some (SetDescriptors (take n (fds s)) FileDescriptorSet_new)\<rparr>, s\<lparr>fds := drop n (fds s)\<rparr>)"
  using assms by (simp add: take_descriptors_def EnsureFileDescriptorSet_def file_descriptor_set_def)

lemma take_descriptors_short:
  assumes "uses_fifo (inst s)" "length (fds s) < n"
  shows "take_descriptors os n m s = Inl ((close_fds os (fds s) (inst s))\<lparr>input_overflow_fds := []\<rparr>)"
  using assms by (simp add: take_descriptors_def fetch_descriptors_def)

section \<open>No access outside the buffers\<close>

definition no_hello_check :: "'w state \<Rightarrow> bool" where
  "no_hello_check st \<longleftrightarrow> mode st \<noteq> MODE_SERVER \<or> uses_fifo st"

lemma msg_ok_fd_set [simp]: "msg_ok (m\<lparr>fd_set := s\<rparr>) = msg_ok m"
  by (simp add: msg_ok_def in_block_def psize_def)

lemma msg_ok_readable: "msg_ok m \<Longrightarrow> readable m"
  by (simp add: msg_ok_def readable_def)

lemma receive_message_safe:
  assumes "msg_ok m" "no_hello_check st"
  obtains m' st' where "receive_message os m st = Some (m', st')" "mode st' = mode st" "uses_fifo st' = uses_fifo st"
proof -
  obtain r t where h: "routing_id m = Some r" "msg_type m = Some t" using header_safe [OF assms(1)] by auto
  obtain pid it where p: "ReadInt m 0 = Some (pid, it)"
    using fixed_read_safe(1) [OF msg_ok_readable [OF assms(1)], of 0] by auto
  show thesis
  proof (cases "r = MSG_ROUTING_NONE \<and> t = HELLO_MESSAGE_TYPE")
    case True
    then show thesis using h p assms(2)
      by (intro that [of m "tell (OnChannelConnected pid) st"])
        (auto simp: receive_message_def is_hello_def receive_hello_def no_hello_check_def tell_def)
  next
    case False
    obtain m' w where "listener os m (world st) = (m', w)" by fastforce
    then show thesis using h False
      by (intro that [of m' "tell (OnMessageReceived m) (st\<lparr>world := w\<rparr>)"])
        (auto simp: receive_message_def is_hello_def tell_def)
  qed
qed

lemma messages_loop_safe:
  assumes b: "3 \<le> length (behind_buffer os)"
  shows "at \<noteq> 0 \<Longrightarrow> unat at + length buf + 64 < 4294967296 \<Longrightarrow> length buf < 2147483648 \<Longrightarrow>
    no_hello_check (inst s) \<Longrightarrow> length buf < n \<Longrightarrow>
    \<exists>r. messages_loop n os at buf s = Some r \<and> (\<forall>rest s'. r = Inr (rest, s') \<longrightarrow>
      length rest \<le> length buf \<and> mode (inst s') = mode (inst s) \<and> uses_fifo (inst s') = uses_fifo (inst s))"
proof (induction n arbitrary: "at" buf s)
  case 0
  then show ?case by simp
next
  case (Suc n)
  show ?case
  proof (cases "whole buf")
    case False
    then show ?thesis using Message_FindNext_buffer [OF b _ Suc.prems(2)] by simp
  next
    case True
    define k where "k = frame_len buf"
    define nxt where "nxt = at + word_of_nat k"
    obtain m where m: "Message_FindNext (buf @ behind_buffer os) at (at + word_of_nat (length buf)) = Some nxt"
      "nxt \<noteq> 0" "unat nxt = unat at + k" "unat (nxt - at) = k" "Message_const at (take k buf) = Some m" "msg_ok m"
      "num_fds m = Some (bytes_w16 (take 2 (drop 16 (take k buf))))"
      using next_frame [OF b True Suc.prems(1-3)] unfolding k_def [symmetric] nxt_def [symmetric] by metis
    have l: "4 \<le> k" "k \<le> length buf" "buf \<noteq> []" using True by (auto simp: whole_def k_def frame_len_def)
    let ?nf = "unat (bytes_w16 (take 2 (drop 16 (take k buf))))"
    show ?thesis
    proof (cases "take_descriptors os ?nf m s")
      case (Inl st)
      then show ?thesis using l m by simp
    next
      case (Inr p)
      then obtain m1 s1 where t: "take_descriptors os ?nf m s = Inr (m1, s1)" by (cases p) auto
      note k1 = take_descriptors_keeps [OF t]
      have ok: "msg_ok m1" using k1(1) m(6) by auto
      have nh: "no_hello_check (inst s1)" using Suc.prems(4) k1 by (simp add: no_hello_check_def)
      obtain m2 st where r: "receive_message os m1 (inst s1) = Some (m2, st)" "mode st = mode (inst s1)"
        "uses_fifo st = uses_fifo (inst s1)"
        by (rule receive_message_safe [OF ok nh])
      define st1 where "st1 = (delete_message os m2 st)\<lparr>input_overflow_fds := fds s1\<rparr>"
      have st1: "mode st1 = mode (inst s)" "uses_fifo st1 = uses_fifo (inst s)"
        using r k1 by (simp_all add: st1_def)
      have step: "messages_loop (Suc n) os at buf s = messages_loop n os nxt (drop k buf) (s1\<lparr>inst := st1\<rparr>)"
        using l m t r(1) by (simp add: st1_def)
      have "no_hello_check (inst (s1\<lparr>inst := st1\<rparr>))" using Suc.prems(4) st1 by (simp add: no_hello_check_def)
      then have "\<exists>r. messages_loop n os nxt (drop k buf) (s1\<lparr>inst := st1\<rparr>) = Some r \<and>
          (\<forall>rest s'. r = Inr (rest, s') \<longrightarrow> length rest \<le> length (drop k buf) \<and>
          mode (inst s') = mode (inst (s1\<lparr>inst := st1\<rparr>)) \<and> uses_fifo (inst s') = uses_fifo (inst (s1\<lparr>inst := st1\<rparr>)))"
        using Suc.prems l m(2,3) by (intro Suc.IH) simp_all
      then obtain r where R: "messages_loop n os nxt (drop k buf) (s1\<lparr>inst := st1\<rparr>) = Some r"
        "\<And>rest s'. r = Inr (rest, s') \<Longrightarrow> length rest \<le> length (drop k buf) \<and>
          mode (inst s') = mode st1 \<and> uses_fifo (inst s') = uses_fifo st1"
        by auto
      have "length rest \<le> length buf \<and> mode (inst s') = mode (inst s) \<and> uses_fifo (inst s') = uses_fifo (inst s)"
        if "r = Inr (rest, s')" for rest s'
        using R(2) [OF that] st1 by auto
      then show ?thesis unfolding step using R(1) by blast
    qed
  qed
qed

lemma PipeMap_RemoveAndClose_keeps [simp]:
  "mode (PipeMap_RemoveAndClose os nm st) = mode st" "uses_fifo (PipeMap_RemoveAndClose os nm st) = uses_fifo st"
  "input_overflow_buf (PipeMap_RemoveAndClose os nm st) = input_overflow_buf st"
  by (simp_all add: PipeMap_RemoveAndClose_state close_fds_state)

lemma receive_once_data:
  assumes B: "buffers_ok os" and p: "pipe st \<noteq> - 1"
    and r: "os_recv os (pipe st) (\<not> fd_pipe st \<ge> 0) kReadBufferSize (world st) = (Received (d # ds) ctl trunc, w)"
    and len: "length (d # ds) \<le> kReadBufferSize" and nh: "no_hello_check st"
  shows "\<exists>r. receive_once os st = Some r \<and> (\<forall>st'. r = Inr st' \<longrightarrow>
    mode st' = mode st \<and> uses_fifo st' = uses_fifo st \<and> length (input_overflow_buf st') \<le> kMaximumMessageSize)"
proof -
  define st0 where "st0 = st\<lparr>world := w\<rparr>"
  define st1 where "st1 = (if client_pipe st0 \<noteq> - 1
    then (PipeMap_RemoveAndClose os (pipe_name st0) st0)\<lparr>client_pipe := - 1\<rparr> else st0)"
  define wfds where "wfds = (if fd_pipe st0 \<ge> 0 then None else rights ctl)"
  define num_wire where "num_wire = (case wfds of None \<Rightarrow> [] | Some fs \<Rightarrow> fs)"
  define buf where "buf = input_overflow_buf st1 @ d # ds"
  define st2 where "st2 = (if input_overflow_buf st1 = [] then st1 else st1\<lparr>input_overflow_buf := buf\<rparr>)"
  define at where "at = (if input_overflow_buf st1 = [] then input_buf_at os else overflow_buf_at os buf)"
  define s where "s = (if input_overflow_fds st2 = []
    then \<lparr>inst = st2, wire_fds = num_wire, fds = num_wire\<rparr>
    else \<lparr>inst = st2\<lparr>input_overflow_fds := input_overflow_fds st2 @ num_wire\<rparr>,
      wire_fds = num_wire, fds = input_overflow_fds st2 @ num_wire\<rparr>)"
  have once: "receive_once os st =
      (if wfds \<noteq> None \<and> trunc then Some (Inl (False, close_fds os num_wire st1))
       else if input_overflow_buf st1 \<noteq> [] \<and> length (input_overflow_buf st1) > kMaximumMessageSize - length (d # ds)
       then Some (Inl (False, st1\<lparr>input_overflow_buf := []\<rparr>))
       else do {
         r \<leftarrow> messages_loop (Suc (length buf)) os at buf s;
         case r of
           Inl st3 \<Rightarrow> Some (Inl (False, st3))
         | Inr (rest, s1) \<Rightarrow>
             (let st3 = (inst s1)\<lparr>input_overflow_buf := rest, input_overflow_fds := fds s1\<rparr>
              in Some (if rest = [] \<and> fds s1 \<noteq> [] then Inl (False, st3) else Inr st3)) })"
    unfolding receive_once_def r Let_def st0_def st1_def wfds_def num_wire_def buf_def st2_def at_def s_def
    using p by (simp del: messages_loop.simps)
  have st1: "mode st1 = mode st" "uses_fifo st1 = uses_fifo st"
    by (simp_all add: st1_def st0_def)
  have s: "mode (inst s) = mode st" "uses_fifo (inst s) = uses_fifo st"
    using st1 by (simp_all add: s_def st2_def)
  show ?thesis
  proof (cases "wfds \<noteq> None \<and> trunc \<or>
      input_overflow_buf st1 \<noteq> [] \<and> length (input_overflow_buf st1) > kMaximumMessageSize - length (d # ds)")
    case True
    then show ?thesis unfolding once by auto
  next
    case False
    have "input_overflow_buf st1 = [] \<or> length (input_overflow_buf st1) \<le> kMaximumMessageSize - length (d # ds)"
      using False by (metis leI)
    then have lb: "length buf \<le> kMaximumMessageSize"
      using len by (cases "input_overflow_buf st1 = []")
        (simp_all add: buf_def kMaximumMessageSize_def kReadBufferSize_def)
    have at: "at \<noteq> 0" "unat at + length buf + 64 < 4294967296"
    proof -
      show "at \<noteq> 0" using B lb by (simp add: at_def buffers_ok_def)
      show "unat at + length buf + 64 < 4294967296"
      proof (cases "input_overflow_buf st1 = []")
        case True
        then show ?thesis using B len by (simp add: at_def buffers_ok_def buf_def)
      next
        case False
        then show ?thesis using B lb by (simp add: at_def buffers_ok_def)
      qed
    qed
    have b3: "3 \<le> length (behind_buffer os)" using B by (simp add: buffers_ok_def)
    have nh': "no_hello_check (inst s)" using nh s by (simp add: no_hello_check_def)
    have "length buf < 2147483648" using lb by (simp add: kMaximumMessageSize_def)
    from messages_loop_safe [OF b3 at this nh' lessI]
    obtain r where r: "messages_loop (Suc (length buf)) os at buf s = Some r" "\<forall>rest s'. r = Inr (rest, s') \<longrightarrow>
        length rest \<le> length buf \<and> mode (inst s') = mode (inst s) \<and> uses_fifo (inst s') = uses_fifo (inst s)"
      by blast
    show ?thesis
    proof (cases r)
      case (Inl st3)
      then show ?thesis using False r(1) unfolding once by auto
    next
      case (Inr p)
      then obtain rest s' where "r = Inr (rest, s')" by (cases p) auto
      then show ?thesis using False r s lb unfolding once by (auto simp: Let_def simp del: messages_loop.simps)
    qed
  qed
qed



section \<open>The Hello message of a client\<close>

lemma hello_loop:
  assumes b: "3 \<le> length (behind_buffer os)" and w: "whole buf"
    and a: "at \<noteq> 0" "unat at + length buf + 64 < 4294967296" "length buf < 2147483648"
    and f: "frame_fds (take (frame_len buf) buf) = 0" "frame_routing (take (frame_len buf) buf) = MSG_ROUTING_NONE"
      "frame_type (take (frame_len buf) buf) = HELLO_MESSAGE_TYPE"
    and s: "mode (inst s) = MODE_SERVER" "\<not> uses_fifo (inst s)"
  shows "messages_loop (Suc n) os at buf s = None"
proof -
  define k where "k = frame_len buf"
  define nxt where "nxt = at + word_of_nat k"
  obtain m where m: "Message_FindNext (buf @ behind_buffer os) at (at + word_of_nat (length buf)) = Some nxt"
    "nxt \<noteq> 0" "unat (nxt - at) = k" "Message_const at (take k buf) = Some m" "msg_ok m" "fd_set m = None"
    "num_fds m = Some (bytes_w16 (take 2 (drop 16 (take k buf))))"
    "routing_id m = Some (frame_routing (take k buf))" "msg_type m = Some (frame_type (take k buf))"
    using next_frame [OF b w a] unfolding k_def [symmetric] nxt_def [symmetric] by metis
  have l: "buf \<noteq> []" using w by (auto simp: whole_def)
  have t: "take_descriptors os (unat (bytes_w16 (take 2 (drop 16 (take k buf))))) m s = Inr (m, s)"
    using f(1) by (simp add: take_descriptors_def frame_fds_def k_def)
  note rd = msg_ok_readable [OF m(5)]
  obtain pid it where p: "ReadInt m 0 = Some (pid, it)" using fixed_read_safe(1) [OF rd, of 0] by auto
  obtain i it2 where i: "ReadInt m it = Some (i, it2)" using fixed_read_safe(1) [OF rd, of it] by auto
  have "receive_message os m (inst s) = None"
    using m(6,8,9) f(2,3) s p i
    by (simp add: receive_message_def is_hello_def receive_hello_def k_def split: option.split)
  then show ?thesis using l m t by simp
qed

text \<open>
  C15: a client can stop its server: when the first message a server on a socket pair reads is a
  Hello that names no descriptor, the check of the received descriptor fails.
\<close>

theorem hello_without_descriptor_aborts:
  assumes "buffers_ok os" "pipe st \<noteq> - 1" "mode st = MODE_SERVER" "\<not> uses_fifo st" "input_overflow_buf st = []"
    and "os_recv os (pipe st) (\<not> fd_pipe st \<ge> 0) kReadBufferSize (world st) = (Received data ctl False, w)"
    and "whole data" "length data \<le> kReadBufferSize" "frame_fds (take (frame_len data) data) = 0"
    and "frame_routing (take (frame_len data) data) = MSG_ROUTING_NONE"
    and "frame_type (take (frame_len data) data) = HELLO_MESSAGE_TYPE"
  shows "receive_once os st = None"
proof -
  obtain d ds where d: "data = d # ds" using assms(7) by (cases data) (auto simp: whole_def)
  have b: "3 \<le> length (behind_buffer os)" "input_buf_at os \<noteq> 0"
    "unat (input_buf_at os) + length data + 64 < 4294967296" "length data < 2147483648"
    using assms(1,8) by (simp_all add: buffers_ok_def kReadBufferSize_def)
  have "messages_loop (Suc n) os (input_buf_at os) data s = None"
    if "mode (inst s) = MODE_SERVER" "\<not> uses_fifo (inst s)" for s and n
    by (rule hello_loop [OF b(1) assms(7) b(2-4) assms(9-11) that])
  then have none: "messages_loop (Suc n) os (input_buf_at os) (d # ds) s = None"
    if "mode (inst s) = MODE_SERVER" "\<not> uses_fifo (inst s)" for s and n
    using that d by blast
  show ?thesis
    using assms(2-6) unfolding d
    by (simp add: receive_once_def Let_def none del: messages_loop.simps)
qed

theorem hello_without_descriptor_aborts_witness:
  "receive_once pipe_os ((idle_channel [[4, 0, 0, 0, 254, 255, 255, 255, 255, 255, 0, 0, 2, 0, 0, 0, 0, 0, 0, 0,
      57, 48, 0, 0]])\<lparr>mode := MODE_SERVER\<rparr>) = None"
proof -
  let ?data = "[4, 0, 0, 0, 254, 255, 255, 255, 255, 255, 0, 0, 2, 0, 0, 0, 0, 0, 0, 0, 57, 48, 0, 0] :: u8 list"
  have k: "frame_len ?data = 24" by (simp add: frame_len_def)
  have f: "whole ?data" "frame_fds (take (frame_len ?data) ?data) = 0"
    "frame_routing (take (frame_len ?data) ?data) = MSG_ROUTING_NONE"
    "frame_type (take (frame_len ?data) ?data) = HELLO_MESSAGE_TYPE"
    unfolding k by (simp_all add: whole_def k frame_fds_def frame_routing_def frame_type_def bytes_w16_def
      bytes_w32_def MSG_ROUTING_NONE_def HELLO_MESSAGE_TYPE_def)
  have B: "buffers_ok pipe_os" using pipe_os_stream by (simp add: delivers_stream_def)
  let ?st = "(idle_channel [?data])\<lparr>mode := MODE_SERVER\<rparr>"
  have st: "pipe ?st \<noteq> - 1" "mode ?st = MODE_SERVER" "\<not> uses_fifo ?st" "input_overflow_buf ?st = []"
    by simp_all
  have r: "os_recv pipe_os (pipe ?st) (\<not> fd_pipe ?st \<ge> 0) kReadBufferSize (world ?st) = (Received ?data [] False, [])"
    by (simp add: pipe_os_def)
  have l: "length ?data \<le> kReadBufferSize" by (simp add: kReadBufferSize_def)
  show ?thesis
    by (rule hello_without_descriptor_aborts [OF B st r f(1) l f(2-4)])
qed

end
