(* ===== verification/ChannelOut.thy ===== *)
theory ChannelOut imports ChannelClose begin

text \<open>
  The sending side of a channel. The kernel may take any part of what it is offered, or nothing;
  whatever it does, the bytes that reach the pipe and the bytes still to be sent are together the
  queued messages in order: none is lost, repeated or reordered.
\<close>

section \<open>The bytes of a queued message\<close>

text \<open>The header says how many descriptors go with the message once it is first sent.\<close>

definition outgoing :: "message \<Rightarrow> message option" where
  "outgoing m = (let m0 = EnsureFileDescriptorSet m; s = file_descriptor_set m0 in
     if fds_empty s then Some m0 else set_num_fds (word_of_nat (fds_size s)) m0)"

definition msg_bytes :: "message \<Rightarrow> u8 list" where
  "msg_bytes m = (case Option.bind (outgoing m) wire of Some b \<Rightarrow> b | None \<Rightarrow> [])"

lemma fd_set_bytes [simp]:
  "msg_ok (m\<lparr>fd_set := s\<rparr>) = msg_ok m" "wire (m\<lparr>fd_set := s\<rparr>) = wire m" "psize (m\<lparr>fd_set := s\<rparr>) = psize m"
  by (simp_all add: msg_ok_def in_block_def psize_def wire_def pickle_size_def payload_size_def pload_def)

lemma Ensure_views [simp]:
  "msg_ok (EnsureFileDescriptorSet m) = msg_ok m" "wire (EnsureFileDescriptorSet m) = wire m"
  "EnsureFileDescriptorSet (EnsureFileDescriptorSet m) = EnsureFileDescriptorSet m"
  "file_descriptor_set (EnsureFileDescriptorSet m) = file_descriptor_set m"
  "psize (EnsureFileDescriptorSet m) = psize m"
  by (auto simp: EnsureFileDescriptorSet_def file_descriptor_set_def psize_def)

lemma set_num_fds_ok:
  assumes "msg_ok m"
  obtains m' where "set_num_fds n m = Some m'" "msg_ok m'" "fd_set m' = fd_set m" "psize m' = psize m"
    "set_num_fds n m' = Some m'"
proof -
  let ?mem = "take 16 (hdr_mem m) @ w16_bytes n @ drop 18 (hdr_mem m)"
  have l: "20 \<le> length (hdr_mem m)" using msg_okD [OF assms] by simp
  have 1: "set_num_fds n m = Some (m\<lparr>hdr_mem := ?mem\<rparr>)"
    using l by (simp add: set_num_fds_def set_field16_def pstore_def mstore_def)
  have 2: "set_num_fds n (m\<lparr>hdr_mem := ?mem\<rparr>) = Some (m\<lparr>hdr_mem := ?mem\<rparr>)"
    using l by (simp add: set_num_fds_def set_field16_def pstore_def mstore_def)
  obtain r t f k where "header_of m = Some (r, t, f, k)" using header_of_ok [OF assms] by blast
  then obtain m' where "set_num_fds n m = Some m'" "same_payload m m'"
    using set_header_fields(4) [OF assms, of r t f k n] unfolding set_num_fds_def by blast
  then have sp: "same_payload m (m\<lparr>hdr_mem := ?mem\<rparr>)" using 1 by simp
  show thesis
    by (rule that [OF 1 _ _ _ 2]) (use assms same_payload_ok [OF sp] same_payload_more [OF sp] in simp_all)
qed

lemma outgoing_ok:
  assumes "msg_ok m"
  obtains m1 where "outgoing m = Some m1" "msg_ok m1" "wire m1 = Some (msg_bytes m)" "msg_bytes m1 = msg_bytes m"
    "file_descriptor_set m1 = file_descriptor_set m" "EnsureFileDescriptorSet m1 = m1" "psize m1 = psize m"
proof -
  let ?m0 = "EnsureFileDescriptorSet m" and ?n = "word_of_nat (fds_size (file_descriptor_set m)) :: u16"
  have e: "fd_set ?m0 \<noteq> None" by (auto simp: EnsureFileDescriptorSet_def)
  have "\<exists>m1. outgoing m = Some m1 \<and> msg_ok m1 \<and> outgoing m1 = Some m1 \<and> fd_set m1 = fd_set ?m0 \<and> psize m1 = psize m"
  proof (cases "fds_empty (file_descriptor_set m)")
    case True
    then show ?thesis using assms by (intro exI [of _ ?m0]) (simp add: outgoing_def)
  next
    case False
    obtain m1 where m1: "set_num_fds ?n ?m0 = Some m1" "msg_ok m1" "fd_set m1 = fd_set ?m0" "psize m1 = psize ?m0"
      "set_num_fds ?n m1 = Some m1"
      using set_num_fds_ok [of ?m0 ?n] assms by auto
    have "EnsureFileDescriptorSet m1 = m1" using e m1(3) by (simp add: EnsureFileDescriptorSet_def)
    moreover have "file_descriptor_set m1 = file_descriptor_set ?m0"
      using m1(3) by (simp add: file_descriptor_set_def EnsureFileDescriptorSet_def)
    ultimately show ?thesis using m1 False by (intro exI [of _ m1]) (simp add: outgoing_def)
  qed
  then obtain m1 where m1: "outgoing m = Some m1" "msg_ok m1" "outgoing m1 = Some m1" "fd_set m1 = fd_set ?m0"
    "psize m1 = psize m" by blast
  obtain b where b: "wire m1 = Some b"
    using wire_in_block [OF msg_okD(1) [OF m1(2)]] by blast
  have "file_descriptor_set m1 = file_descriptor_set ?m0" "EnsureFileDescriptorSet m1 = m1"
    using m1(4) e by (simp_all add: file_descriptor_set_def EnsureFileDescriptorSet_def)
  then show thesis using m1 b by (intro that [of m1]) (simp_all add: msg_bytes_def)
qed

lemma length_msg_bytes:
  assumes "msg_ok m"
  shows "length (msg_bytes m) = 20 + psize m"
proof -
  obtain m1 where m1: "outgoing m = Some m1" "msg_ok m1" "wire m1 = Some (msg_bytes m)" "msg_bytes m1 = msg_bytes m"
    "file_descriptor_set m1 = file_descriptor_set m" "EnsureFileDescriptorSet m1 = m1" "psize m1 = psize m"
    by (rule outgoing_ok [OF assms])
  show ?thesis
    using wire_in_block [OF msg_okD(1) [OF m1(2)]] m1(3) msg_okD(2,3) [OF m1(2)] by (simp add: m1(7))
qed

lemma msg_bytes_nonempty: "msg_ok m \<Longrightarrow> msg_bytes m \<noteq> []"
  using length_msg_bytes [of m] by auto

text \<open>A message whose descriptors have gone.\<close>

lemma CommitAll_message_ok:
  assumes "msg_ok m" "wire m = Some b"
  obtains m2 closed where "CommitAll_message os m st = (m2, close_fds os closed st)" "msg_ok m2" "wire m2 = Some b" "msg_bytes m2 = b"
    "fds_empty (file_descriptor_set m2)"
proof -
  obtain closed where c: "CommitAll (file_descriptor_set m) = (closed, \<lparr>descriptors_of = [], highwater = 0\<rparr>)"
    by (simp add: CommitAll_def)
  let ?m2 = "(EnsureFileDescriptorSet m)\<lparr>fd_set := Some \<lparr>descriptors_of = [], highwater = 0\<rparr>\<rparr>"
  have e: "EnsureFileDescriptorSet ?m2 = ?m2" by (simp add: EnsureFileDescriptorSet_def)
  have f: "fds_empty (file_descriptor_set ?m2)"
    by (simp add: fds_empty_def file_descriptor_set_def EnsureFileDescriptorSet_def)
  then have "outgoing ?m2 = Some ?m2" by (simp add: outgoing_def e)
  then have "msg_bytes ?m2 = b" using assms(2) by (simp add: msg_bytes_def)
  then show thesis using assms f c by (intro that [of ?m2 closed]) (simp_all add: CommitAll_message_def)
qed

section \<open>The environment of a sender\<close>

text \<open>
  \<open>sent f\<close> is what has gone into the socket \<open>f\<close>: a call takes a prefix of what it is offered or fails
  and takes nothing, and no other call puts anything in.
\<close>

definition takes_prefix :: "'w os \<Rightarrow> (int \<Rightarrow> 'w \<Rightarrow> u8 list) \<Rightarrow> bool" where
  "takes_prefix os sent \<longleftrightarrow>
     (\<forall>f bs ctl w n w'. os_send os f bs ctl w = (Sent n, w') \<longrightarrow>
        n \<le> length bs \<and> sent f w' = sent f w @ take n bs \<and> (\<forall>g. g \<noteq> f \<longrightarrow> sent g w' = sent g w)) \<and>
     (\<forall>f bs ctl w e w'. os_send os f bs ctl w = (SendFailed e, w') \<longrightarrow> (\<forall>g. sent g w' = sent g w)) \<and>
     (\<forall>f g w. sent g (os_close os f w) = sent g w) \<and>
     (\<forall>nm g w. sent g (os_unlink os nm w) = sent g w)"

lemma sent_close_fds:
  assumes "takes_prefix os sent"
  shows "sent g (world (close_fds os fs st)) = sent g (world st)"
proof -
  have "sent g (fold (os_close os) fs w) = sent g w" for w
    using assms by (induction fs arbitrary: w) (simp_all add: takes_prefix_def)
  then show ?thesis by (simp add: close_fds_state)
qed

lemma sent_Close:
  assumes "takes_prefix os sent"
  shows "sent g (world (Close os st)) = sent g (world st)"
proof -
  have u: "sent g (os_unlink os nm w) = sent g w" for nm w using assms by (simp add: takes_prefix_def)
  have p: "world (PipeMap_RemoveAndClose os nm s) = world (close_fds os (case pipe_map s nm of None \<Rightarrow> [] | Some f \<Rightarrow> [f]) s)"
    for nm s by (simp add: PipeMap_RemoveAndClose_state)
  show ?thesis
    by (simp add: Close_def Let_def close_pipe_state delete_messages_state sent_close_fds [OF assms] u p)
qed

section \<open>One round\<close>

text \<open>
  The first part of a round: the descriptors may go ahead on their own socket. It leaves the bytes of
  the message as they are and nothing on the pipe.
\<close>

lemma send_descriptors_ok:
  assumes S: "takes_prefix os sent" and dir: "\<forall>f w. \<not> os_is_dir os f w" and m: "msg_ok m"
    and f: "fd_pipe st \<noteq> p"
    and k: "message_send_bytes_written st = 0 \<or> fds_empty (file_descriptor_set m)"
  obtains m1 ctl r w where "send_descriptors os m st = Some (m1, ctl, r, st\<lparr>world := w\<rparr>)" "msg_ok m1"
    "wire m1 = Some (msg_bytes m)" "msg_bytes m1 = msg_bytes m" "sent p w = sent p (world st)"
    "(\<exists>e. r = SendFailed e) \<or> r = Sent 0 \<or> r = Sent 1"
    "fds_empty (file_descriptor_set m) \<longrightarrow> fds_empty (file_descriptor_set m1)"
proof -
  let ?m0 = "EnsureFileDescriptorSet m" and ?s = "file_descriptor_set m"
  obtain m1 where m1: "outgoing m = Some m1" "msg_ok m1" "wire m1 = Some (msg_bytes m)" "msg_bytes m1 = msg_bytes m"
    "file_descriptor_set m1 = ?s" "EnsureFileDescriptorSet m1 = m1" "psize m1 = psize m"
    by (rule outgoing_ok [OF m])
  show thesis
  proof (cases "fds_empty ?s")
    case True
    then have "m1 = ?m0" using m1(1) by (simp add: outgoing_def)
    then show thesis using that [of m1 None "Sent 1" "world st"] m1 True by (simp add: send_descriptors_def)
  next
    case False
    then have k0: "message_send_bytes_written st = 0" using k by simp
    have n: "set_num_fds (word_of_nat (fds_size ?s)) ?m0 = Some m1" using m1(1) False by (simp add: outgoing_def)
    have d: "\<not> ContainsDirectoryDescriptor (\<lambda>f. os_is_dir os f (world st)) ?s"
      using dir by (simp add: ContainsDirectoryDescriptor_def list_ex_iff)
    obtain hello where h: "is_hello m1 = Some hello"
      using header_safe [OF m1(2)] by (auto simp: is_hello_def)
    show thesis
    proof (cases "\<not> uses_fifo st \<and> \<not> hello")
      case direct: False
      then have "send_descriptors os m st = Some (m1, Some (GetDescriptors ?s), Sent 1, st)"
        using False k0 d n h direct by (auto simp: send_descriptors_def Let_def)
      then show thesis using that [of m1 "Some (GetDescriptors ?s)" "Sent 1" "world st"] m1 False by simp
    next
      case ahead: True
      obtain r w where r: "os_send os (fd_pipe st) [0] (Some (GetDescriptors ?s)) (world st) = (r, w)" by fastforce
      show thesis
      proof (cases r)
        case (SendFailed e)
        then have "send_descriptors os m st = Some (m1, None, r, st\<lparr>world := w\<rparr>)"
          using False k0 d n h ahead r by (simp add: send_descriptors_def Let_def)
        moreover have "sent p w = sent p (world st)" using S r SendFailed unfolding takes_prefix_def by blast
        ultimately show thesis using that [of m1 None r w] m1 False SendFailed by simp
      next
        case (Sent n)
        then have sp: "n \<le> 1" "sent p w = sent p (world st)"
          using S r f unfolding takes_prefix_def by fastforce+
        show thesis
        proof (cases "n = 0")
          case True
          then have "send_descriptors os m st = Some (m1, None, r, st\<lparr>world := w\<rparr>)"
            using False k0 d n h ahead r Sent by (simp add: send_descriptors_def Let_def)
          then show thesis using that [of m1 None r w] m1 False Sent True sp by simp
        next
          case n1: False
          obtain m2 closed where c: "CommitAll_message os m1 (st\<lparr>world := w\<rparr>) = (m2, close_fds os closed (st\<lparr>world := w\<rparr>))"
            "msg_ok m2" "wire m2 = Some (msg_bytes m)" "msg_bytes m2 = msg_bytes m" "fds_empty (file_descriptor_set m2)"
            by (rule CommitAll_message_ok [OF m1(2,3)])
          have "send_descriptors os m st = Some (m2, None, r, close_fds os closed (st\<lparr>world := w\<rparr>))"
            using False k0 d n h ahead r Sent n1 c(1) by (simp add: send_descriptors_def Let_def)
          then show thesis
            using that [of m2 None r "fold (os_close os) closed w"] c Sent n1 sp
              sent_close_fds [OF S, of p closed "st\<lparr>world := w\<rparr>"] by (simp add: close_fds_state)
        qed
      qed
    qed
  qed
qed

text \<open>
  What is assumed of the channel before a round and kept by it. \<open>Hello\<close> messages are not replaced
  (no \<open>remote_fd_pipe_\<close>), and a message that has been sent in part has no descriptors left.
\<close>

definition sending :: "int \<Rightarrow> 'w state \<Rightarrow> bool" where
  "sending p st \<longleftrightarrow> pipe st = p \<and> fd_pipe st \<noteq> p \<and> remote_fd_pipe st = - 1 \<and> list_all msg_ok (output_queue st) \<and>
     (case output_queue st of [] \<Rightarrow> message_send_bytes_written st = 0
      | m # ms \<Rightarrow> message_send_bytes_written st < length (msg_bytes m) \<and>
          (message_send_bytes_written st = 0 \<or> fds_empty (file_descriptor_set m)))"

definition to_send :: "'w state \<Rightarrow> u8 list" where
  "to_send st = drop (message_send_bytes_written st) (concat (map msg_bytes (output_queue st)))"

lemma pickle_size_ok:
  assumes "msg_ok m"
  obtains n where "pickle_size m = Some n" "unat n = length (msg_bytes m)"
proof -
  have ib: "in_block m" and h: "hdr_size m = 20" and l: "20 + psize m \<le> length (hdr_mem m)"
    using msg_okD [OF assms] by simp_all
  have "unat (20 :: u32) + unat (word_of_nat (psize m) :: u32) < 4294967296"
    using ib l in_block_payload_size(2) [OF ib] by (simp add: in_block_def unat_word_of_nat32)
  then have "unat (20 + word_of_nat (psize m) :: u32) = 20 + psize m"
    using in_block_payload_size(2) [OF ib] by (subst unat_add_lt) (simp_all add: unat_word_of_nat32)
  then show thesis using that in_block_payload_size(1) [OF ib]
    by (simp add: pickle_size_def h length_msg_bytes [OF assms])
qed

text \<open>The outcome of a round on the first message.\<close>

definition round_ok :: "(int \<Rightarrow> 'w \<Rightarrow> u8 list) \<Rightarrow> int \<Rightarrow> 'w state \<Rightarrow> (bool \<times> 'w state + 'w state) \<Rightarrow> bool" where
  "round_ok sent p st r \<longleftrightarrow> (case r of
     Inr st' \<Rightarrow> sending p st' \<and> sent p (world st') @ to_send st' = sent p (world st) @ to_send st \<and>
       output_queue st' = tl (output_queue st)
   | Inl (True, st') \<Rightarrow> sending p st' \<and> sent p (world st') @ to_send st' = sent p (world st) @ to_send st \<and>
       is_blocked_on_write st' \<and> write_watch st' = Some p
   | Inl (False, st') \<Rightarrow> sent p (world st') = sent p (world st))"

lemma send_front_ok:
  assumes S: "takes_prefix os sent" and dir: "\<forall>f w. \<not> os_is_dir os f w" and Q: "sending p st" "output_queue st \<noteq> []"
  obtains r where "send_front os h st = Some r" "round_ok sent p st r"
proof -
  obtain m ms where q: "output_queue st = m # ms" using Q(2) by (cases "output_queue st") auto
  let ?k = "message_send_bytes_written st" and ?b = "msg_bytes m"
  have P: "pipe st = p" "fd_pipe st \<noteq> p" "remote_fd_pipe st = - 1" "msg_ok m" "list_all msg_ok ms" "?k < length ?b"
    "?k = 0 \<or> fds_empty (file_descriptor_set m)"
    using Q(1) by (simp_all add: sending_def q)
  obtain hello where h: "is_hello m = Some hello" using header_safe [OF P(4)] by (auto simp: is_hello_def)
  obtain n where n: "pickle_size m = Some n" "unat n = length ?b" by (rule pickle_size_ok [OF P(4)])
  obtain m1 ctl r1 w1 where d: "send_descriptors os m st = Some (m1, ctl, r1, st\<lparr>world := w1\<rparr>)" "msg_ok m1"
    "wire m1 = Some ?b" "msg_bytes m1 = ?b" "sent p w1 = sent p (world st)"
    "(\<exists>e. r1 = SendFailed e) \<or> r1 = Sent 0 \<or> r1 = Sent 1"
    "fds_empty (file_descriptor_set m) \<longrightarrow> fds_empty (file_descriptor_set m1)"
    by (rule send_descriptors_ok [OF S dir P(4,2,7)])
  obtain r2 w2 where r2: "write_out os r1 ctl (drop ?k ?b) (st\<lparr>world := w1\<rparr>) = (r2, st\<lparr>world := w2\<rparr>)"
    "case r2 of Sent j \<Rightarrow> j \<le> length ?b - ?k \<and> sent p w2 = sent p (world st) @ take j (drop ?k ?b)
     | SendFailed e \<Rightarrow> sent p w2 = sent p (world st)"
  proof (cases "r1 = Sent 1")
    case True
    obtain r w where r: "os_send os p (drop ?k ?b) ctl w1 = (r, w)" by fastforce
    have "case r of Sent j \<Rightarrow> j \<le> length ?b - ?k \<and> sent p w = sent p (world st) @ take j (drop ?k ?b)
        | SendFailed e \<Rightarrow> sent p w = sent p (world st)"
      using S r d(5) unfolding takes_prefix_def by (cases r) fastforce+
    then show thesis using that [of r w] True r P(1) by (simp add: write_out_def)
  next
    case False
    then show thesis using that [of r1 w1] d(5,6) by (auto simp: write_out_def)
  qed
  obtain m2 w3 where c: "commit_sent os r2 m1 (st\<lparr>world := w2\<rparr>) = (m2, st\<lparr>world := w3\<rparr>)"
    "msg_ok m2" "msg_bytes m2 = ?b" "sent p w3 = sent p w2"
    "fds_empty (file_descriptor_set m2) \<or> r2 = Sent 0 \<and> m2 = m1 \<or> (\<exists>e. r2 = SendFailed e \<and> m2 = m1)"
  proof (cases "\<exists>j. r2 = Sent j \<and> j > 0")
    case True
    obtain m2 closed where cm: "CommitAll_message os m1 (st\<lparr>world := w2\<rparr>) = (m2, close_fds os closed (st\<lparr>world := w2\<rparr>))"
      "msg_ok m2" "wire m2 = Some ?b" "msg_bytes m2 = ?b" "fds_empty (file_descriptor_set m2)"
      by (rule CommitAll_message_ok [OF d(2,3)])
    show thesis
      using that [of m2 "fold (os_close os) closed w2"] True cm sent_close_fds [OF S, of p closed "st\<lparr>world := w2\<rparr>"]
      by (auto simp: close_fds_state commit_sent_def)
  next
    case False
    then show thesis using that [of m1 w2] d(2,4) by (cases r2) (auto simp: commit_sent_def)
  qed
  define st4 where "st4 = st\<lparr>world := w3, output_queue := m2 # ms\<rparr>"
  have front: "send_front os h st = (case r2 of
       SendFailed e \<Rightarrow>
         (if \<not> SocketWriteErrorIsRecoverable e
          then Some (Inl (False, if e = EPIPE then Close os st4 else st4))
          else Some (Inl (True, st4\<lparr>is_blocked_on_write := True, write_watch := Some p\<rparr>)))
     | Sent j \<Rightarrow>
         (if j \<noteq> length ?b - ?k
          then Some (Inl (True, st4\<lparr>message_send_bytes_written := ?k + j,
            is_blocked_on_write := True, write_watch := Some p\<rparr>))
          else Some (Inr ((delete_message os m2 (st4\<lparr>message_send_bytes_written := 0\<rparr>))\<lparr>output_queue := ms\<rparr>))))"
    using h P(1,3) n d(1,3) r2(1) c(1)
    by (simp add: send_front_def q st4_def Let_def delete_message_state close_fds_state split: send_result.split)
  define X where "X = concat (map msg_bytes ms)"
  have t: "to_send st = drop ?k ?b @ X" using P(6) by (simp add: to_send_def q X_def)
  have e: "message_send_bytes_written st = 0 \<or> fds_empty (file_descriptor_set m2)" if "m2 = m1"
    using P(7) d(7) that by auto
  have nx: "sending p st'" if "output_queue st' = ms" "message_send_bytes_written st' = 0" "pipe st' = p"
    "fd_pipe st' = fd_pipe st" "remote_fd_pipe st' = - 1" for st' :: "'a state"
    using that P by (auto simp: sending_def msg_bytes_nonempty split: list.split)
  show thesis
  proof (cases r2)
    case (SendFailed err)
    have w3: "sent p w3 = sent p (world st)" using r2(2) c(4) SendFailed by simp
    have e2: "?k = 0 \<or> fds_empty (file_descriptor_set m2)" using c(5) e SendFailed by auto
    show thesis
    proof (cases "SocketWriteErrorIsRecoverable err")
      case False
      then show thesis using that front SendFailed w3 sent_Close [OF S, of p st4]
        by (simp add: round_ok_def st4_def)
    next
      case True
      have "round_ok sent p st (Inl (True, st4\<lparr>is_blocked_on_write := True, write_watch := Some p\<rparr>))"
        using P c(2,3) e2 w3 t by (simp add: round_ok_def sending_def st4_def to_send_def X_def)
      then show thesis using that front SendFailed True by simp
    qed
  next
    case (Sent j)
    have j: "j \<le> length ?b - ?k" "sent p w3 = sent p (world st) @ take j (drop ?k ?b)" using r2(2) c(4) Sent by simp_all
    show thesis
    proof (cases "j = length ?b - ?k")
      case True
      define st' where "st' = (delete_message os m2 (st4\<lparr>message_send_bytes_written := 0\<rparr>))\<lparr>output_queue := ms\<rparr>"
      have f: "output_queue st' = ms" "message_send_bytes_written st' = 0" "pipe st' = p"
        "fd_pipe st' = fd_pipe st" "remote_fd_pipe st' = - 1"
        using P(1,3) by (simp_all add: st'_def delete_message_state close_fds_state st4_def)
      have "sent p (world st') = sent p w3"
        using sent_close_fds [OF S, of p "owned_by_message m2" "st4\<lparr>message_send_bytes_written := 0\<rparr>"]
        by (simp add: st'_def delete_message_state st4_def)
      then have "sent p (world st') @ to_send st' = sent p (world st) @ to_send st"
        using j(2) t f(1,2) True by (simp add: to_send_def X_def)
      then have "round_ok sent p st (Inr st')"
        using nx [OF f] f(1) q by (simp add: round_ok_def)
      then show thesis using that front Sent True by (simp add: st'_def)
    next
      case False
      then have lt: "?k + j < length ?b" using j(1) by simp
      have e2: "?k + j = 0 \<or> fds_empty (file_descriptor_set m2)" using c(5) e Sent by auto
      have "to_send (st4\<lparr>message_send_bytes_written := ?k + j\<rparr>) = drop j (drop ?k ?b) @ X"
        using lt c(3) by (simp add: to_send_def st4_def X_def add.commute)
      then have "sent p w3 @ to_send (st4\<lparr>message_send_bytes_written := ?k + j\<rparr>) = sent p (world st) @ to_send st"
        using j(2) t by (simp del: drop_drop)
      then have "round_ok sent p st (Inl (True, st4\<lparr>message_send_bytes_written := ?k + j,
          is_blocked_on_write := True, write_watch := Some p\<rparr>))"
        using P lt c(2,3) e2 by (simp add: round_ok_def sending_def st4_def to_send_def)
      then show thesis using that front Sent False by simp
    qed
  qed
qed

section \<open>Any sequence of sends and wake-ups\<close>

text \<open>
  What a call leaves of the stream: what has been sent and what is queued make up all of it, or, once
  the channel has failed, what has been sent is its beginning.
\<close>

definition stream_kept :: "(int \<Rightarrow> 'w \<Rightarrow> u8 list) \<Rightarrow> int \<Rightarrow> u8 list \<Rightarrow> bool \<times> 'w state \<Rightarrow> bool" where
  "stream_kept sent p bs r \<longleftrightarrow> (if fst r
     then sending p (snd r) \<and> sent p (world (snd r)) @ to_send (snd r) = bs
     else \<exists>rest. sent p (world (snd r)) @ rest = bs)"

definition stream_of :: "(int \<Rightarrow> 'w \<Rightarrow> u8 list) \<Rightarrow> int \<Rightarrow> 'w state \<Rightarrow> u8 list" where
  "stream_of sent p st = sent p (world st) @ to_send st"

text \<open>When a call returns true, the queue is empty or the message loop watches the pipe for it.\<close>

definition wakes :: "int \<Rightarrow> bool \<times> 'w state \<Rightarrow> bool" where
  "wakes p r \<longleftrightarrow> (fst r \<longrightarrow> output_queue (snd r) = [] \<or> is_blocked_on_write (snd r) \<and> write_watch (snd r) = Some p)"

lemma stream_kept_append: "stream_kept sent p t r \<Longrightarrow> \<not> fst r \<Longrightarrow> stream_kept sent p (t @ x) r"
  by (auto simp: stream_kept_def)

lemma send_loop_ok:
  assumes S: "takes_prefix os sent" and dir: "\<forall>f w. \<not> os_is_dir os f w"
  shows "sending p st \<Longrightarrow> length (output_queue st) = n \<Longrightarrow>
    \<exists>r. send_loop n os h st = Some r \<and> stream_kept sent p (stream_of sent p st) r \<and> wakes p r"
proof (induction n arbitrary: st)
  case 0
  then show ?case by (simp add: stream_kept_def stream_of_def wakes_def)
next
  case (Suc n)
  then have "output_queue st \<noteq> []" by auto
  from send_front_ok [OF S dir Suc.prems(1) this]
  obtain r where r: "send_front os h st = Some r" "round_ok sent p st r" by blast
  show ?case
  proof (cases r)
    case (Inl res)
    obtain ok st' where res: "res = (ok, st')" by fastforce
    then have "stream_kept sent p (stream_of sent p st) res \<and> wakes p res"
      using r(2) Inl by (cases ok) (simp_all add: round_ok_def stream_kept_def stream_of_def wakes_def)
    then show ?thesis using r(1) Inl by simp
  next
    case (Inr st1)
    then have st1: "sending p st1" "stream_of sent p st1 = stream_of sent p st" "length (output_queue st1) = n"
      using r(2) Suc.prems(2) by (simp_all add: round_ok_def stream_of_def)
    from Suc.IH [OF st1(1,3)] st1(2) r(1) Inr show ?thesis by simp
  qed
qed

lemma ProcessOutgoingMessages_ok:
  assumes "takes_prefix os sent" "\<forall>f w. \<not> os_is_dir os f w" "sending p st" "p \<noteq> - 1"
  shows "\<exists>r. ProcessOutgoingMessages os h st = Some r \<and> stream_kept sent p (stream_of sent p st) r \<and> wakes p r"
proof -
  let ?st = "st\<lparr>is_blocked_on_write := False\<rparr>"
  have s: "sending p ?st" "stream_of sent p ?st = stream_of sent p st"
    using assms(3) by (auto simp: sending_def to_send_def stream_of_def split: list.splits)
  have p: "pipe st \<noteq> - 1" using assms(3,4) by (simp add: sending_def)
  show ?thesis
  proof (cases "output_queue st = []")
    case True
    then show ?thesis using s by (simp add: ProcessOutgoingMessages_def stream_kept_def stream_of_def wakes_def)
  next
    case False
    then show ?thesis using send_loop_ok [OF assms(1,2) s(1) refl, of h] p s(2)
      by (simp add: ProcessOutgoingMessages_def)
  qed
qed

text \<open>The calls of the sender and the wake-ups of the message loop, until one reports a failure.\<close>

datatype call = SendMessage message | Writable

definition outgoing_call :: "'w os \<Rightarrow> heap \<Rightarrow> call \<Rightarrow> 'w state \<Rightarrow> (bool \<times> 'w state) option" where
  "outgoing_call os h c st = (case c of SendMessage m \<Rightarrow> Send os h m st | Writable \<Rightarrow> ProcessOutgoingMessages os h st)"

fun outgoing_calls :: "'w os \<Rightarrow> heap \<Rightarrow> call list \<Rightarrow> 'w state \<Rightarrow> (bool \<times> 'w state) option" where
  "outgoing_calls os h [] st = Some (True, st)"
| "outgoing_calls os h (c # cs) st = do {
     (ok, st1) \<leftarrow> outgoing_call os h c st;
     if ok then outgoing_calls os h cs st1 else Some (False, st1) }"

fun called_bytes :: "call \<Rightarrow> u8 list" where
  "called_bytes (SendMessage m) = msg_bytes m"
| "called_bytes Writable = []"

fun call_ok :: "call \<Rightarrow> bool" where
  "call_ok (SendMessage m) = msg_ok m"
| "call_ok Writable = True"

lemma outgoing_call_ok:
  assumes "takes_prefix os sent" "\<forall>f w. \<not> os_is_dir os f w" "sending p st" "p \<noteq> - 1" "call_ok c"
  shows "\<exists>r. outgoing_call os h c st = Some r \<and> stream_kept sent p (stream_of sent p st @ called_bytes c) r"
proof (cases c)
  case Writable
  then show ?thesis using ProcessOutgoingMessages_ok [OF assms(1-4), of h] by (auto simp: outgoing_call_def)
next
  case (SendMessage m)
  let ?st = "st\<lparr>output_queue := output_queue st @ [m]\<rparr>"
  have m: "msg_ok m" using assms(5) SendMessage by simp
  have s: "sending p ?st"
    using assms(3) m msg_bytes_nonempty [OF m] by (auto simp: sending_def split: list.splits)
  have "message_send_bytes_written st \<le> length (concat (map msg_bytes (output_queue st)))"
    using assms(3) by (auto simp: sending_def split: list.splits)
  then have t: "stream_of sent p ?st = stream_of sent p st @ msg_bytes m" by (simp add: to_send_def stream_of_def)
  show ?thesis
  proof (cases "\<not> waiting_connect ?st \<and> \<not> is_blocked_on_write ?st")
    case True
    then have "outgoing_call os h c st = ProcessOutgoingMessages os h ?st"
      using SendMessage by (simp add: outgoing_call_def Send_def)
    then show ?thesis using ProcessOutgoingMessages_ok [OF assms(1,2) s assms(4), of h] t SendMessage by auto
  next
    case False
    then have "outgoing_call os h c st = Some (True, ?st)"
      using SendMessage by (auto simp: outgoing_call_def Send_def Let_def)
    then show ?thesis using s t SendMessage by (simp add: stream_kept_def stream_of_def)
  qed
qed

lemma outgoing_calls_ok:
  assumes "takes_prefix os sent" "\<forall>f w. \<not> os_is_dir os f w" "p \<noteq> - 1"
  shows "sending p st \<Longrightarrow> list_all call_ok cs \<Longrightarrow> \<exists>r. outgoing_calls os h cs st = Some r \<and>
    stream_kept sent p (stream_of sent p st @ concat (map called_bytes cs)) r"
proof (induction cs arbitrary: st)
  case Nil
  then show ?case by (simp add: stream_kept_def stream_of_def)
next
  case (Cons c cs)
  from outgoing_call_ok [OF assms(1,2) Cons.prems(1) assms(3), of c h] Cons.prems(2)
  obtain ok st1 where 1: "outgoing_call os h c st = Some (ok, st1)"
    "stream_kept sent p (stream_of sent p st @ called_bytes c) (ok, st1)" by auto
  show ?case
  proof (cases ok)
    case False
    then show ?thesis using 1 stream_kept_append [OF 1(2), of "concat (map called_bytes cs)"] by simp
  next
    case True
    then have s1: "sending p st1" "stream_of sent p st1 = stream_of sent p st @ called_bytes c"
      using 1(2) by (simp_all add: stream_kept_def stream_of_def)
    from Cons.IH [OF s1(1)] Cons.prems(2) show ?thesis using 1(1) True s1(2) by simp
  qed
qed


text \<open>A kernel that takes at most seven bytes of the pipe's data at a time.\<close>

definition capped_os :: "u8 list os" where
  "capped_os = idle_os\<lparr>os_send := \<lambda>f bs ctl w.
     if f = 4 then (Sent (min 7 (length bs)), w @ take 7 bs) else (SendFailed EAGAIN, w)\<rparr>"

lemma capped_os_prefix: "takes_prefix capped_os (\<lambda>f w. if f = 4 then w else [])"
  by (auto simp: takes_prefix_def capped_os_def idle_os_def min_def)

lemma capped_os_dirs: "\<forall>f w. \<not> os_is_dir capped_os f w"
  by (simp add: capped_os_def idle_os_def)


text \<open>
  nothing is forgotten: when the sending loop returns true, either every message has been handed
  to the kernel or the message loop watches the pipe to go on.
\<close>

theorem outgoing_progress:
  assumes "takes_prefix os sent" "\<forall>f w. \<not> os_is_dir os f w" "p \<noteq> - 1" "sending p st"
  shows "\<exists>ok st'. ProcessOutgoingMessages os h st = Some (ok, st') \<and>
    (ok \<longrightarrow> output_queue st' = [] \<and> sent p (world st') = sent p (world st) @ to_send st \<or>
       is_blocked_on_write st' \<and> write_watch st' = Some p)"
proof -
  obtain r where r: "ProcessOutgoingMessages os h st = Some r" "stream_kept sent p (stream_of sent p st) r" "wakes p r"
    using ProcessOutgoingMessages_ok [OF assms(1,2,4,3), of h] by blast
  obtain ok st' where "r = (ok, st')" by fastforce
  then show ?thesis using r by (auto simp: stream_kept_def stream_of_def wakes_def to_send_def)
qed

theorem outgoing_progress_witness:
  "\<exists>m. Message_new sample_heap 1 2 PRIORITY_NORMAL = Some m \<and>
    (\<exists>ok st'. ProcessOutgoingMessages capped_os sample_heap ((idle_channel [])\<lparr>output_queue := [m]\<rparr>) = Some (ok, st') \<and>
    (ok \<longrightarrow> output_queue st' = [] \<and> world st' = msg_bytes m \<or> is_blocked_on_write st' \<and> write_watch st' = Some 4))"
proof -
  obtain m where m: "Message_new sample_heap 1 2 PRIORITY_NORMAL = Some m" "writable m" "msg_ok m" "psize m = 0"
    "header_of m = Some (1, 2, PRIORITY_NORMAL, 0)" "fd_set m = None"
    by (rule sample_message)
  have "sending 4 ((idle_channel [] :: u8 list state)\<lparr>output_queue := [m]\<rparr>)"
    using m(3) by (simp add: sending_def msg_bytes_nonempty)
  from outgoing_progress [OF capped_os_prefix capped_os_dirs _ this, of sample_heap]
  show ?thesis using m(1) by (intro exI [of _ m]) (simp add: to_send_def)
qed

end
