(* ===== verification/ChannelPair.thy ===== *)
theory ChannelPair imports ChannelIn ChannelOut begin

text \<open>
  Two channels joined by a pipe: the bytes that the sender hands to the kernel are frames for the
  receiver, and a prefix of them holds a prefix of the messages.
\<close>

section \<open>Messages are frames\<close>

definition exact_frame :: "u8 list \<Rightarrow> bool" where
  "exact_frame f \<longleftrightarrow> 4 \<le> length f \<and> length f = frame_len f"

lemma msg_bytes_exact:
  assumes "msg_ok m"
  shows "exact_frame (msg_bytes m)"
proof -
  obtain m1 where m1: "outgoing m = Some m1" "msg_ok m1" "wire m1 = Some (msg_bytes m)" "msg_bytes m1 = msg_bytes m"
    "file_descriptor_set m1 = file_descriptor_set m" "EnsureFileDescriptorSet m1 = m1" "psize m1 = psize m"
    by (rule outgoing_ok [OF assms])
  have l: "length (msg_bytes m) = 20 + psize m" by (rule length_msg_bytes [OF assms])
  have "msg_bytes m = take (20 + psize m) (hdr_mem m1)"
    using m1(3) wire_in_block [OF msg_okD(1) [OF m1(2)]] msg_okD(2,3) [OF m1(2)] by (simp add: m1(7))
  then have "take 4 (msg_bytes m) = take 4 (hdr_mem m1)" by simp
  then have "le_nat (take 4 (msg_bytes m)) = psize m" by (simp add: m1(7) [symmetric]) (simp add: psize_def)
  then show ?thesis using l by (simp add: exact_frame_def frame_len_def)
qed

lemma exact_frame_whole: "exact_frame f \<Longrightarrow> whole (f @ r) \<and> take (frame_len (f @ r)) (f @ r) = f \<and>
    drop (frame_len (f @ r)) (f @ r) = r"
proof -
  assume e: "exact_frame f"
  then have "frame_len (f @ r) = length f" by (simp add: exact_frame_def frame_len_append)
  then show ?thesis using e by (simp add: whole_def exact_frame_def)
qed

lemma frames_exact: "exact_frame f \<Longrightarrow> frames (f @ r) = (f # fst (frames r), snd (frames r))"
  using exact_frame_whole [of f r] frames_whole [of "f @ r"] by simp

text \<open>A prefix of a sequence of frames splits into the first frames and a part of the next.\<close>

lemma frames_of_prefix:
  assumes "list_all exact_frame fs" "bs @ rest = concat fs"
  shows "\<exists>k \<le> length fs. fst (frames bs) = take k fs \<and>
    (snd (frames bs) = [] \<or> (k < length fs \<and> length (snd (frames bs)) < length (fs ! k))) \<and> (rest = [] \<longrightarrow> k = length fs)"
  using assms
proof (induction fs arbitrary: bs)
  case Nil
  then have "bs = []" by simp
  then show ?case by (simp add: frames_partial whole_def)
next
  case (Cons f fs)
  have f: "exact_frame f" using Cons.prems(1) by simp
  show ?case
  proof (cases "length f \<le> length bs")
    case True
    with Cons.prems(2) have t: "take (length f) bs = f" "drop (length f) bs @ rest = concat fs"
      by (auto simp: append_eq_append_conv_if split: if_splits)
    then have bs: "bs = f @ drop (length f) bs" by (metis append_take_drop_id)
    from Cons.IH [OF _ t(2)] Cons.prems(1) obtain k where k: "k \<le> length fs"
      "fst (frames (drop (length f) bs)) = take k fs"
      "snd (frames (drop (length f) bs)) = [] \<or> (k < length fs \<and> length (snd (frames (drop (length f) bs))) < length (fs ! k))"
      "rest = [] \<longrightarrow> k = length fs" by auto
    have "frames bs = (f # fst (frames (drop (length f) bs)), snd (frames (drop (length f) bs)))"
      by (subst bs) (rule frames_exact [OF f])
    then show ?thesis using k by (intro exI [of _ "Suc k"]) simp
  next
    case False
    then have p: "take (length bs) f = bs" using Cons.prems(2) by (auto simp: append_eq_append_conv_if)
    have "\<not> whole bs"
    proof
      assume w: "whole bs"
      then have "frame_len f = frame_len bs" using p frame_len_append [of bs "drop (length bs) f"]
        by (metis append_take_drop_id whole_def)
      then show False using w f False by (simp add: whole_def exact_frame_def)
    qed
    moreover have "rest \<noteq> []" using False Cons.prems(2) by auto
    ultimately show ?thesis using False by (intro exI [of _ 0]) (simp add: frames_partial)
  qed
qed

section \<open>From channel to channel\<close>

definition sent_messages :: "call list \<Rightarrow> message list" where
  "sent_messages cs = concat (map (\<lambda>c. case c of SendMessage m \<Rightarrow> [m] | Writable \<Rightarrow> []) cs)"

lemma called_bytes_messages: "concat (map called_bytes cs) = concat (map msg_bytes (sent_messages cs))"
proof (induction cs)
  case (Cons c cs)
  then show ?case by (cases c) (simp_all add: sent_messages_def)
qed (simp add: sent_messages_def)

lemma call_ok_messages: "list_all call_ok cs \<Longrightarrow> list_all msg_ok (sent_messages cs)"
proof (induction cs)
  case (Cons c cs)
  then show ?case by (cases c) (simp_all add: sent_messages_def)
qed (simp add: sent_messages_def)

text \<open>An ordinary message without descriptors that is not so large that a receiver gives up on it.\<close>

definition deliverable :: "message \<Rightarrow> bool" where
  "deliverable m \<longleftrightarrow> plain_frame (msg_bytes m) \<and> length (msg_bytes m) + kReadBufferSize \<le> kMaximumMessageSize"

lemma deliverable_stream:
  assumes "list_all msg_ok ms" "list_all deliverable ms" "bs @ rest = concat (map msg_bytes ms)"
  obtains k where "k \<le> length ms" "fst (frames bs) = take k (map msg_bytes ms)" "rest = [] \<longrightarrow> k = length ms" "stream_ok bs"
proof -
  have "list_all exact_frame (map msg_bytes ms)" using assms(1) by (auto simp: list_all_iff msg_bytes_exact)
  from frames_of_prefix [OF this assms(3)] obtain k where k: "k \<le> length ms"
    "fst (frames bs) = take k (map msg_bytes ms)"
    "snd (frames bs) = [] \<or> (k < length (map msg_bytes ms) \<and> length (snd (frames bs)) < length (map msg_bytes ms ! k))"
    "rest = [] \<longrightarrow> k = length ms" unfolding length_map by blast
  have d: "deliverable m" if "m \<in> set ms" for m using assms(2) that by (simp add: list_all_iff)
  have "plain_frame f \<and> length f + kReadBufferSize \<le> kMaximumMessageSize" if "f \<in> set (fst (frames bs))" for f
    using that d by (auto simp: k(2) deliverable_def dest!: in_set_takeD)
  moreover have "length (snd (frames bs)) + kReadBufferSize \<le> kMaximumMessageSize"
    using k(3)
  proof
    assume "snd (frames bs) = []"
    then show ?thesis by (simp add: kReadBufferSize_def kMaximumMessageSize_def)
  next
    assume "k < length (map msg_bytes ms) \<and> length (snd (frames bs)) < length (map msg_bytes ms ! k)"
    then have a: "k < length ms" "length (snd (frames bs)) < length (msg_bytes (ms ! k))" by auto
    then have "deliverable (ms ! k)" using d by simp
    then show ?thesis using a by (simp add: deliverable_def)
  qed
  ultimately have "stream_ok bs" by (simp add: stream_ok_def)
  then show thesis using that k by blast
qed

text \<open>A message without descriptors and with an ordinary address is deliverable.\<close>

lemma deliverable_plain:
  assumes "msg_ok m" "fd_set m = None" "header_of m = Some (r, t, f, 0)" "r \<noteq> MSG_ROUTING_NONE" "psize m \<le> 4096"
  shows "deliverable m"
proof -
  have "fds_empty (file_descriptor_set (EnsureFileDescriptorSet m))"
    using assms(2) by (simp add: file_descriptor_set_def EnsureFileDescriptorSet_def fds_empty_def FileDescriptorSet_new_def)
  then have "outgoing m = Some (EnsureFileDescriptorSet m)" by (simp add: outgoing_def Let_def)
  moreover have w: "wire m = Some (take (20 + psize m) (hdr_mem m))"
    using wire_in_block [OF msg_okD(1) [OF assms(1)]] msg_okD(2,3) [OF assms(1)] by simp
  ultimately have b: "msg_bytes m = take (20 + psize m) (hdr_mem m)" by (simp add: msg_bytes_def)
  have e: "take k (drop (n + 4) (msg_bytes m)) = take k (drop n (extra_header m))" if "n + k \<le> 16" for n k
    using that msg_okD [OF assms(1)] by (simp add: b extra_header_def drop_take min_def)
  have "frame_routing (msg_bytes m) = r" "frame_fds (msg_bytes m) = 0"
    using header_fields [OF assms(1)] assms(3) e [of 0 4] e [of 12 2]
    by (auto simp: header_of_def frame_routing_def frame_fds_def)
  then show ?thesis using assms(4,5) length_msg_bytes [OF assms(1)]
    by (simp add: deliverable_def plain_frame_def kReadBufferSize_def kMaximumMessageSize_def)
qed

text \<open>The sender's bytes, delivered to a receiver that has nothing buffered.\<close>

lemma pair_delivers:
  assumes "takes_prefix os sent" "\<forall>f w. \<not> os_is_dir os f w" "p \<noteq> - 1" "sending p st" "stream_of sent p st = []"
    "list_all call_ok cs" "outgoing_calls os h cs st = Some (ok, st')" "list_all deliverable (sent_messages cs)"
    and "delivers_stream os2 pending" "list_all chunk_ok (pending (world rt))" "concat (pending (world rt)) = sent p (world st')"
    "pipe rt \<noteq> - 1" "client_pipe rt = - 1" "input_overflow_fds rt = []" "input_overflow_buf rt = []"
  obtains rt' k where "ProcessIncomingMessages (Suc (length (pending (world rt)))) os2 rt = Some (True, rt')"
    "received rt' = received rt @ map Some (take k (map msg_bytes (sent_messages cs)))" "k \<le> length (sent_messages cs)"
    "ok \<and> to_send st' = [] \<longrightarrow> k = length (sent_messages cs)"
proof -
  let ?ms = "sent_messages cs"
  have "stream_kept sent p (concat (map msg_bytes ?ms)) (ok, st')"
    using outgoing_calls_ok [OF assms(1-4,6), of h] assms(5,7) by (simp add: called_bytes_messages)
  then obtain rest where rest: "sent p (world st') @ rest = concat (map msg_bytes ?ms)" "ok \<and> to_send st' = [] \<longrightarrow> rest = []"
    by (cases ok) (auto simp: stream_kept_def)
  obtain k where k: "k \<le> length ?ms" "fst (frames (sent p (world st'))) = take k (map msg_bytes ?ms)"
    "rest = [] \<longrightarrow> k = length ?ms" "stream_ok (sent p (world st'))"
    by (rule deliverable_stream [OF call_ok_messages [OF assms(6)] assms(8) rest(1)])
  have "\<not> whole (input_overflow_buf rt)" using assms(15) by (simp add: whole_def)
  from process_stream [OF assms(9) refl assms(10,12-14) this] k(4) assms(11,15)
  obtain rt' where "ProcessIncomingMessages (Suc (length (pending (world rt)))) os2 rt = Some (True, rt')"
    "received rt' = received rt @ map Some (fst (frames (sent p (world st'))))" by auto
  then show thesis using k rest(2) by (intro that [of rt' k]) auto
qed

end
