(* ===== verification/Proxy.thy ===== *)
theory Proxy imports Message begin

text \<open>
  \<open>ipc/ipc_channel_proxy.h\<close> and \<open>.cc\<close>: a channel that lives on the IPC thread and talks to a listener
  on another thread. The context is shared by both; what one thread asks of the other is a task in a
  queue. The state holds both queues and a log of the calls made on the filters, on the listener and
  on the channel. A step is one task or one callback, so every interleaving of the two threads is a
  sequence of steps. Reference counts and logging are not modelled; \<open>None\<close> is a call through the
  message loop pointer after it was cleared, or a callback of a channel that does not exist.
\<close>

section \<open>State\<close>

datatype 'f proxy_call =
    FilterAdded 'f | FilterRemoved 'f | FilterConnected 'f u32 | FilterError 'f | FilterClosing 'f
  | FilterMessage 'f message
  | ListenerConnected u32 | ListenerMessage message | ListenerError
  | ChannelSent message | ChannelDeleted

datatype 'f ipc_task = CreateChannelTask | OnChannelOpenedTask | SendTask message
  | OnAddFilterTask 'f | OnRemoveFilterTask 'f | OnChannelClosedTask

datatype listener_task = OnDispatchMessageTask message | OnDispatchConnectedTask | OnDispatchErrorTask

record 'f proxy =
  has_listener :: bool
  filters :: "'f list"
  has_ipc_loop :: bool
  has_channel :: bool
  peer_pid :: u32
  channel_connected_called :: bool
  ipc_tasks :: "'f ipc_task list"
  listener_tasks :: "listener_task list"
  calls :: "'f proxy_call list"

definition call :: "'f proxy_call \<Rightarrow> 'f proxy \<Rightarrow> 'f proxy" where
  "call c p = p\<lparr>calls := calls p @ [c]\<rparr>"

definition call_filters :: "('f \<Rightarrow> 'f proxy_call list) \<Rightarrow> 'f proxy \<Rightarrow> 'f proxy" where
  "call_filters c p = p\<lparr>calls := calls p @ concat (map c (filters p))\<rparr>"

definition post_to_listener :: "listener_task \<Rightarrow> 'f proxy \<Rightarrow> 'f proxy" where
  "post_to_listener t p = p\<lparr>listener_tasks := listener_tasks p @ [t]\<rparr>"

definition post_to_ipc :: "'f ipc_task \<Rightarrow> 'f proxy \<Rightarrow> 'f proxy option" where
  "post_to_ipc t p = (if has_ipc_loop p then Some (p\<lparr>ipc_tasks := ipc_tasks p @ [t]\<rparr>) else None)"

section \<open>The context\<close>

definition Context_new :: "bool \<Rightarrow> 'f option \<Rightarrow> 'f proxy" where
  "Context_new listener flt = \<lparr>has_listener = listener,
     filters = (case flt of None \<Rightarrow> [] | Some f \<Rightarrow> [f]), has_ipc_loop = True, has_channel = False,
     peer_pid = 0, channel_connected_called = False, ipc_tasks = [], listener_tasks = [], calls = []\<rparr>"

definition CreateChannel :: "'f proxy \<Rightarrow> 'f proxy" where
  "CreateChannel p = p\<lparr>has_channel := True\<rparr>"

text \<open>
  \<open>handles cs f m\<close> is what the \<open>OnMessageReceived\<close> of filter \<open>f\<close> returns after the calls \<open>cs\<close>: the
  state of a filter is made by the calls on it.
\<close>

fun try_filters :: "('f proxy_call list \<Rightarrow> 'f \<Rightarrow> message \<Rightarrow> bool) \<Rightarrow> message \<Rightarrow> 'f list \<Rightarrow> 'f proxy \<Rightarrow> bool \<times> 'f proxy" where
  "try_filters handles m [] p = (False, p)"
| "try_filters handles m (f # fs) p =
     (if handles (calls p) f m then (True, call (FilterMessage f m) p)
      else try_filters handles m fs (call (FilterMessage f m) p))"

definition TryFilters :: "('f proxy_call list \<Rightarrow> 'f \<Rightarrow> message \<Rightarrow> bool) \<Rightarrow> message \<Rightarrow> 'f proxy \<Rightarrow> bool \<times> 'f proxy" where
  "TryFilters handles m p = try_filters handles m (filters p) p"

definition OnMessageReceivedNoFilter :: "message \<Rightarrow> 'f proxy \<Rightarrow> 'f proxy" where
  "OnMessageReceivedNoFilter m p = post_to_listener (OnDispatchMessageTask m) p"

definition Context_OnMessageReceived :: "('f proxy_call list \<Rightarrow> 'f \<Rightarrow> message \<Rightarrow> bool) \<Rightarrow> message \<Rightarrow> 'f proxy \<Rightarrow> 'f proxy" where
  "Context_OnMessageReceived handles m p =
     (case TryFilters handles m p of (taken, p1) \<Rightarrow> if \<not> taken then OnMessageReceivedNoFilter m p1 else p1)"

definition Context_OnChannelConnected :: "u32 \<Rightarrow> 'f proxy \<Rightarrow> 'f proxy" where
  "Context_OnChannelConnected pid p = post_to_listener OnDispatchConnectedTask
     (call_filters (\<lambda>f. [FilterConnected f pid]) (p\<lparr>peer_pid := pid\<rparr>))"

definition Context_OnChannelError :: "'f proxy \<Rightarrow> 'f proxy" where
  "Context_OnChannelError p = post_to_listener OnDispatchErrorTask (call_filters (\<lambda>f. [FilterError f]) p)"

text \<open>\<open>connected\<close> is the result of the channel's \<open>Connect\<close>.\<close>

definition OnChannelOpened :: "bool \<Rightarrow> 'f proxy \<Rightarrow> 'f proxy option" where
  "OnChannelOpened connected p = (if \<not> has_channel p then None
     else if \<not> connected then Some (Context_OnChannelError p)
     else Some (call_filters (\<lambda>f. [FilterAdded f]) p))"

definition OnChannelClosed :: "'f proxy \<Rightarrow> 'f proxy" where
  "OnChannelClosed p = (if \<not> has_channel p then p
     else call ChannelDeleted ((call_filters (\<lambda>f. [FilterClosing f, FilterRemoved f]) p)
       \<lparr>filters := [], has_channel := False\<rparr>))"

text \<open>\<open>sent\<close> is the result of the channel's \<open>Send\<close>.\<close>

definition OnSendMessage :: "bool \<Rightarrow> message \<Rightarrow> 'f proxy \<Rightarrow> 'f proxy" where
  "OnSendMessage sent m p = (if \<not> has_channel p then OnChannelClosed p
     else (let p1 = call (ChannelSent m) p in if \<not> sent then Context_OnChannelError p1 else p1))"

definition OnAddFilter :: "'f \<Rightarrow> 'f proxy \<Rightarrow> 'f proxy" where
  "OnAddFilter f p = (let p1 = p\<lparr>filters := filters p @ [f]\<rparr> in
     if has_channel p1 then call (FilterAdded f) p1 else p1)"

definition OnRemoveFilter :: "'f \<Rightarrow> 'f proxy \<Rightarrow> 'f proxy" where
  "OnRemoveFilter f p = (if f \<in> set (filters p)
     then (call (FilterRemoved f) p)\<lparr>filters := remove1 f (filters p)\<rparr> else p)"

definition OnDispatchConnected :: "'f proxy \<Rightarrow> 'f proxy" where
  "OnDispatchConnected p = (if channel_connected_called p then p
     else (let p1 = p\<lparr>channel_connected_called := True\<rparr> in
       if has_listener p1 then call (ListenerConnected (peer_pid p1)) p1 else p1))"

definition OnDispatchMessage :: "message \<Rightarrow> 'f proxy \<Rightarrow> 'f proxy" where
  "OnDispatchMessage m p = (if \<not> has_listener p then p
     else call (ListenerMessage m) (OnDispatchConnected p))"

definition OnDispatchError :: "'f proxy \<Rightarrow> 'f proxy" where
  "OnDispatchError p = (if has_listener p then call ListenerError p else p)"

definition Context_Clear :: "'f proxy \<Rightarrow> 'f proxy" where
  "Context_Clear p = p\<lparr>has_listener := False\<rparr>"

definition ClearIPCMessageLoop :: "'f proxy \<Rightarrow> 'f proxy" where
  "ClearIPCMessageLoop p = p\<lparr>has_ipc_loop := False\<rparr>"

section \<open>The proxy\<close>

definition Proxy_Init :: "bool \<Rightarrow> 'f proxy \<Rightarrow> 'f proxy option" where
  "Proxy_Init create_pipe_now p = do {
     p1 \<leftarrow> (if create_pipe_now then Some (CreateChannel p) else post_to_ipc CreateChannelTask p);
     post_to_ipc OnChannelOpenedTask p1 }"

definition ChannelProxy_new :: "bool \<Rightarrow> 'f option \<Rightarrow> bool \<Rightarrow> 'f proxy option" where
  "ChannelProxy_new listener flt create_pipe_now = Proxy_Init create_pipe_now (Context_new listener flt)"

definition Proxy_Close :: "'f proxy \<Rightarrow> 'f proxy option" where
  "Proxy_Close p = (let p1 = Context_Clear p in
     if has_ipc_loop p1 then post_to_ipc OnChannelClosedTask p1 else Some p1)"

definition Proxy_Send :: "message \<Rightarrow> 'f proxy \<Rightarrow> (bool \<times> 'f proxy) option" where
  "Proxy_Send m p = map_option (Pair True) (post_to_ipc (SendTask m) p)"

definition Proxy_AddFilter :: "'f \<Rightarrow> 'f proxy \<Rightarrow> 'f proxy option" where
  "Proxy_AddFilter f p = post_to_ipc (OnAddFilterTask f) p"

definition Proxy_RemoveFilter :: "'f \<Rightarrow> 'f proxy \<Rightarrow> 'f proxy option" where
  "Proxy_RemoveFilter f p = post_to_ipc (OnRemoveFilterTask f) p"

section \<open>Tasks and interleavings\<close>

definition run_ipc_task :: "bool \<Rightarrow> 'f ipc_task \<Rightarrow> 'f proxy \<Rightarrow> 'f proxy option" where
  "run_ipc_task ok t p = (case t of
     CreateChannelTask \<Rightarrow> Some (CreateChannel p)
   | OnChannelOpenedTask \<Rightarrow> OnChannelOpened ok p
   | SendTask m \<Rightarrow> Some (OnSendMessage ok m p)
   | OnAddFilterTask f \<Rightarrow> Some (OnAddFilter f p)
   | OnRemoveFilterTask f \<Rightarrow> Some (OnRemoveFilter f p)
   | OnChannelClosedTask \<Rightarrow> Some (OnChannelClosed p))"

definition run_listener_task :: "listener_task \<Rightarrow> 'f proxy \<Rightarrow> 'f proxy" where
  "run_listener_task t p = (case t of
     OnDispatchMessageTask m \<Rightarrow> OnDispatchMessage m p
   | OnDispatchConnectedTask \<Rightarrow> OnDispatchConnected p
   | OnDispatchErrorTask \<Rightarrow> OnDispatchError p)"

text \<open>What can happen next: a callback of the channel, the next task of a thread, a call of the owner.\<close>

datatype 'f proxy_event = Receive message | Connected u32 | Failed | IpcTask bool | ListenerTask
  | CallSend message | CallAddFilter 'f | CallRemoveFilter 'f | CallClose | CallClearIPCMessageLoop

definition proxy_step :: "('f proxy_call list \<Rightarrow> 'f \<Rightarrow> message \<Rightarrow> bool) \<Rightarrow> 'f proxy_event \<Rightarrow> 'f proxy \<Rightarrow> 'f proxy option" where
  "proxy_step handles e p = (case e of
     Receive m \<Rightarrow> (if has_channel p then Some (Context_OnMessageReceived handles m p) else None)
   | Connected pid \<Rightarrow> (if has_channel p then Some (Context_OnChannelConnected pid p) else None)
   | Failed \<Rightarrow> (if has_channel p then Some (Context_OnChannelError p) else None)
   | IpcTask ok \<Rightarrow> (case ipc_tasks p of [] \<Rightarrow> Some p
       | t # ts \<Rightarrow> run_ipc_task ok t (p\<lparr>ipc_tasks := ts\<rparr>))
   | ListenerTask \<Rightarrow> Some (case listener_tasks p of [] \<Rightarrow> p
       | t # ts \<Rightarrow> run_listener_task t (p\<lparr>listener_tasks := ts\<rparr>))
   | CallSend m \<Rightarrow> map_option snd (Proxy_Send m p)
   | CallAddFilter f \<Rightarrow> Proxy_AddFilter f p
   | CallRemoveFilter f \<Rightarrow> Proxy_RemoveFilter f p
   | CallClose \<Rightarrow> Proxy_Close p
   | CallClearIPCMessageLoop \<Rightarrow> Some (ClearIPCMessageLoop p))"

fun proxy_run :: "('f proxy_call list \<Rightarrow> 'f \<Rightarrow> message \<Rightarrow> bool) \<Rightarrow> 'f proxy_event list \<Rightarrow> 'f proxy \<Rightarrow> 'f proxy option" where
  "proxy_run handles [] p = Some p"
| "proxy_run handles (e # es) p = Option.bind (proxy_step handles e p) (proxy_run handles es)"

interpretation proxy: machine "proxy_step handles" "proxy_run handles" for handles
  by unfold_locales simp_all

end
