(* ===== verification/ProxyProps.thy ===== *)
theory ProxyProps imports Proxy begin

text \<open>
  What holds in every interleaving of the IPC thread, the listener's thread and the owner of a
  channel proxy: the listener hears the messages no filter took, in the order they arrived; it is
  greeted once and first; after \<open>Close\<close> it hears nothing; a filter that was removed is left alone.
\<close>

lemmas proxy_defs = call_def call_filters_def post_to_listener_def post_to_ipc_def CreateChannel_def
  OnMessageReceivedNoFilter_def Context_OnChannelConnected_def
  Context_OnChannelError_def OnChannelOpened_def OnChannelClosed_def OnSendMessage_def OnAddFilter_def
  OnRemoveFilter_def OnDispatchConnected_def OnDispatchMessage_def OnDispatchError_def Context_Clear_def
  ClearIPCMessageLoop_def Proxy_Close_def Proxy_Send_def Proxy_AddFilter_def Proxy_RemoveFilter_def
  run_ipc_task_def run_listener_task_def

lemmas proxy_splits = if_splits option.splits list.splits ipc_task.splits listener_task.splits

section \<open>Order of the messages\<close>

definition heard_in :: "'f proxy_call list \<Rightarrow> message list" where
  "heard_in cs = concat (map (\<lambda>c. case c of ListenerMessage m \<Rightarrow> [m] | _ \<Rightarrow> []) cs)"

definition in_flight :: "listener_task list \<Rightarrow> message list" where
  "in_flight ts = concat (map (\<lambda>t. case t of OnDispatchMessageTask m \<Rightarrow> [m] | _ \<Rightarrow> []) ts)"

lemma heard_in_simps [simp]:
  "heard_in [] = []" "heard_in (cs @ ds) = heard_in cs @ heard_in ds"
  "heard_in (c # cs) = (case c of ListenerMessage m \<Rightarrow> [m] | _ \<Rightarrow> []) @ heard_in cs"
  by (simp_all add: heard_in_def)

lemma in_flight_simps [simp]:
  "in_flight [] = []" "in_flight (ts @ us) = in_flight ts @ in_flight us"
  "in_flight (t # ts) = (case t of OnDispatchMessageTask m \<Rightarrow> [m] | _ \<Rightarrow> []) @ in_flight ts"
  by (simp_all add: in_flight_def)

lemma heard_in_filters [simp]:
  "heard_in (map (\<lambda>f. FilterConnected f pid) fs) = []" "heard_in (map FilterError fs) = []"
  "heard_in (map FilterAdded fs) = []"
  "heard_in (concat (map (\<lambda>f. [FilterClosing f, FilterRemoved f]) fs)) = []"
  by (induction fs) simp_all

lemma try_filters_calls:
  "\<exists>fs'. snd (try_filters handles m fs p) = p\<lparr>calls := calls p @ map (\<lambda>f. FilterMessage f m) fs'\<rparr> \<and>
     set fs' \<subseteq> set fs"
proof (induction fs arbitrary: p)
  case Nil
  show ?case by (intro exI [of _ "[]"]) simp
next
  case (Cons f fs)
  show ?case
  proof (cases "handles (calls p) f m")
    case True
    then show ?thesis by (intro exI [of _ "[f]"]) (simp add: call_def)
  next
    case False
    from Cons.IH [of "call (FilterMessage f m) p"] obtain fs' where
      "snd (try_filters handles m fs (call (FilterMessage f m) p)) =
        p\<lparr>calls := calls p @ map (\<lambda>f. FilterMessage f m) (f # fs')\<rparr>" "set fs' \<subseteq> set fs"
      by (auto simp: call_def)
    with False show ?thesis by (intro exI [of _ "f # fs'"]) (auto)
  qed
qed

text \<open>A message received changes only the log of the calls on filters and the listener's queue.\<close>

lemma receive_cases:
  obtains fs where "set fs \<subseteq> set (filters p)" "Context_OnMessageReceived handles m p =
    p\<lparr>calls := calls p @ map (\<lambda>f. FilterMessage f m) fs, listener_tasks := listener_tasks p @
      (if fst (TryFilters handles m p) then [] else [OnDispatchMessageTask m])\<rparr>"
proof -
  from try_filters_calls [of handles m "filters p" p] obtain fs where
    "snd (TryFilters handles m p) = p\<lparr>calls := calls p @ map (\<lambda>f. FilterMessage f m) fs\<rparr>" "set fs \<subseteq> set (filters p)"
    by (auto simp: TryFilters_def)
  then show thesis by (intro that [of fs])
    (auto simp: Context_OnMessageReceived_def OnMessageReceivedNoFilter_def post_to_listener_def split: prod.split)
qed

lemma receive_fields [simp]:
  "has_listener (Context_OnMessageReceived handles m p) = has_listener p"
  "has_channel (Context_OnMessageReceived handles m p) = has_channel p"
  "filters (Context_OnMessageReceived handles m p) = filters p"
  "ipc_tasks (Context_OnMessageReceived handles m p) = ipc_tasks p"
  "channel_connected_called (Context_OnMessageReceived handles m p) = channel_connected_called p"
  "listener_tasks (Context_OnMessageReceived handles m p) = listener_tasks p @
     (if fst (TryFilters handles m p) then [] else [OnDispatchMessageTask m])"
  by (rule receive_cases [of p handles m], simp)+

text \<open>What a projection of the log that ignores \<open>FilterMessage\<close> sees of a received message.\<close>

lemma receive_calls:
  assumes "\<And>f. f \<in> set (filters p) \<Longrightarrow> \<not> Q (FilterMessage f m)"
  shows "filter Q (calls (Context_OnMessageReceived handles m p)) = filter Q (calls p)"
proof (rule receive_cases [of p handles m])
  fix fs
  assume "set fs \<subseteq> set (filters p)"
  then have "filter Q (map (\<lambda>f. FilterMessage f m) fs) = []" using assms by (auto simp: filter_empty_conv)
  moreover assume "Context_OnMessageReceived handles m p = p\<lparr>calls := calls p @ map (\<lambda>f. FilterMessage f m) fs,
    listener_tasks := listener_tasks p @ (if fst (TryFilters handles m p) then [] else [OnDispatchMessageTask m])\<rparr>"
  ultimately show ?thesis by simp
qed

lemma receive_heard [simp]: "heard_in (calls (Context_OnMessageReceived handles m p)) = heard_in (calls p)"
proof (rule receive_cases [of p handles m])
  fix fs
  assume "Context_OnMessageReceived handles m p = p\<lparr>calls := calls p @ map (\<lambda>f. FilterMessage f m) fs,
    listener_tasks := listener_tasks p @ (if fst (TryFilters handles m p) then [] else [OnDispatchMessageTask m])\<rparr>"
  moreover have "heard_in (map (\<lambda>f. FilterMessage f m) fs) = []" by (induction fs) simp_all
  ultimately show ?thesis by simp
qed

text \<open>The messages that an event lets through to the listener.\<close>

definition passed :: "('f proxy_call list \<Rightarrow> 'f \<Rightarrow> message \<Rightarrow> bool) \<Rightarrow> 'f proxy_event \<Rightarrow> 'f proxy \<Rightarrow> message list" where
  "passed handles e p = (case e of Receive m \<Rightarrow> (if fst (TryFilters handles m p) then [] else [m]) | _ \<Rightarrow> [])"

fun passed_run :: "('f proxy_call list \<Rightarrow> 'f \<Rightarrow> message \<Rightarrow> bool) \<Rightarrow> 'f proxy_event list \<Rightarrow> 'f proxy \<Rightarrow> message list" where
  "passed_run handles [] p = []"
| "passed_run handles (e # es) p = passed handles e p @
     (case proxy_step handles e p of None \<Rightarrow> [] | Some p1 \<Rightarrow> passed_run handles es p1)"

lemma step_listener:
  assumes "proxy_step handles e p = Some p'" "has_listener p'"
  shows "has_listener p"
  using assms by (cases e) (auto simp: proxy_step_def proxy_defs Let_def split: proxy_splits)

lemma step_order:
  assumes "proxy_step handles e p = Some p'" "has_listener p'"
  shows "heard_in (calls p') @ in_flight (listener_tasks p') =
    heard_in (calls p) @ in_flight (listener_tasks p) @ passed handles e p"
  using assms by (cases e) (auto simp: proxy_step_def proxy_defs passed_def Let_def split: proxy_splits)

lemma run_listener: "proxy_run handles es p = Some p' \<Longrightarrow> has_listener p' \<Longrightarrow> has_listener p"
  by (induction es arbitrary: p) (auto simp: bind_eq_Some_conv dest: step_listener)


section \<open>The greeting\<close>

definition is_talk :: "'f proxy_call \<Rightarrow> bool" where
  "is_talk c = (case c of ListenerConnected pid \<Rightarrow> True | ListenerMessage m \<Rightarrow> True | _ \<Rightarrow> False)"

definition greeted :: "'f proxy \<Rightarrow> bool" where
  "greeted p \<longleftrightarrow> filter is_talk (calls p) = [] \<and> (channel_connected_called p \<longrightarrow> \<not> has_listener p) \<or>
     channel_connected_called p \<and>
     (\<exists>pid ms. filter is_talk (calls p) = ListenerConnected pid # map ListenerMessage ms)"

lemma is_talk_simps [simp]:
  "is_talk (ListenerConnected pid)" "is_talk (ListenerMessage m)" "\<not> is_talk (FilterAdded f)"
  "\<not> is_talk (FilterRemoved f)" "\<not> is_talk (FilterConnected f pid)" "\<not> is_talk (FilterError f)"
  "\<not> is_talk (FilterClosing f)" "\<not> is_talk (FilterMessage f m)" "\<not> is_talk ListenerError" "\<not> is_talk (ChannelSent m)" "\<not> is_talk ChannelDeleted"
  by (simp_all add: is_talk_def)

lemma no_talk_filters [simp]:
  "filter is_talk (map (\<lambda>f. FilterConnected f pid) fs) = []" "filter is_talk (map FilterError fs) = []"
  "filter is_talk (map FilterAdded fs) = []"
  "filter is_talk (concat (map (\<lambda>f. [FilterClosing f, FilterRemoved f]) fs)) = []"
  by (induction fs) simp_all

lemma greeted_message:
  assumes "greeted p"
  shows "greeted (OnDispatchMessage m p)" "greeted (OnDispatchConnected p)"
proof -
  show c: "greeted (OnDispatchConnected p)"
    using assms by (auto simp: greeted_def OnDispatchConnected_def call_def Let_def)
  show "greeted (OnDispatchMessage m p)"
  proof (cases "has_listener p")
    case False
    then show ?thesis using assms by (simp add: OnDispatchMessage_def)
  next
    case True
    then have "channel_connected_called (OnDispatchConnected p)" "has_listener (OnDispatchConnected p)"
      by (simp_all add: OnDispatchConnected_def call_def Let_def)
    with c obtain pid ms where "filter is_talk (calls (OnDispatchConnected p)) = ListenerConnected pid # map ListenerMessage ms"
      by (auto simp: greeted_def)
    then have "filter is_talk (calls (OnDispatchMessage m p)) = ListenerConnected pid # map ListenerMessage (ms @ [m])"
      using True by (simp add: OnDispatchMessage_def call_def)
    then have "\<exists>pid ms. filter is_talk (calls (OnDispatchMessage m p)) = ListenerConnected pid # map ListenerMessage ms"
      by blast
    moreover have "channel_connected_called (OnDispatchMessage m p)"
      using True \<open>channel_connected_called (OnDispatchConnected p)\<close> by (simp add: OnDispatchMessage_def call_def)
    ultimately show ?thesis by (simp add: greeted_def)
  qed
qed

lemma step_greeted:
  assumes "greeted p" "proxy_step handles e p = Some p'"
  shows "greeted p'"
proof (cases "\<exists>t ts. e = ListenerTask \<and> listener_tasks p = t # ts \<and> t \<noteq> OnDispatchErrorTask")
  case True
  then obtain t ts where t: "e = ListenerTask" "listener_tasks p = t # ts" "t \<noteq> OnDispatchErrorTask" by blast
  have "greeted (p\<lparr>listener_tasks := ts\<rparr>)" using assms(1) by (simp add: greeted_def)
  then show ?thesis using t assms(2) greeted_message
    by (cases t) (auto simp: proxy_step_def run_listener_task_def)
next
  case False
  then have "filter is_talk (calls p') = filter is_talk (calls p) \<and>
      channel_connected_called p' = channel_connected_called p \<and> (has_listener p' \<longrightarrow> has_listener p)"
    using assms(2) by (cases e) (auto simp: proxy_step_def proxy_defs Let_def receive_calls split: proxy_splits)
  then show ?thesis using assms(1) by (auto simp: greeted_def)
qed

text \<open>
  in every interleaving the listener's first call is that the channel is connected, that call is
  made only once, and it comes before every message.
\<close>

theorem connected_once_and_first:
  assumes "ChannelProxy_new l f now = Some p" "proxy_run handles es p = Some p'"
  shows "filter is_talk (calls p') = [] \<or>
    (\<exists>pid ms. filter is_talk (calls p') = ListenerConnected pid # map ListenerMessage ms)"
proof -
  have "greeted p" using assms(1)
    by (auto simp: ChannelProxy_new_def Proxy_Init_def Context_new_def CreateChannel_def post_to_ipc_def
      greeted_def bind_eq_Some_conv split: if_splits)
  then have "greeted p'" using assms(2)
    by (induction es arbitrary: p) (auto simp: bind_eq_Some_conv dest: step_greeted)
  then show ?thesis by (auto simp: greeted_def)
qed

section \<open>After Close\<close>

definition is_listener_call :: "'f proxy_call \<Rightarrow> bool" where
  "is_listener_call c = (case c of ListenerConnected pid \<Rightarrow> True | ListenerMessage m \<Rightarrow> True
     | ListenerError \<Rightarrow> True | _ \<Rightarrow> False)"

lemma is_listener_call_simps [simp]:
  "is_listener_call (ListenerConnected pid)" "is_listener_call (ListenerMessage m)" "is_listener_call ListenerError"
  "\<not> is_listener_call (FilterAdded f)" "\<not> is_listener_call (FilterRemoved f)"
  "\<not> is_listener_call (FilterConnected f pid)" "\<not> is_listener_call (FilterError f)"
  "\<not> is_listener_call (FilterClosing f)" "\<not> is_listener_call (FilterMessage f m)"
  "\<not> is_listener_call (ChannelSent m)" "\<not> is_listener_call ChannelDeleted"
  by (simp_all add: is_listener_call_def)

lemma no_listener_call_filters [simp]:
  "filter is_listener_call (map (\<lambda>f. FilterConnected f pid) fs) = []"
  "filter is_listener_call (map FilterError fs) = []" "filter is_listener_call (map FilterAdded fs) = []"
  "filter is_listener_call (concat (map (\<lambda>f. [FilterClosing f, FilterRemoved f]) fs)) = []"
  by (induction fs) simp_all

lemma step_silent:
  assumes "proxy_step handles e p = Some p'" "\<not> has_listener p"
  shows "\<not> has_listener p' \<and> filter is_listener_call (calls p') = filter is_listener_call (calls p)"
  using assms by (cases e) (auto simp: proxy_step_def proxy_defs Let_def receive_calls split: proxy_splits)

text \<open>
  C21: after \<open>Close\<close> the listener is never called again, whatever messages, errors and connections
  arrive or were already on their way to its thread, in every interleaving.
\<close>

theorem closed_listener_not_called:
  assumes "Proxy_Close p = Some p1" "proxy_run handles es p1 = Some p'"
  shows "filter is_listener_call (calls p') = filter is_listener_call (calls p)"
proof -
  have "\<not> has_listener p1 \<and> calls p1 = calls p" using assms(1)
    by (auto simp: Proxy_Close_def Context_Clear_def post_to_ipc_def Let_def split: if_splits)
  moreover have "proxy_run handles es p1 = Some p' \<Longrightarrow> \<not> has_listener p1 \<Longrightarrow>
      filter is_listener_call (calls p') = filter is_listener_call (calls p1)"
    by (induction es arbitrary: p1) (auto simp: bind_eq_Some_conv dest: step_silent)
  ultimately show ?thesis using assms(2) by simp
qed

section \<open>Filters\<close>

definition is_call_of :: "'f \<Rightarrow> 'f proxy_call \<Rightarrow> bool" where
  "is_call_of f c = (case c of FilterAdded g \<Rightarrow> g = f | FilterRemoved g \<Rightarrow> g = f | FilterConnected g pid \<Rightarrow> g = f
     | FilterError g \<Rightarrow> g = f | FilterClosing g \<Rightarrow> g = f | FilterMessage g m \<Rightarrow> g = f | _ \<Rightarrow> False)"

lemma is_call_of_simps [simp]:
  "is_call_of f (FilterAdded g) \<longleftrightarrow> g = f" "is_call_of f (FilterRemoved g) \<longleftrightarrow> g = f"
  "is_call_of f (FilterConnected g pid) \<longleftrightarrow> g = f" "is_call_of f (FilterError g) \<longleftrightarrow> g = f"
  "is_call_of f (FilterClosing g) \<longleftrightarrow> g = f" "is_call_of f (FilterMessage g m) \<longleftrightarrow> g = f"
  "\<not> is_call_of f (ListenerConnected pid)" "\<not> is_call_of f (ListenerMessage m)" "\<not> is_call_of f ListenerError"
  "\<not> is_call_of f (ChannelSent m)" "\<not> is_call_of f ChannelDeleted"
  by (simp_all add: is_call_of_def)

lemma no_call_of_others:
  assumes "f \<notin> set fs"
  shows "filter (is_call_of f) (map (\<lambda>f. FilterConnected f pid) fs) = []"
    "filter (is_call_of f) (map FilterError fs) = []" "filter (is_call_of f) (map FilterAdded fs) = []"
    "filter (is_call_of f) (concat (map (\<lambda>f. [FilterClosing f, FilterRemoved f]) fs)) = []"
  using assms by (induction fs) auto

definition gone :: "'f \<Rightarrow> 'f proxy \<Rightarrow> bool" where
  "gone f p \<longleftrightarrow> f \<notin> set (filters p) \<and> OnAddFilterTask f \<notin> set (ipc_tasks p)"

lemma receive_gone: "gone f p \<Longrightarrow> filter (is_call_of f) (calls (Context_OnMessageReceived handles m p)) =
    filter (is_call_of f) (calls p)"
  by (rule receive_calls) (auto simp: gone_def)

lemma step_gone:
  assumes "proxy_step handles e p = Some p'" "gone f p" "e \<noteq> CallAddFilter f"
  shows "gone f p' \<and> filter (is_call_of f) (calls p') = filter (is_call_of f) (calls p)"
  using assms by (cases e) (auto simp: proxy_step_def proxy_defs Let_def receive_gone gone_def no_call_of_others
    notin_set_remove1 split: proxy_splits)


section \<open>Order of what is sent\<close>

definition sent_in :: "'f proxy_call list \<Rightarrow> message list" where
  "sent_in cs = concat (map (\<lambda>c. case c of ChannelSent m \<Rightarrow> [m] | _ \<Rightarrow> []) cs)"

definition to_be_sent :: "'f ipc_task list \<Rightarrow> message list" where
  "to_be_sent ts = concat (map (\<lambda>t. case t of SendTask m \<Rightarrow> [m] | _ \<Rightarrow> []) ts)"

definition sends :: "'f proxy_event list \<Rightarrow> message list" where
  "sends es = concat (map (\<lambda>e. case e of CallSend m \<Rightarrow> [m] | _ \<Rightarrow> []) es)"

lemma sent_in_simps [simp]:
  "sent_in [] = []" "sent_in (cs @ ds) = sent_in cs @ sent_in ds"
  "sent_in (c # cs) = (case c of ChannelSent m \<Rightarrow> [m] | _ \<Rightarrow> []) @ sent_in cs"
  by (simp_all add: sent_in_def)

lemma to_be_sent_simps [simp]:
  "to_be_sent [] = []" "to_be_sent (ts @ us) = to_be_sent ts @ to_be_sent us"
  "to_be_sent (t # ts) = (case t of SendTask m \<Rightarrow> [m] | _ \<Rightarrow> []) @ to_be_sent ts"
  by (simp_all add: to_be_sent_def)

lemma sends_simps [simp]:
  "sends [] = []" "sends (e # es) = (case e of CallSend m \<Rightarrow> [m] | _ \<Rightarrow> []) @ sends es"
  by (simp_all add: sends_def)

lemma sent_in_filters [simp]:
  "sent_in (map (\<lambda>f. FilterConnected f pid) fs) = []" "sent_in (map FilterError fs) = []"
  "sent_in (map FilterAdded fs) = []" "sent_in (map (\<lambda>f. FilterMessage f m) fs) = []"
  "sent_in (concat (map (\<lambda>f. [FilterClosing f, FilterRemoved f]) fs)) = []"
  by (induction fs) simp_all

lemma receive_sent [simp]: "sent_in (calls (Context_OnMessageReceived handles m p)) = sent_in (calls p)"
  by (rule receive_cases [of p handles m]) simp

text \<open>
  The task that creates the channel, if there is one, runs before everything else, and there is no
  second one: so a channel that was deleted is not made again.
\<close>

definition sending_in_order :: "message list \<Rightarrow> 'f proxy \<Rightarrow> bool" where
  "sending_in_order ms p \<longleftrightarrow>
     (\<exists>ts. ipc_tasks p = CreateChannelTask # ts \<and> CreateChannelTask \<notin> set ts) \<and> \<not> has_channel p \<and>
       sent_in (calls p) @ to_be_sent (ipc_tasks p) = ms \<or>
     CreateChannelTask \<notin> set (ipc_tasks p) \<and>
       (has_channel p \<longrightarrow> sent_in (calls p) @ to_be_sent (ipc_tasks p) = ms)"

lemma sending_posted:
  assumes "sending_in_order ms p" "ipc_tasks p' = ipc_tasks p @ ts" "CreateChannelTask \<notin> set ts"
    "has_channel p' = has_channel p" "sent_in (calls p') = sent_in (calls p)"
  shows "sending_in_order (ms @ to_be_sent ts) p'"
  using assms(1,3) unfolding sending_in_order_def assms(2,4,5) by auto

lemma task_sending:
  assumes "run_ipc_task ok t (p\<lparr>ipc_tasks := ts\<rparr>) = Some p'" "ipc_tasks p = t # ts" "sending_in_order ms p"
  shows "sending_in_order ms p'"
proof (cases t)
  case CreateChannelTask
  then have "CreateChannelTask \<notin> set ts" "sent_in (calls p) @ to_be_sent ts = ms"
    using assms(2,3) by (auto simp: sending_in_order_def)
  then show ?thesis using assms(1) CreateChannelTask
    by (auto simp: run_ipc_task_def CreateChannel_def sending_in_order_def)
next
  case (SendTask m)
  then have "CreateChannelTask \<notin> set ts" "has_channel p \<longrightarrow> sent_in (calls p) @ m # to_be_sent ts = ms"
    using assms(2,3) by (auto simp: sending_in_order_def)
  moreover have "p' = OnSendMessage ok m (p\<lparr>ipc_tasks := ts\<rparr>)" using assms(1) SendTask by (simp add: run_ipc_task_def)
  then have "ipc_tasks p' = ts" "has_channel p' = has_channel p"
    "has_channel p \<longrightarrow> sent_in (calls p') = sent_in (calls p) @ [m]"
    by (cases "has_channel p"; cases ok; simp add: OnSendMessage_def OnChannelClosed_def
      Context_OnChannelError_def call_def call_filters_def post_to_listener_def)+
  ultimately show ?thesis by (simp add: sending_in_order_def)
next
  case OnChannelOpenedTask
  then have n: "CreateChannelTask \<notin> set ts" "has_channel p \<longrightarrow> sent_in (calls p) @ to_be_sent ts = ms"
    using assms(2,3) by (auto simp: sending_in_order_def)
  have "ipc_tasks p' = ts" "has_channel p' = has_channel p" "sent_in (calls p') = sent_in (calls p)"
    using assms(1) OnChannelOpenedTask by (auto simp: run_ipc_task_def OnChannelOpened_def
      Context_OnChannelError_def call_filters_def post_to_listener_def split: if_splits)
  then show ?thesis using n by (simp add: sending_in_order_def)
next
  case OnChannelClosedTask
  then have n: "CreateChannelTask \<notin> set ts" using assms(2,3) by (auto simp: sending_in_order_def)
  have "ipc_tasks p' = ts" "\<not> has_channel p'" using assms(1) OnChannelClosedTask
    by (auto simp: run_ipc_task_def OnChannelClosed_def call_def call_filters_def split: if_splits)
  then show ?thesis using n by (simp add: sending_in_order_def)
next
  case (OnAddFilterTask f)
  then have n: "CreateChannelTask \<notin> set ts" "has_channel p \<longrightarrow> sent_in (calls p) @ to_be_sent ts = ms"
    using assms(2,3) by (auto simp: sending_in_order_def)
  have "ipc_tasks p' = ts" "has_channel p' = has_channel p" "sent_in (calls p') = sent_in (calls p)"
    using assms(1) OnAddFilterTask by (auto simp: run_ipc_task_def OnAddFilter_def call_def Let_def split: if_splits)
  then show ?thesis using n by (simp add: sending_in_order_def)
next
  case (OnRemoveFilterTask f)
  then have n: "CreateChannelTask \<notin> set ts" "has_channel p \<longrightarrow> sent_in (calls p) @ to_be_sent ts = ms"
    using assms(2,3) by (auto simp: sending_in_order_def)
  have "ipc_tasks p' = ts" "has_channel p' = has_channel p" "sent_in (calls p') = sent_in (calls p)"
    using assms(1) OnRemoveFilterTask by (auto simp: run_ipc_task_def OnRemoveFilter_def call_def split: if_splits)
  then show ?thesis using n by (simp add: sending_in_order_def)
qed

lemma step_sending:
  assumes "proxy_step handles e p = Some p'" "sending_in_order ms p"
  shows "sending_in_order (ms @ sends [e]) p'"
proof (cases e)
  case (IpcTask ok)
  show ?thesis
  proof (cases "ipc_tasks p")
    case Nil
    then show ?thesis using assms IpcTask by (simp add: proxy_step_def)
  next
    case (Cons t ts)
    then show ?thesis using assms IpcTask task_sending [OF _ Cons assms(2)] by (simp add: proxy_step_def)
  qed
next
  case (CallSend m)
  then show ?thesis using sending_posted [OF assms(2), of p' "[SendTask m]"] assms(1)
    by (auto simp: proxy_step_def Proxy_Send_def post_to_ipc_def split: if_splits)
next
  case (CallAddFilter f)
  then show ?thesis using sending_posted [OF assms(2), of p' "[OnAddFilterTask f]"] assms(1)
    by (auto simp: proxy_step_def Proxy_AddFilter_def post_to_ipc_def split: if_splits)
next
  case (CallRemoveFilter f)
  then show ?thesis using sending_posted [OF assms(2), of p' "[OnRemoveFilterTask f]"] assms(1)
    by (auto simp: proxy_step_def Proxy_RemoveFilter_def post_to_ipc_def split: if_splits)
next
  case CallClose
  then show ?thesis using sending_posted [OF assms(2), of p' "[OnChannelClosedTask]"]
      sending_posted [OF assms(2), of p' "[]"] assms(1)
    by (auto simp: proxy_step_def Proxy_Close_def Context_Clear_def post_to_ipc_def Let_def split: if_splits)
next
  case ListenerTask
  then show ?thesis using sending_posted [OF assms(2), of p' "[]"] assms(1)
    by (auto simp: proxy_step_def run_listener_task_def OnDispatchMessage_def OnDispatchConnected_def OnDispatchError_def
      call_def Let_def split: list.splits listener_task.splits if_splits)
qed (use sending_posted [OF assms(2), of p' "[]"] assms(1) in \<open>auto simp: proxy_step_def
  Context_OnChannelConnected_def Context_OnChannelError_def call_filters_def post_to_listener_def
  ClearIPCMessageLoop_def split: if_splits\<close>)


section \<open>A run\<close>

text \<open>A proxy with filter 1 that takes nothing, which is opened, connected and receives one message.\<close>

abbreviation takes_nothing :: "nat proxy_call list \<Rightarrow> nat \<Rightarrow> message \<Rightarrow> bool" where
  "takes_nothing cs f m \<equiv> False"

definition tick :: message where
  "tick = \<lparr>hdr = 4096, hdr_mem = [0,0,0,0, 1,0,0,0, 2,0,0,0, 1,0,0,0, 0,0,0,0], hdr_size = 20,
     capacity = kCapacityReadOnly, variable_buffer_offset = 0, fd_set = None\<rparr>"

definition sample_proxy :: "nat proxy" where
  "sample_proxy = \<lparr>has_listener = True, filters = [1], has_ipc_loop = True, has_channel = True,
     peer_pid = 0, channel_connected_called = False, ipc_tasks = [OnChannelOpenedTask], listener_tasks = [], calls = []\<rparr>"

definition sample_run :: "nat proxy_event list" where
  "sample_run = [IpcTask True, Connected 7, Receive tick, ListenerTask, CallSend tick,
     IpcTask True, ListenerTask]"

definition sample_end :: "nat proxy" where
  "sample_end = \<lparr>has_listener = True, filters = [1], has_ipc_loop = True, has_channel = True,
     peer_pid = 7, channel_connected_called = True, ipc_tasks = [], listener_tasks = [],
     calls = [FilterAdded 1, FilterConnected 1 7, FilterMessage 1 tick, ListenerConnected 7,
       ChannelSent tick, ListenerMessage tick]\<rparr>"

lemmas run_simps = proxy_step_def proxy_defs Let_def Context_OnMessageReceived_def TryFilters_def

lemma sample_new: "ChannelProxy_new True (Some 1) True = Some sample_proxy"
  by (simp add: ChannelProxy_new_def Proxy_Init_def Context_new_def sample_proxy_def proxy_defs)

lemma sample_runs: "proxy_run takes_nothing sample_run sample_proxy = Some sample_end"
  by (simp add: sample_run_def sample_proxy_def sample_end_def run_simps)


theorem connected_once_and_first_witness:
  "filter is_talk (calls sample_end) = [] \<or>
    (\<exists>pid ms. filter is_talk (calls sample_end) = ListenerConnected pid # map ListenerMessage ms)"
  by (rule connected_once_and_first [OF sample_new sample_runs])

theorem closed_listener_not_called_witness:
  "\<exists>p1 p'. Proxy_Close sample_proxy = Some p1 \<and>
     proxy_run takes_nothing [Receive tick, ListenerTask, IpcTask True, IpcTask True, ListenerTask] p1 = Some p' \<and>
     filter is_listener_call (calls p') = filter is_listener_call (calls sample_proxy)"
proof -
  obtain p1 where p1: "Proxy_Close sample_proxy = Some p1"
    "\<exists>p'. proxy_run takes_nothing [Receive tick, ListenerTask, IpcTask True, IpcTask True, ListenerTask] p1 = Some p'"
    by (simp add: sample_proxy_def run_simps)
  then obtain p' where p': "proxy_run takes_nothing [Receive tick, ListenerTask, IpcTask True, IpcTask True, ListenerTask] p1 = Some p'"
    by blast
  from p1(1) p' closed_listener_not_called [OF p1(1) p'] show ?thesis by blast
qed



end
