(* ===== verification/SyncChannel.thy ===== *)
theory SyncChannel imports ProxyProps SyncMessage begin

text \<open>
  \<open>ipc/ipc_sync_channel.h\<close> and \<open>.cc\<close>: blocking sends over several channels of one listener thread.
  The listener thread is a stack of the calls it is in, the IPC thread a program counter inside the
  call it makes. Every access to shared state under a lock, every signal and every task that is posted
  is a step of its own, so a run is an interleaving of the two threads as the code allows it. A
  context of type \<open>'c\<close> is one channel. Tasks of the IPC thread that belong to different queues of the
  model may run in any order, and a delayed task at any time, which allows more runs than the code has.
  \<open>None\<close> is an event that cannot happen in the state, or a call through a null pointer.
\<close>

section \<open>State\<close>

record 'd pending =
  pending_id :: u32
  pending_deserializer :: "'d option"
  done_event :: bool
  send_result :: bool
  reply_output :: "message option"

text \<open>Where the IPC thread is: between tasks, or inside \<open>QueueMessage\<close>, \<open>QueueReply\<close> or \<open>DispatchReplies\<close>.\<close>

datatype 'c ipc_position = Idle | Queueing 'c message | Signalling bool | Posting
  | QueueingReply 'c message | Replying nat

text \<open>
  The calls the listener thread is in: user code, the loop of \<open>DispatchMessages\<close>, and the stages of
  \<open>SendWithTimeout\<close>, each with the id of its message. \<open>Waiting\<close> says whether there is an event that
  starts message pumping; \<open>Nested\<close> keeps the event that was watched before.
\<close>

datatype ('c, 'd) frame = Handler | Draining | Sending 'c u32 "'d sync_message" bool | Waiting 'c u32 bool
  | Nested 'c u32 "('c \<times> nat) option" | Popping 'c u32

datatype 'c sync_note = Sent 'c u32 | Arrived 'c message | Queued 'c message | Dispatched 'c message
  | Returned 'c u32 bool "message option"

record ('c, 'f, 'd) sync_state =
  proxies :: "'c \<Rightarrow> 'f proxy"
  deserializers :: "'c \<Rightarrow> 'd pending list"
  shutdown_watched :: "'c \<Rightarrow> bool"
  shutdown_event :: bool
  message_queue :: "('c \<times> message) list"
  received_replies :: "('c \<times> message) list"
  dispatch_event :: bool
  task_pending :: bool
  listener_count :: nat
  top_send_done_watcher :: "('c \<times> nat) option"
  dispatch_tasks :: nat
  reply_tasks :: nat
  timeouts :: "('c \<times> u32) list"
  position :: "'c ipc_position"
  stack :: "('c, 'd) frame list"
  sync_log :: "'c sync_note list"

definition record_note :: "'c sync_note \<Rightarrow> ('c, 'f, 'd) sync_state \<Rightarrow> ('c, 'f, 'd) sync_state" where
  "record_note n s = s\<lparr>sync_log := sync_log s @ [n]\<rparr>"

definition set_proxy :: "'c \<Rightarrow> 'f proxy \<Rightarrow> ('c, 'f, 'd) sync_state \<Rightarrow> ('c, 'f, 'd) sync_state" where
  "set_proxy c p s = s\<lparr>proxies := (proxies s)(c := p)\<rparr>"

definition push_frame :: "('c, 'd) frame \<Rightarrow> ('c, 'f, 'd) sync_state \<Rightarrow> ('c, 'f, 'd) sync_state" where
  "push_frame f s = s\<lparr>stack := f # stack s\<rparr>"

definition pop_frame :: "('c, 'f, 'd) sync_state \<Rightarrow> ('c, 'f, 'd) sync_state" where
  "pop_frame s = s\<lparr>stack := tl (stack s)\<rparr>"

text \<open>The state in which \<open>n\<close> contexts have been added and nothing has happened.\<close>

definition sync_initial :: "nat \<Rightarrow> ('c \<Rightarrow> 'f proxy) \<Rightarrow> ('c, 'f, 'd) sync_state" where
  "sync_initial n ps = \<lparr>proxies = ps, deserializers = (\<lambda>c. []), shutdown_watched = (\<lambda>c. False),
     shutdown_event = False, message_queue = [], received_replies = [], dispatch_event = False,
     task_pending = False, listener_count = n, top_send_done_watcher = None, dispatch_tasks = 0,
     reply_tasks = 0, timeouts = [], position = Idle, stack = [], sync_log = []\<rparr>"

section \<open>The queue of received synchronous messages\<close>

text \<open>\<open>QueueMessage\<close>: the section under the lock, the signal, the task if there was none.\<close>

definition queue_lock :: "'c \<Rightarrow> message \<Rightarrow> ('c, 'f, 'd) sync_state \<Rightarrow> ('c, 'f, 'd) sync_state" where
  "queue_lock c m s = record_note (Queued c m) (s\<lparr>position := Signalling (task_pending s), task_pending := True,
     message_queue := message_queue s @ [(c, m)]\<rparr>)"

definition queue_signal :: "bool \<Rightarrow> ('c, 'f, 'd) sync_state \<Rightarrow> ('c, 'f, 'd) sync_state" where
  "queue_signal was_task_pending s =
     s\<lparr>dispatch_event := True, position := if \<not> was_task_pending then Posting else Idle\<rparr>"

definition queue_post :: "('c, 'f, 'd) sync_state \<Rightarrow> ('c, 'f, 'd) sync_state" where
  "queue_post s = s\<lparr>dispatch_tasks := dispatch_tasks s + 1, position := Idle\<rparr>"

definition QueueReply :: "'c \<Rightarrow> message \<Rightarrow> ('c, 'f, 'd) sync_state \<Rightarrow> ('c, 'f, 'd) sync_state" where
  "QueueReply c m s = s\<lparr>received_replies := received_replies s @ [(c, m)], position := Idle\<rparr>"

definition DispatchMessagesTask :: "('c, 'f, 'd) sync_state \<Rightarrow> ('c, 'f, 'd) sync_state" where
  "DispatchMessagesTask s = push_frame Draining (s\<lparr>task_pending := False\<rparr>)"

text \<open>
  The call of the listener runs user code on top of the stack, if there is still a listener.
\<close>

definition dispatch_to_listener :: "'c \<Rightarrow> message \<Rightarrow> ('c, 'f, 'd) sync_state \<Rightarrow> ('c, 'f, 'd) sync_state" where
  "dispatch_to_listener c m s = (let s1 = set_proxy c (OnDispatchMessage m (proxies s c)) s in
     if has_listener (proxies s c) then push_frame Handler s1 else s1)"

text \<open>One round of the loop of \<open>DispatchMessages\<close>.\<close>

definition DispatchMessages_round :: "('c, 'f, 'd) sync_state \<Rightarrow> ('c, 'f, 'd) sync_state" where
  "DispatchMessages_round s = (case message_queue s of [] \<Rightarrow> pop_frame s
   | (c, m) # q \<Rightarrow> dispatch_to_listener c m (record_note (Dispatched c m) (s\<lparr>message_queue := q\<rparr>)))"

definition RemoveContext :: "'c \<Rightarrow> ('c, 'f, 'd) sync_state \<Rightarrow> ('c, 'f, 'd) sync_state" where
  "RemoveContext c s = s\<lparr>message_queue := filter (\<lambda>(context, m). context \<noteq> c) (message_queue s),
     listener_count := listener_count s - 1\<rparr>"

section \<open>The context of a channel\<close>

definition set_pending :: "'c \<Rightarrow> 'd pending list \<Rightarrow> ('c, 'f, 'd) sync_state \<Rightarrow> ('c, 'f, 'd) sync_state" where
  "set_pending c ps s = s\<lparr>deserializers := (deserializers s)(c := ps)\<rparr>"

definition Push :: "'c \<Rightarrow> u32 \<Rightarrow> 'd option \<Rightarrow> ('c, 'f, 'd) sync_state \<Rightarrow> ('c, 'f, 'd) sync_state" where
  "Push c i d s = set_pending c (deserializers s c @ [\<lparr>pending_id = i, pending_deserializer = d,
     done_event = False, send_result = False, reply_output = None\<rparr>]) s"

definition Pop :: "'c \<Rightarrow> ('c, 'f, 'd) sync_state \<Rightarrow> (bool \<times> ('c, 'f, 'd) sync_state) option" where
  "Pop c s = (if deserializers s c = [] then None
     else Some (send_result (last (deserializers s c)),
       (set_pending c (butlast (deserializers s c)) s)\<lparr>reply_tasks := reply_tasks s + 1\<rparr>))"

definition signal :: "'d pending \<Rightarrow> 'd pending" where
  "signal p = p\<lparr>done_event := True\<rparr>"

text \<open>
  \<open>ser d m\<close> is the result of the deserialiser \<open>d\<close>, whose outputs come from \<open>m\<close>.
\<close>

definition take_reply :: "('d \<Rightarrow> message \<Rightarrow> bool) \<Rightarrow> message \<Rightarrow> 'd pending \<Rightarrow> 'd pending option" where
  "take_reply ser m p = do {
     e \<leftarrow> is_reply_error m;
     if \<not> e then do {
       d \<leftarrow> pending_deserializer p;
       Some (p\<lparr>send_result := ser d m, reply_output := Some m\<rparr>) }
     else Some p }"

definition TryToUnblockListener :: "('d \<Rightarrow> message \<Rightarrow> bool) \<Rightarrow> message \<Rightarrow> 'c \<Rightarrow> ('c, 'f, 'd) sync_state \<Rightarrow>
    (bool \<times> ('c, 'f, 'd) sync_state) option" where
  "TryToUnblockListener ser m c s = (if deserializers s c = [] then Some (False, s) else do {
     r \<leftarrow> IsMessageReplyTo m (pending_id (last (deserializers s c)));
     if \<not> r then Some (False, s)
     else do {
       p \<leftarrow> take_reply ser m (last (deserializers s c));
       Some (True, set_pending c (butlast (deserializers s c) @ [signal p]) s) } })"

text \<open>One round of the loop of \<open>DispatchReplies\<close>.\<close>

definition DispatchReplies_round :: "('d \<Rightarrow> message \<Rightarrow> bool) \<Rightarrow> nat \<Rightarrow> ('c, 'f, 'd) sync_state \<Rightarrow>
    ('c, 'f, 'd) sync_state option" where
  "DispatchReplies_round ser i s = (if \<not> i < length (received_replies s) then Some (s\<lparr>position := Idle\<rparr>)
     else (case received_replies s ! i of (c, m) \<Rightarrow> do {
       (r, s1) \<leftarrow> TryToUnblockListener ser m c s;
       Some (if r then s1\<lparr>received_replies := take i (received_replies s) @ drop (Suc i) (received_replies s),
           position := Idle\<rparr>
         else s1\<lparr>position := Replying (i + 1)\<rparr>) }))"

definition CancelPendingSends :: "'c \<Rightarrow> ('c, 'f, 'd) sync_state \<Rightarrow> ('c, 'f, 'd) sync_state" where
  "CancelPendingSends c s = set_pending c (map signal (deserializers s c)) s"

fun signal_first :: "u32 \<Rightarrow> 'd pending list \<Rightarrow> 'd pending list" where
  "signal_first i [] = []"
| "signal_first i (p # ps) = (if pending_id p = i then signal p # ps else p # signal_first i ps)"

definition OnSendTimeout :: "'c \<Rightarrow> u32 \<Rightarrow> ('c, 'f, 'd) sync_state \<Rightarrow> ('c, 'f, 'd) sync_state" where
  "OnSendTimeout c message_id s = set_pending c (signal_first message_id (deserializers s c)) s"

definition Sync_Clear :: "'c \<Rightarrow> ('c, 'f, 'd) sync_state \<Rightarrow> ('c, 'f, 'd) sync_state" where
  "Sync_Clear c s = (let s1 = RemoveContext c (CancelPendingSends c s) in
     set_proxy c (Context_Clear (proxies s1 c)) s1)"

definition Sync_OnMessageReceived :: "('f proxy_call list \<Rightarrow> 'f \<Rightarrow> message \<Rightarrow> bool) \<Rightarrow> ('d \<Rightarrow> message \<Rightarrow> bool) \<Rightarrow>
    message \<Rightarrow> 'c \<Rightarrow> ('c, 'f, 'd) sync_state \<Rightarrow> ('c, 'f, 'd) sync_state option" where
  "Sync_OnMessageReceived handles ser m c s = (case TryFilters handles m (proxies s c) of (taken, p) \<Rightarrow>
     if taken then Some (set_proxy c p s)
     else do {
       (unblocked, s1) \<leftarrow> TryToUnblockListener ser m c (record_note (Arrived c m) (set_proxy c p s));
       if unblocked then Some s1
       else do {
         u \<leftarrow> should_unblock m;
         if u then Some (s1\<lparr>position := Queueing c m\<rparr>)
         else do {
           r \<leftarrow> is_reply m;
           Some (if r then s1\<lparr>position := QueueingReply c m\<rparr>
             else set_proxy c (OnMessageReceivedNoFilter m (proxies s1 c)) s1) } } })"

definition set_watched :: "'c \<Rightarrow> bool \<Rightarrow> ('c, 'f, 'd) sync_state \<Rightarrow> ('c, 'f, 'd) sync_state" where
  "set_watched c b s = s\<lparr>shutdown_watched := (shutdown_watched s)(c := b)\<rparr>"

definition Sync_OnChannelError :: "'c \<Rightarrow> ('c, 'f, 'd) sync_state \<Rightarrow> ('c, 'f, 'd) sync_state" where
  "Sync_OnChannelError c s = (let s1 = set_watched c False (CancelPendingSends c s) in
     set_proxy c (Context_OnChannelError (proxies s1 c)) s1)"

definition Sync_OnChannelClosed :: "'c \<Rightarrow> ('c, 'f, 'd) sync_state \<Rightarrow> ('c, 'f, 'd) sync_state" where
  "Sync_OnChannelClosed c s = (let s1 = set_watched c False (CancelPendingSends c s) in
     set_proxy c (OnChannelClosed (proxies s1 c)) s1)"

text \<open>
  The tasks of the proxy that call virtual functions: opening and sending report an error or find the
  channel closed through the functions above.
\<close>

definition Sync_OnChannelOpened :: "bool \<Rightarrow> 'c \<Rightarrow> ('c, 'f, 'd) sync_state \<Rightarrow> ('c, 'f, 'd) sync_state option" where
  "Sync_OnChannelOpened connected c s = (let s1 = set_watched c True s in
     if \<not> has_channel (proxies s1 c) then None
     else if \<not> connected then Some (Sync_OnChannelError c s1)
     else Some (set_proxy c (call_filters (\<lambda>f. [FilterAdded f]) (proxies s1 c)) s1))"

definition Sync_OnSendMessage :: "bool \<Rightarrow> message \<Rightarrow> 'c \<Rightarrow> ('c, 'f, 'd) sync_state \<Rightarrow> ('c, 'f, 'd) sync_state" where
  "Sync_OnSendMessage accepted m c s = (if \<not> has_channel (proxies s c) then Sync_OnChannelClosed c s
     else (let s1 = set_proxy c (call (ChannelSent m) (proxies s c)) s in
       if \<not> accepted then Sync_OnChannelError c s1 else s1))"

definition run_sync_task :: "bool \<Rightarrow> 'c \<Rightarrow> ('c, 'f, 'd) sync_state \<Rightarrow> ('c, 'f, 'd) sync_state option" where
  "run_sync_task ok c s = (case ipc_tasks (proxies s c) of [] \<Rightarrow> None
   | t # ts \<Rightarrow> (let s1 = set_proxy c ((proxies s c)\<lparr>ipc_tasks := ts\<rparr>) s in
       (case t of
         OnChannelOpenedTask \<Rightarrow> Sync_OnChannelOpened ok c s1
       | SendTask m \<Rightarrow> Some (Sync_OnSendMessage ok m c s1)
       | OnChannelClosedTask \<Rightarrow> Some (Sync_OnChannelClosed c s1)
       | _ \<Rightarrow> map_option (\<lambda>p. set_proxy c p s1) (run_ipc_task ok t (proxies s1 c)))))"

section \<open>Sending\<close>

text \<open>
  \<open>SendWithTimeout\<close> up to the \<open>Push\<close>; the message and the delayed task are posted in the next step,
  so the state of the IPC thread may change in between. The frame stands for the call.
\<close>

definition SendWithTimeout :: "'c \<Rightarrow> 'd sync_message \<Rightarrow> bool \<Rightarrow> ('c, 'f, 'd) sync_state \<Rightarrow> ('c, 'f, 'd) sync_state option" where
  "SendWithTimeout c m timeout s = do {
     sync \<leftarrow> is_sync (base m);
     if \<not> sync then do {
       (ok, p) \<leftarrow> Proxy_Send (base m) (proxies s c);
       Some (set_proxy c p s) }
     else if shutdown_event s then Some s
     else do {
       i \<leftarrow> GetMessageId (base m);
       (d, m1) \<leftarrow> Some (GetReplyDeserializer m);
       Some (push_frame (Sending c i m1 timeout) (record_note (Sent c i) (Push c i d s))) } }"

definition post_and_wait :: "'c \<Rightarrow> u32 \<Rightarrow> 'd sync_message \<Rightarrow> bool \<Rightarrow> ('c, 'f, 'd) sync_state \<Rightarrow> ('c, 'f, 'd) sync_state option" where
  "post_and_wait c i m timeout s = do {
     (ok, p) \<leftarrow> Proxy_Send (base m) (proxies s c);
     s1 \<leftarrow> Some (set_proxy c p s);
     s2 \<leftarrow> Some (if timeout then s1\<lparr>timeouts := timeouts s1 @ [(c, i)]\<rparr> else s1);
     Some (push_frame (Waiting c i (pump_messages_event m \<noteq> None)) (pop_frame s2)) }"

text \<open>The event of the innermost pending send of a context, named by its place.\<close>

definition GetSendDoneEvent :: "'c \<Rightarrow> ('c, 'f, 'd) sync_state \<Rightarrow> ('c \<times> nat) option" where
  "GetSendDoneEvent c s = (if deserializers s c = [] then None else Some (c, length (deserializers s c) - 1))"

definition is_signaled :: "('c \<times> nat) \<Rightarrow> ('c, 'f, 'd) sync_state \<Rightarrow> bool" where
  "is_signaled e s = (case e of (c, i) \<Rightarrow> i < length (deserializers s c) \<and> done_event (deserializers s c ! i))"

definition WaitForReplyWithNestedMessageLoop :: "'c \<Rightarrow> u32 \<Rightarrow> ('c, 'f, 'd) sync_state \<Rightarrow> ('c, 'f, 'd) sync_state option" where
  "WaitForReplyWithNestedMessageLoop c i s = do {
     e \<leftarrow> GetSendDoneEvent c s;
     Some ((push_frame (Nested c i (top_send_done_watcher s)) (pop_frame s))\<lparr>top_send_done_watcher := Some e\<rparr>) }"

text \<open>What is left of that function when the loop has been quit.\<close>

definition leave_nested_loop :: "'c \<Rightarrow> u32 \<Rightarrow> ('c \<times> nat) option \<Rightarrow> ('c, 'f, 'd) sync_state \<Rightarrow> ('c, 'f, 'd) sync_state" where
  "leave_nested_loop c i old s = (push_frame (Popping c i) (pop_frame s))\<lparr>top_send_done_watcher := old\<rparr>"

text \<open>\<open>result\<close> is what \<open>WaitMany\<close> returns, the index of an event that is set.\<close>

definition WaitForReply :: "nat \<Rightarrow> 'c \<Rightarrow> u32 \<Rightarrow> bool \<Rightarrow> ('c, 'f, 'd) sync_state \<Rightarrow> ('c, 'f, 'd) sync_state option" where
  "WaitForReply result c i pump s = do {
     e \<leftarrow> GetSendDoneEvent c s;
     if result = 0 \<and> dispatch_event s then Some (push_frame Draining (s\<lparr>dispatch_event := False\<rparr>))
     else if result = 2 \<and> pump then WaitForReplyWithNestedMessageLoop c i s
     else if result = 1 \<and> is_signaled e s then Some (push_frame (Popping c i) (pop_frame s))
     else None }"

definition finish_send :: "'c \<Rightarrow> u32 \<Rightarrow> ('c, 'f, 'd) sync_state \<Rightarrow> ('c, 'f, 'd) sync_state option" where
  "finish_send c i s = do {
     (r, s1) \<leftarrow> Pop c s;
     Some (record_note (Returned c i r (reply_output (last (deserializers s c)))) (pop_frame s1)) }"

text \<open>\<open>OnWaitableEventSignaled\<close> of the channel, for the dispatch event.\<close>

definition on_dispatch_event :: "('c, 'f, 'd) sync_state \<Rightarrow> ('c, 'f, 'd) sync_state" where
  "on_dispatch_event s = push_frame Draining (s\<lparr>dispatch_event := False\<rparr>)"

text \<open>\<open>OnWaitableEventSignaled\<close> of the context: shutdown, or the watched send is done.\<close>

definition on_send_done :: "('c, 'f, 'd) sync_state \<Rightarrow> ('c, 'f, 'd) sync_state option" where
  "on_send_done s = (case stack s of
     Nested c i old # fs \<Rightarrow> (case top_send_done_watcher s of
         Some e \<Rightarrow> if is_signaled e s then Some (leave_nested_loop c i old s) else None
       | None \<Rightarrow> None)
   | _ \<Rightarrow> None)"

section \<open>Interleavings\<close>

datatype ('c, 'd) sync_event = Arrive 'c message | ConnectedTo 'c u32 | Broken 'c | RunIpcTask 'c bool
  | RunDispatchReplies | RunTimeout 'c u32 | Shutdown | RunShutdown 'c | IpcContinues
  | RunOtherTask | RunDispatchMessages | RunListenerTask 'c | DispatchEventFires | SendDoneFires
  | CallSyncSend 'c "'d sync_message" bool | CallCloseOf 'c | HandlerReturns
  | Drain | PostSend | WaitReturns nat | FinishSend

text \<open>The listener thread runs tasks in its outermost message loop or in a nested one.\<close>

definition at_loop :: "('c, 'f, 'd) sync_state \<Rightarrow> bool" where
  "at_loop s = (case stack s of [] \<Rightarrow> True | Nested c i old # fs \<Rightarrow> True | _ \<Rightarrow> False)"

definition ipc_continues :: "('d \<Rightarrow> message \<Rightarrow> bool) \<Rightarrow> ('c, 'f, 'd) sync_state \<Rightarrow> ('c, 'f, 'd) sync_state option" where
  "ipc_continues ser s = (case position s of
     Idle \<Rightarrow> None
   | Queueing c m \<Rightarrow> Some (queue_lock c m s)
   | Signalling was \<Rightarrow> Some (queue_signal was s)
   | Posting \<Rightarrow> Some (queue_post s)
   | QueueingReply c m \<Rightarrow> Some (QueueReply c m s)
   | Replying i \<Rightarrow> DispatchReplies_round ser i s)"

definition run_listener :: "'c \<Rightarrow> ('c, 'f, 'd) sync_state \<Rightarrow> ('c, 'f, 'd) sync_state option" where
  "run_listener c s = (case listener_tasks (proxies s c) of [] \<Rightarrow> None
   | t # ts \<Rightarrow> (let p = (proxies s c)\<lparr>listener_tasks := ts\<rparr>; p1 = run_listener_task t p; s1 = set_proxy c p1 s in
       Some (if calls p1 = calls p then s1 else push_frame Handler s1)))"

definition ipc_step :: "('f proxy_call list \<Rightarrow> 'f \<Rightarrow> message \<Rightarrow> bool) \<Rightarrow> ('d \<Rightarrow> message \<Rightarrow> bool) \<Rightarrow>
    ('c, 'd) sync_event \<Rightarrow> ('c, 'f, 'd) sync_state \<Rightarrow> ('c, 'f, 'd) sync_state option" where
  "ipc_step handles ser e s = (case e of
     Arrive c m \<Rightarrow> (if has_channel (proxies s c) then Sync_OnMessageReceived handles ser m c s else None)
   | ConnectedTo c pid \<Rightarrow> (if has_channel (proxies s c)
       then Some (set_proxy c (Context_OnChannelConnected pid (proxies s c)) s) else None)
   | Broken c \<Rightarrow> (if has_channel (proxies s c) then Some (Sync_OnChannelError c s) else None)
   | RunIpcTask c ok \<Rightarrow> run_sync_task ok c s
   | RunDispatchReplies \<Rightarrow> (if 0 < reply_tasks s
       then Some (s\<lparr>reply_tasks := reply_tasks s - 1, position := Replying 0\<rparr>) else None)
   | RunTimeout c i \<Rightarrow> (if (c, i) \<in> set (timeouts s)
       then Some (OnSendTimeout c i (s\<lparr>timeouts := remove1 (c, i) (timeouts s)\<rparr>)) else None)
   | RunShutdown c \<Rightarrow> (if shutdown_event s \<and> shutdown_watched s c
       then Some (set_watched c False (CancelPendingSends c s)) else None)
   | _ \<Rightarrow> None)"

definition loop_step :: "('c, 'd) sync_event \<Rightarrow> ('c, 'f, 'd) sync_state \<Rightarrow> ('c, 'f, 'd) sync_state option" where
  "loop_step e s = (case e of
     RunOtherTask \<Rightarrow> Some (push_frame Handler s)
   | RunDispatchMessages \<Rightarrow> (if 0 < dispatch_tasks s
       then Some (DispatchMessagesTask (s\<lparr>dispatch_tasks := dispatch_tasks s - 1\<rparr>)) else None)
   | RunListenerTask c \<Rightarrow> run_listener c s
   | DispatchEventFires \<Rightarrow> Some (on_dispatch_event s)
   | SendDoneFires \<Rightarrow> on_send_done s
   | _ \<Rightarrow> None)"

definition frame_step :: "('c, 'd) sync_event \<Rightarrow> ('c, 'f, 'd) sync_state \<Rightarrow> ('c, 'f, 'd) sync_state option" where
  "frame_step e s = (case (stack s, e) of
     (Handler # fs, CallSyncSend c m timeout) \<Rightarrow> SendWithTimeout c m timeout s
   | (Handler # fs, CallCloseOf c) \<Rightarrow> (let s1 = Sync_Clear c s in
       if has_ipc_loop (proxies s1 c)
       then map_option (\<lambda>p. set_proxy c p s1) (post_to_ipc OnChannelClosedTask (proxies s1 c)) else Some s1)
   | (Handler # fs, HandlerReturns) \<Rightarrow> Some (pop_frame s)
   | (Draining # fs, Drain) \<Rightarrow> Some (DispatchMessages_round s)
   | (Sending c i m timeout # fs, PostSend) \<Rightarrow> post_and_wait c i m timeout s
   | (Waiting c i pump # fs, WaitReturns result) \<Rightarrow> WaitForReply result c i pump s
   | (Popping c i # fs, FinishSend) \<Rightarrow> finish_send c i s
   | _ \<Rightarrow> None)"

definition is_ipc_event :: "('c, 'd) sync_event \<Rightarrow> bool" where
  "is_ipc_event e = (case e of Arrive c m \<Rightarrow> True | ConnectedTo c pid \<Rightarrow> True | Broken c \<Rightarrow> True
     | RunIpcTask c ok \<Rightarrow> True | RunDispatchReplies \<Rightarrow> True | RunTimeout c i \<Rightarrow> True | RunShutdown c \<Rightarrow> True
     | _ \<Rightarrow> False)"

definition is_loop_event :: "('c, 'd) sync_event \<Rightarrow> bool" where
  "is_loop_event e = (case e of RunOtherTask \<Rightarrow> True | RunDispatchMessages \<Rightarrow> True | RunListenerTask c \<Rightarrow> True
     | DispatchEventFires \<Rightarrow> True | SendDoneFires \<Rightarrow> True | _ \<Rightarrow> False)"

definition sync_step :: "('f proxy_call list \<Rightarrow> 'f \<Rightarrow> message \<Rightarrow> bool) \<Rightarrow> ('d \<Rightarrow> message \<Rightarrow> bool) \<Rightarrow>
    ('c, 'd) sync_event \<Rightarrow> ('c, 'f, 'd) sync_state \<Rightarrow> ('c, 'f, 'd) sync_state option" where
  "sync_step handles ser e s =
     (if e = Shutdown then Some (s\<lparr>shutdown_event := True\<rparr>)
      else if e = IpcContinues then ipc_continues ser s
      else if is_ipc_event e then (if position s = Idle then ipc_step handles ser e s else None)
      else if is_loop_event e then (if at_loop s then loop_step e s else None)
      else frame_step e s)"

fun sync_run :: "('f proxy_call list \<Rightarrow> 'f \<Rightarrow> message \<Rightarrow> bool) \<Rightarrow> ('d \<Rightarrow> message \<Rightarrow> bool) \<Rightarrow>
    ('c, 'd) sync_event list \<Rightarrow> ('c, 'f, 'd) sync_state \<Rightarrow> ('c, 'f, 'd) sync_state option" where
  "sync_run handles ser [] s = Some s"
| "sync_run handles ser (e # es) s = Option.bind (sync_step handles ser e s) (sync_run handles ser es)"

interpretation sync: machine "sync_step handles ser" "sync_run handles ser" for handles ser
  by unfold_locales simp_all

end
