(* ===== verification/SyncFilter.thy ===== *)
theory SyncFilter imports SyncChannel begin

text \<open>
  \<open>ipc/ipc_sync_message_filter.h\<close> and \<open>.cc\<close>: blocking sends from threads other than the listener thread.
  A sending thread is a number, the address of its pending message, which is also the order of the set of
  pending messages. Every section under the lock, every post and every wait of a sender is a step of its
  own; what the IO thread does in one call is one step, because what it shares it uses in one locked
  section. The checks that \<open>Send\<close> is not called on the listener or the IO thread are left to the caller.
\<close>

section \<open>State\<close>

text \<open>Where a sender is: before the insertion, before the post, in \<open>WaitMany\<close>, after it.\<close>

datatype 'd filter_stage = Entered u32 "'d option" message | Registered message | Awaiting | Woken

datatype filter_note = HandedOver message | ReplyArrived message | SendReturned nat u32 bool "message option"

record 'd filter_state =
  filter_channel :: bool
  filter_io_loop :: bool
  pending_sync_messages :: "(nat \<times> 'd pending) list"
  filter_shutdown :: bool
  io_queue :: "message list"
  in_send :: "nat \<Rightarrow> 'd filter_stage option"
  filter_log :: "filter_note list"

definition SyncMessageFilter_new :: "'d filter_state" where
  "SyncMessageFilter_new = \<lparr>filter_channel = False, filter_io_loop = False, pending_sync_messages = [],
     filter_shutdown = False, io_queue = [], in_send = (\<lambda>a. None), filter_log = []\<rparr>"

definition at_stage :: "nat \<Rightarrow> 'd filter_stage option \<Rightarrow> 'd filter_state \<Rightarrow> 'd filter_state" where
  "at_stage a st s = s\<lparr>in_send := (in_send s)(a := st)\<rparr>"

section \<open>Sending\<close>

text \<open>\<open>Send\<close> up to its second locked section; \<open>None\<close> when the thread is already sending.\<close>

definition Filter_Send :: "nat \<Rightarrow> 'd sync_message \<Rightarrow> 'd filter_state \<Rightarrow> 'd filter_state option" where
  "Filter_Send a m s = (if in_send s a \<noteq> None then None
     else if \<not> filter_io_loop s then Some s
     else do {
       sync \<leftarrow> is_sync (base m);
       if \<not> sync then Some (s\<lparr>io_queue := io_queue s @ [base m]\<rparr>)
       else do {
         i \<leftarrow> GetMessageId (base m);
         (d, m1) \<leftarrow> Some (GetReplyDeserializer m);
         Some (at_stage a (Some (Entered i d (base m1))) s) } })"

definition new_pending :: "u32 \<Rightarrow> 'd option \<Rightarrow> 'd pending" where
  "new_pending i d = \<lparr>pending_id = i, pending_deserializer = d, done_event = False, send_result = False,
     reply_output = None\<rparr>"

definition insert_pending :: "nat \<Rightarrow> 'd filter_state \<Rightarrow> 'd filter_state option" where
  "insert_pending a s = (case in_send s a of
     Some (Entered i d m) \<Rightarrow> Some (at_stage a (Some (Registered m))
       (s\<lparr>pending_sync_messages := insort_key fst (a, new_pending i d) (pending_sync_messages s)\<rparr>))
   | _ \<Rightarrow> None)"

definition post_send :: "nat \<Rightarrow> 'd filter_state \<Rightarrow> 'd filter_state option" where
  "post_send a s = (case in_send s a of
     Some (Registered m) \<Rightarrow> Some (at_stage a (Some Awaiting) (s\<lparr>io_queue := io_queue s @ [m]\<rparr>))
   | _ \<Rightarrow> None)"

text \<open>\<open>WaitMany\<close> returns when the shutdown event or the event of the pending message is set.\<close>

definition wait_many :: "nat \<Rightarrow> 'd filter_state \<Rightarrow> 'd filter_state option" where
  "wait_many a s = (case (in_send s a, map_of (pending_sync_messages s) a) of
     (Some Awaiting, Some p) \<Rightarrow> (if filter_shutdown s \<or> done_event p then Some (at_stage a (Some Woken) s) else None)
   | _ \<Rightarrow> None)"

definition erase_pending :: "nat \<Rightarrow> 'd filter_state \<Rightarrow> 'd filter_state option" where
  "erase_pending a s = (case (in_send s a, map_of (pending_sync_messages s) a) of
     (Some Woken, Some p) \<Rightarrow> Some (at_stage a None (s\<lparr>
       pending_sync_messages := filter (\<lambda>q. fst q \<noteq> a) (pending_sync_messages s),
       filter_log := filter_log s @ [SendReturned a (pending_id p) (send_result p) (reply_output p)]\<rparr>))
   | _ \<Rightarrow> None)"

section \<open>The IO thread\<close>

definition SignalAllEvents :: "'d filter_state \<Rightarrow> 'd filter_state" where
  "SignalAllEvents s = s\<lparr>pending_sync_messages := map (apsnd signal) (pending_sync_messages s)\<rparr>"

definition SendOnIOThread :: "message \<Rightarrow> 'd filter_state \<Rightarrow> 'd filter_state option" where
  "SendOnIOThread m s = (if filter_channel s then Some (s\<lparr>filter_log := filter_log s @ [HandedOver m]\<rparr>)
     else do {
       sync \<leftarrow> is_sync m;
       Some (if sync then SignalAllEvents s else s) })"

definition Filter_OnFilterAdded :: "'d filter_state \<Rightarrow> 'd filter_state" where
  "Filter_OnFilterAdded s = s\<lparr>filter_channel := True, filter_io_loop := True\<rparr>"

definition Filter_OnChannelError :: "'d filter_state \<Rightarrow> 'd filter_state" where
  "Filter_OnChannelError s = SignalAllEvents (s\<lparr>filter_channel := False\<rparr>)"

definition Filter_OnChannelClosing :: "'d filter_state \<Rightarrow> 'd filter_state" where
  "Filter_OnChannelClosing s = SignalAllEvents (s\<lparr>filter_channel := False\<rparr>)"

text \<open>The loop over the pending messages, which stops at the first the message is a reply to.\<close>

fun answer_first :: "('d \<Rightarrow> message \<Rightarrow> bool) \<Rightarrow> message \<Rightarrow> (nat \<times> 'd pending) list \<Rightarrow> (bool \<times> (nat \<times> 'd pending) list) option" where
  "answer_first ser m [] = Some (False, [])"
| "answer_first ser m ((a, p) # ps) = do {
     r \<leftarrow> IsMessageReplyTo m (pending_id p);
     if r then do { q \<leftarrow> take_reply ser m p; Some (True, (a, signal q) # ps) }
     else do { (taken, qs) \<leftarrow> answer_first ser m ps; Some (taken, (a, p) # qs) } }"

definition Filter_OnMessageReceived :: "('d \<Rightarrow> message \<Rightarrow> bool) \<Rightarrow> message \<Rightarrow> 'd filter_state \<Rightarrow> (bool \<times> 'd filter_state) option" where
  "Filter_OnMessageReceived ser m s = do {
     (taken, ps) \<leftarrow> answer_first ser m (pending_sync_messages s);
     Some (taken, s\<lparr>pending_sync_messages := ps, filter_log := filter_log s @ [ReplyArrived m]\<rparr>) }"

section \<open>Interleavings\<close>

datatype 'd filter_event = FilterSend nat "'d sync_message" | FilterInsert nat | FilterPost nat | FilterWait nat
  | FilterErase nat | ShutDown | RunIoSend | AddedToChannel | ChannelBroken | ChannelClosing | FilterReceives message

definition filter_step :: "('d \<Rightarrow> message \<Rightarrow> bool) \<Rightarrow> 'd filter_event \<Rightarrow> 'd filter_state \<Rightarrow> 'd filter_state option" where
  "filter_step ser e s = (case e of
     FilterSend a m \<Rightarrow> Filter_Send a m s
   | FilterInsert a \<Rightarrow> insert_pending a s
   | FilterPost a \<Rightarrow> post_send a s
   | FilterWait a \<Rightarrow> wait_many a s
   | FilterErase a \<Rightarrow> erase_pending a s
   | ShutDown \<Rightarrow> Some (s\<lparr>filter_shutdown := True\<rparr>)
   | RunIoSend \<Rightarrow> (case io_queue s of [] \<Rightarrow> None | m # ms \<Rightarrow> SendOnIOThread m (s\<lparr>io_queue := ms\<rparr>))
   | AddedToChannel \<Rightarrow> Some (Filter_OnFilterAdded s)
   | ChannelBroken \<Rightarrow> Some (Filter_OnChannelError s)
   | ChannelClosing \<Rightarrow> Some (Filter_OnChannelClosing s)
   | FilterReceives m \<Rightarrow> map_option snd (Filter_OnMessageReceived ser m s))"

fun filter_run :: "('d \<Rightarrow> message \<Rightarrow> bool) \<Rightarrow> 'd filter_event list \<Rightarrow> 'd filter_state \<Rightarrow> 'd filter_state option" where
  "filter_run ser [] s = Some s"
| "filter_run ser (e # es) s = Option.bind (filter_step ser e s) (filter_run ser es)"

interpretation filtered: machine "filter_step ser" "filter_run ser" for ser
  by unfold_locales simp_all

end
