(* ===== verification/SyncProps.thy ===== *)
theory SyncProps imports SyncChannel begin

text \<open>
  What holds of blocking sends in every interleaving of the listener thread and the IPC thread: sends
  return in the order of the stack, each with its own reply; no reply and no synchronous message is
  forgotten; and what a nested send can still miss.
\<close>

lemmas sync_updates = record_note_def set_proxy_def push_frame_def pop_frame_def set_pending_def set_watched_def

lemmas sync_ipc_defs = queue_lock_def queue_signal_def queue_post_def QueueReply_def CancelPendingSends_def
  OnSendTimeout_def Sync_OnChannelError_def Sync_OnChannelClosed_def Sync_OnChannelOpened_def
  Sync_OnSendMessage_def

lemmas sync_listener_defs = DispatchMessagesTask_def dispatch_to_listener_def DispatchMessages_round_def
  RemoveContext_def Push_def Pop_def Sync_Clear_def SendWithTimeout_def post_and_wait_def GetSendDoneEvent_def
  WaitForReplyWithNestedMessageLoop_def leave_nested_loop_def WaitForReply_def finish_send_def
  on_dispatch_event_def on_send_done_def CancelPendingSends_def GetReplyDeserializer_def

lemmas sync_splits = if_splits option.splits list.splits prod.splits frame.splits ipc_task.splits

section \<open>Invariants of all runs\<close>

lemma sync_run_invariant:
  assumes "\<And>e s s'. sync_step handles ser e s = Some s' \<Longrightarrow> I s \<Longrightarrow> I s'"
  shows "sync_run handles ser es s = Some s' \<Longrightarrow> I s \<Longrightarrow> I s'"
  using sync.run_invariant [of handles ser I] assms by blast

text \<open>A step is a step of the IPC thread, of a message loop or of the innermost call.\<close>

lemma sync_step_cases:
  assumes "sync_step handles ser e s = Some s'"
  obtains (shutdown) "e = Shutdown" "s' = s\<lparr>shutdown_event := True\<rparr>"
  | (continues) "e = IpcContinues" "ipc_continues ser s = Some s'"
  | (ipc) "is_ipc_event e" "position s = Idle" "ipc_step handles ser e s = Some s'"
  | (loop) "is_loop_event e" "at_loop s" "loop_step e s = Some s'"
  | (frame) "frame_step e s = Some s'"
proof -
  consider "e = Shutdown" | "e = IpcContinues" | "e \<noteq> Shutdown" "e \<noteq> IpcContinues" "is_ipc_event e"
    | "e \<noteq> Shutdown" "e \<noteq> IpcContinues" "\<not> is_ipc_event e" "is_loop_event e"
    | "e \<noteq> Shutdown" "e \<noteq> IpcContinues" "\<not> is_ipc_event e" "\<not> is_loop_event e"
    by blast
  then show thesis
  proof cases
    case 1
    then show thesis using assms by (intro shutdown) (simp_all add: sync_step_def)
  next
    case 2
    then show thesis using assms by (intro continues) (simp_all add: sync_step_def)
  next
    case 3
    then show thesis using assms by (intro ipc) (simp_all add: sync_step_def split: if_splits)
  next
    case 4
    then show thesis using assms by (intro loop) (simp_all add: sync_step_def split: if_splits)
  next
    case 5
    then show thesis using assms by (intro frame) (simp_all add: sync_step_def)
  qed
qed

lemma frame_cases:
  assumes "frame_step e s = Some s'"
  obtains (send) c m t fs where "e = CallSyncSend c m t" "stack s = Handler # fs" "SendWithTimeout c m t s = Some s'"
  | (close) c fs where "e = CallCloseOf c" "stack s = Handler # fs"
      "\<exists>p. s' = set_proxy c p (RemoveContext c (CancelPendingSends c s))"
  | (return_handler) fs where "e = HandlerReturns" "stack s = Handler # fs" "s' = pop_frame s"
  | (drain) fs where "e = Drain" "stack s = Draining # fs" "s' = DispatchMessages_round s"
  | (post) c i m t fs where "e = PostSend" "stack s = Sending c i m t # fs" "post_and_wait c i m t s = Some s'"
  | (wait) c i p n fs where "e = WaitReturns n" "stack s = Waiting c i p # fs" "WaitForReply n c i p s = Some s'"
  | (finish) c i fs where "e = FinishSend" "stack s = Popping c i # fs" "finish_send c i s = Some s'"
proof (cases "stack s")
  case Nil
  then show thesis using assms by (simp add: frame_step_def)
next
  case (Cons f fs)
  show thesis
  proof (cases f)
    case Handler
    show thesis
    proof (cases e)
      case (CallCloseOf c)
      let ?s = "Sync_Clear c s"
      have "\<exists>p. ?s = set_proxy c p (RemoveContext c (CancelPendingSends c s))"
        by (auto simp: Sync_Clear_def Let_def)
      then obtain p where p: "?s = set_proxy c p (RemoveContext c (CancelPendingSends c s))" by blast
      have "\<exists>q. s' = set_proxy c q ?s \<or> s' = ?s"
        using assms Cons Handler CallCloseOf by (auto simp: frame_step_def Let_def split: if_splits)
      then have "\<exists>p. s' = set_proxy c p (RemoveContext c (CancelPendingSends c s))"
        unfolding p by (auto simp: set_proxy_def)
      then show thesis using close [OF CallCloseOf] Cons Handler by blast
    qed (use assms Cons Handler send return_handler in \<open>simp_all add: frame_step_def\<close>)
  next
    case Draining
    then show thesis using assms Cons drain by (cases e) (simp_all add: frame_step_def)
  next
    case (Sending c i m t)
    then show thesis using assms Cons post by (cases e) (simp_all add: frame_step_def)
  next
    case (Waiting c i p)
    then show thesis using assms Cons wait by (cases e) (simp_all add: frame_step_def)
  next
    case (Nested c i w)
    then show thesis using assms Cons by (cases e) (simp_all add: frame_step_def)
  next
    case (Popping c i)
    then show thesis using assms Cons finish by (cases e) (simp_all add: frame_step_def)
  qed
qed

lemma take_reply_effect:
  assumes "take_reply ser m q = Some p"
  shows "pending_id p = pending_id q" "done_event p = done_event q"
    "send_result p \<longrightarrow> reply_output p = Some m \<or> send_result q \<and> reply_output p = reply_output q"
  using assms by (auto simp: take_reply_def bind_eq_Some_conv split: if_splits)

lemma unblock_cases:
  assumes "TryToUnblockListener ser m c s = Some (r, s')"
  obtains (no) "\<not> r" "s' = s" "deserializers s c = [] \<or>
      IsMessageReplyTo m (pending_id (last (deserializers s c))) = Some False"
  | (yes) p where "r" "deserializers s c \<noteq> []" "s' = set_pending c (butlast (deserializers s c) @ [signal p]) s"
      "IsMessageReplyTo m (pending_id (last (deserializers s c))) = Some True"
      "take_reply ser m (last (deserializers s c)) = Some p"
proof (cases "deserializers s c = []")
  case True
  then show thesis using assms no by (simp add: TryToUnblockListener_def)
next
  case ne: False
  with assms obtain b where b: "IsMessageReplyTo m (pending_id (last (deserializers s c))) = Some b"
    by (cases "IsMessageReplyTo m (pending_id (last (deserializers s c)))") (simp_all add: TryToUnblockListener_def)
  show thesis
  proof (cases b)
    case False
    then show thesis using assms b ne no by (simp add: TryToUnblockListener_def)
  next
    case True
    with assms b ne obtain p where "take_reply ser m (last (deserializers s c)) = Some p"
      by (cases "take_reply ser m (last (deserializers s c))") (simp_all add: TryToUnblockListener_def)
    then show thesis using assms b True ne by (intro yes [of p]) (simp_all add: TryToUnblockListener_def)
  qed
qed

section \<open>The stack of sends\<close>

fun send_of :: "'c \<Rightarrow> ('c, 'd) frame \<Rightarrow> u32 list" where
  "send_of c (Sending c' i m t) = (if c' = c then [i] else [])"
| "send_of c (Waiting c' i p) = (if c' = c then [i] else [])"
| "send_of c (Nested c' i w) = (if c' = c then [i] else [])"
| "send_of c (Popping c' i) = (if c' = c then [i] else [])"
| "send_of c Handler = []"
| "send_of c Draining = []"

text \<open>The ids of the sends of a context on the stack, the outermost first.\<close>

fun sends_of :: "'c \<Rightarrow> ('c, 'd) frame list \<Rightarrow> u32 list" where
  "sends_of c [] = []"
| "sends_of c (f # fs) = sends_of c fs @ send_of c f"

fun watch_ok :: "('c, 'd) frame list \<Rightarrow> ('c \<times> nat) option \<Rightarrow> bool" where
  "watch_ok [] w \<longleftrightarrow> w = None"
| "watch_ok (f # fs) w \<longleftrightarrow> (case f of
     Nested c i old \<Rightarrow> w = Some (c, length (sends_of c fs)) \<and> watch_ok fs old
   | _ \<Rightarrow> watch_ok fs w)"

definition pending_ids :: "('c, 'f, 'd) sync_state \<Rightarrow> 'c \<Rightarrow> u32 list" where
  "pending_ids s c = map pending_id (deserializers s c)"

definition stack_ok :: "('c, 'f, 'd) sync_state \<Rightarrow> bool" where
  "stack_ok s \<longleftrightarrow> (\<forall>c. pending_ids s c = sends_of c (stack s)) \<and> watch_ok (stack s) (top_send_done_watcher s)"

lemma pending_id_signal [simp]: "pending_id (signal p) = pending_id p"
  by (simp add: signal_def)

lemma pending_id_signals [simp]: "pending_id \<circ> signal = pending_id"
  by (simp add: fun_eq_iff)

lemma map_signal_first [simp]: "map pending_id (signal_first i ps) = map pending_id ps"
  by (induction ps) simp_all

lemma ids_unblock:
  assumes "TryToUnblockListener ser m c s = Some (r, s')"
  shows "pending_ids s' c' = pending_ids s c' \<and> stack s' = stack s \<and> top_send_done_watcher s' = top_send_done_watcher s"
  using assms
proof (cases rule: unblock_cases)
  case no
  then show ?thesis by simp
next
  case (yes p)
  have "map pending_id (butlast (deserializers s c) @ [signal p]) = map pending_id (butlast (deserializers s c) @ [last (deserializers s c)])"
    using take_reply_effect(1) [OF yes(5)] by simp
  also have "\<dots> = map pending_id (deserializers s c)" using yes(2) by simp
  finally have "map pending_id (butlast (deserializers s c) @ [signal p]) = map pending_id (deserializers s c)" .
  then show ?thesis using yes(3) by (simp add: pending_ids_def set_pending_def)
qed

text \<open>The IPC thread leaves the stack and the ids alone.\<close>

definition same_sends :: "('c, 'f, 'd) sync_state \<Rightarrow> ('c, 'f, 'd) sync_state \<Rightarrow> bool" where
  "same_sends s s' \<longleftrightarrow> pending_ids s' = pending_ids s \<and> stack s' = stack s \<and>
     top_send_done_watcher s' = top_send_done_watcher s"

lemma receive_same_sends:
  assumes "Sync_OnMessageReceived handles ser m c s = Some s'"
  shows "same_sends s s'"
proof -
  obtain taken p where t: "TryFilters handles m (proxies s c) = (taken, p)" by fastforce
  show ?thesis
  proof (cases taken)
    case True
    then show ?thesis using assms t
      by (auto simp: Sync_OnMessageReceived_def same_sends_def pending_ids_def sync_updates fun_eq_iff)
  next
    case False
    with assms t obtain r s1 where s1: "TryToUnblockListener ser m c (record_note (Arrived c m) (set_proxy c p s)) = Some (r, s1)"
      and s': "pending_ids s' = pending_ids s1" "stack s' = stack s1" "top_send_done_watcher s' = top_send_done_watcher s1"
      by (auto simp: Sync_OnMessageReceived_def bind_eq_Some_conv pending_ids_def sync_updates fun_eq_iff split: if_splits)
    from ids_unblock [OF s1] s' show ?thesis
      by (auto simp: same_sends_def pending_ids_def sync_updates fun_eq_iff)
  qed
qed

lemma continues_same_sends:
  assumes "ipc_continues ser s = Some s'"
  shows "same_sends s s'"
proof (cases "position s")
  case (Replying i)
  with assms show ?thesis
    by (auto simp: ipc_continues_def DispatchReplies_round_def bind_eq_Some_conv same_sends_def pending_ids_def
      fun_eq_iff dest: ids_unblock split: if_splits prod.splits)
qed (use assms in \<open>auto simp: ipc_continues_def sync_ipc_defs sync_updates same_sends_def pending_ids_def\<close>)

lemma ipc_same_sends:
  assumes "ipc_step handles ser e s = Some s'"
  shows "same_sends s s'"
proof (cases e)
  case (Arrive c m)
  then show ?thesis using assms receive_same_sends by (auto simp: ipc_step_def split: if_splits)
next
  case (RunIpcTask c ok)
  then show ?thesis using assms
    by (auto simp: ipc_step_def run_sync_task_def sync_ipc_defs sync_updates same_sends_def pending_ids_def Let_def
      fun_eq_iff split: sync_splits)
qed (use assms in \<open>auto simp: ipc_step_def sync_ipc_defs sync_updates same_sends_def pending_ids_def Let_def
      fun_eq_iff split: if_splits\<close>)

lemma same_sends_ok: "same_sends s s' \<Longrightarrow> stack_ok s \<Longrightarrow> stack_ok s'"
  by (simp add: same_sends_def stack_ok_def)

lemma wait_stack_ok:
  assumes "WaitForReply n c i p s = Some s'" "stack s = Waiting c i p # fs" "stack_ok s"
  shows "stack_ok s'"
proof -
  have "map pending_id (deserializers s c) = sends_of c fs @ [i]"
    using assms(2,3) by (simp add: stack_ok_def pending_ids_def)
  then have l: "length (deserializers s c) = Suc (length (sends_of c fs))"
    by (metis length_append_singleton length_map)
  show ?thesis using assms
    by (auto simp: WaitForReply_def WaitForReplyWithNestedMessageLoop_def GetSendDoneEvent_def sync_updates
      stack_ok_def pending_ids_def l bind_eq_Some_conv split: if_splits)
qed

lemma finish_stack_ok:
  assumes "finish_send c i s = Some s'" "stack s = Popping c i # fs" "stack_ok s"
  shows "stack_ok s'"
proof -
  have "map pending_id (butlast (deserializers s c)) = sends_of c fs"
    using assms(2,3) by (simp add: stack_ok_def pending_ids_def map_butlast)
  then show ?thesis using assms
    by (auto simp: finish_send_def Pop_def sync_updates stack_ok_def pending_ids_def split: if_splits)
qed

lemma post_effect:
  assumes "post_and_wait c i m t s = Some s'" "stack s = Sending c i m t # fs"
  obtains p ts where "s' = s\<lparr>proxies := (proxies s)(c := p), timeouts := ts,
    stack := Waiting c i (pump_messages_event m \<noteq> None) # fs\<rparr>"
proof -
  from assms(1) obtain b p where p: "Proxy_Send (base m) (proxies s c) = Some (b, p)"
    by (cases "Proxy_Send (base m) (proxies s c)") (auto simp: post_and_wait_def)
  show thesis
    by (rule that [where p = p and ts = "if t then timeouts s @ [(c, i)] else timeouts s"])
      (use assms p in \<open>simp add: post_and_wait_def sync_updates split: if_splits\<close>)
qed

lemma send_effect:
  assumes "SendWithTimeout c m t s = Some s'"
  obtains (async) "s' = s" | (posted) p where "s' = set_proxy c p s"
  | (sync) i d m1 where "GetMessageId (base m) = Some i" "s' = push_frame (Sending c i m1 t) (record_note (Sent c i) (Push c i d s))"
  using assms by (auto simp: SendWithTimeout_def GetReplyDeserializer_def bind_eq_Some_conv split: if_splits)

lemma frame_stack_ok:
  assumes "frame_step e s = Some s'" "stack_ok s"
  shows "stack_ok s'"
  using assms(1)
proof (cases rule: frame_cases)
  case (send c m t fs)
  then show ?thesis using assms(2)
    by (cases rule: send_effect [OF send(3)])
      (auto simp: Push_def sync_updates stack_ok_def pending_ids_def)
next
  case (close c fs)
  then show ?thesis using assms(2)
    by (auto simp: CancelPendingSends_def RemoveContext_def sync_updates stack_ok_def pending_ids_def)
next
  case (return_handler fs)
  then show ?thesis using assms(2) by (simp add: pop_frame_def stack_ok_def pending_ids_def)
next
  case (drain fs)
  then show ?thesis using assms(2)
    by (auto simp: DispatchMessages_round_def dispatch_to_listener_def sync_updates stack_ok_def pending_ids_def
      Let_def split: list.splits)
next
  case (post c i m t fs)
  then show ?thesis using assms(2)
    by (elim post_effect) (auto simp: stack_ok_def pending_ids_def)
next
  case (wait c i p n fs)
  then show ?thesis by (intro wait_stack_ok [OF wait(3,2) assms(2)])
next
  case (finish c i fs)
  then show ?thesis by (intro finish_stack_ok [OF finish(3,2) assms(2)])
qed

lemma step_stack_ok:
  assumes "sync_step handles ser e s = Some s'" "stack_ok s"
  shows "stack_ok s'"
  using assms(1)
proof (cases rule: sync_step_cases)
  case shutdown
  then show ?thesis using assms(2) by (simp add: stack_ok_def pending_ids_def)
next
  case continues
  then show ?thesis using continues_same_sends same_sends_ok assms(2) by blast
next
  case ipc
  then show ?thesis using ipc_same_sends same_sends_ok assms(2) by blast
next
  case loop
  then show ?thesis using assms(2)
    by (cases e) (auto simp: loop_step_def run_listener_def sync_listener_defs sync_updates stack_ok_def
      pending_ids_def Let_def split: sync_splits)
next
  case frame
  then show ?thesis by (rule frame_stack_ok [OF _ assms(2)])
qed

lemma initial_stack_ok: "stack_ok (sync_initial n ps)"
  by (simp add: stack_ok_def sync_initial_def pending_ids_def)

lemma run_stack_ok: "sync_run handles ser es s = Some s' \<Longrightarrow> stack_ok s \<Longrightarrow> stack_ok s'"
  by (rule sync_run_invariant [of handles ser stack_ok]) (blast intro: step_stack_ok)

lemma stack_top_pending:
  assumes "stack_ok s" "stack s = f # fs" "send_of c f = [i]"
  shows "deserializers s c \<noteq> []" "pending_id (last (deserializers s c)) = i"
    "length (deserializers s c) = Suc (length (sends_of c fs))"
proof -
  have m: "map pending_id (deserializers s c) = sends_of c fs @ [i]"
    using assms by (simp add: stack_ok_def pending_ids_def)
  show "deserializers s c \<noteq> []" using m by auto
  then show "pending_id (last (deserializers s c)) = i" using m by (metis last_map last_snoc)
  show "length (deserializers s c) = Suc (length (sends_of c fs))" using m by (metis length_append_singleton length_map)
qed

text \<open>
  C26: in every interleaving the sends of a channel are served like the stack of the listener thread:
  a \<open>Send\<close> that pops takes its own record, one that waits waits for its own event, and the innermost
  nested message loop watches the event that \<open>GetSendDoneEvent\<close> names, as the check in
  \<open>OnWaitableEventSignaled\<close> demands.
\<close>

theorem sends_follow_the_stack:
  assumes "sync_run handles ser es (sync_initial n ps) = Some s"
  shows "(\<forall>c i fs. stack s = Popping c i # fs \<longrightarrow>
      deserializers s c \<noteq> [] \<and> pending_id (last (deserializers s c)) = i) \<and>
    (\<forall>c i p fs. stack s = Waiting c i p # fs \<longrightarrow>
      (\<exists>k. GetSendDoneEvent c s = Some (c, k) \<and> pending_id (deserializers s c ! k) = i)) \<and>
    (\<forall>c i old fs. stack s = Nested c i old # fs \<longrightarrow>
      GetSendDoneEvent c s \<noteq> None \<and> top_send_done_watcher s = GetSendDoneEvent c s)"
proof -
  have ok: "stack_ok s" by (rule run_stack_ok [OF assms initial_stack_ok])
  note top = stack_top_pending [OF ok]
  have "deserializers s c \<noteq> [] \<and> pending_id (last (deserializers s c)) = i" if "stack s = Popping c i # fs" for c i fs
    using top(1,2) [OF that] by simp
  moreover have "\<exists>k. GetSendDoneEvent c s = Some (c, k) \<and> pending_id (deserializers s c ! k) = i"
    if "stack s = Waiting c i p # fs" for c i p fs
    using top(1,2) [OF that] by (simp add: GetSendDoneEvent_def last_conv_nth)
  moreover have "GetSendDoneEvent c s \<noteq> None \<and> top_send_done_watcher s = GetSendDoneEvent c s"
    if "stack s = Nested c i old # fs" for c i old fs
    using top(1,3) [OF that] ok that by (simp add: GetSendDoneEvent_def stack_ok_def)
  ultimately show ?thesis by blast
qed

section \<open>Replies\<close>

definition queued_replies :: "('c, 'f, 'd) sync_state \<Rightarrow> ('c \<times> message) list" where
  "queued_replies s = received_replies s @ (case position s of QueueingReply c m \<Rightarrow> [(c, m)] | _ \<Rightarrow> [])"

text \<open>
  What matters to replies: the pending sends, the replies that wait, where \<open>DispatchReplies\<close> is, how
  many tasks for it there are, and the log. Every step is one of the steps below on this view.
\<close>

record ('c, 'd) view =
  pends :: "'c \<Rightarrow> 'd pending list"
  replies :: "('c \<times> message) list"
  scan :: "nat option"
  scans :: nat
  said :: "'c sync_note list"

definition view :: "('c, 'f, 'd) sync_state \<Rightarrow> ('c, 'd) view" where
  "view s = \<lparr>pends = deserializers s, replies = queued_replies s,
     scan = (case position s of Replying i \<Rightarrow> Some i | _ \<Rightarrow> None), scans = reply_tasks s, said = sync_log s\<rparr>"

definition wakes_top :: "('c \<Rightarrow> 'd pending list) \<Rightarrow> 'c \<times> message \<Rightarrow> bool" where
  "wakes_top ps cm \<longleftrightarrow> (case cm of (c, m) \<Rightarrow>
     ps c \<noteq> [] \<and> IsMessageReplyTo m (pending_id (last (ps c))) = Some True)"

definition signalled :: "'d pending \<Rightarrow> 'd pending \<Rightarrow> bool" where
  "signalled p q \<longleftrightarrow> q = p \<or> q = signal p"

definition quiet_note :: "'c sync_note \<Rightarrow> bool" where
  "quiet_note n = (case n of Queued c m \<Rightarrow> True | Dispatched c m \<Rightarrow> True | _ \<Rightarrow> False)"

inductive reply_step :: "('d \<Rightarrow> message \<Rightarrow> bool) \<Rightarrow> ('c, 'd) view \<Rightarrow> ('c, 'd) view \<Rightarrow> bool" for ser where
  quiet: "list_all quiet_note ns \<Longrightarrow> reply_step ser v (v\<lparr>said := said v @ ns\<rparr>)"
| signals: "list_all2 signalled (pends v c) qs \<Longrightarrow> reply_step ser v (v\<lparr>pends := (pends v)(c := qs)\<rparr>)"
| answer: "wakes_top (pends v) (c, m) \<Longrightarrow> scan v = None \<Longrightarrow> take_reply ser m (last (pends v c)) = Some p \<Longrightarrow>
    reply_step ser v (v\<lparr>pends := (pends v)(c := butlast (pends v c) @ [signal p]), said := said v @ [Arrived c m]\<rparr>)"
| wait: "\<not> wakes_top (pends v) (c, m) \<Longrightarrow> scan v = None \<Longrightarrow> is_reply m = Some True \<Longrightarrow>
    reply_step ser v (v\<lparr>replies := replies v @ [(c, m)], said := said v @ [Arrived c m]\<rparr>)"
| other: "\<not> wakes_top (pends v) (c, m) \<Longrightarrow> is_reply m = Some False \<or> should_unblock m = Some True \<Longrightarrow>
    reply_step ser v (v\<lparr>said := said v @ [Arrived c m]\<rparr>)"
| scan_starts: "scan v = None \<Longrightarrow> 0 < scans v \<Longrightarrow> reply_step ser v (v\<lparr>scans := scans v - 1, scan := Some 0\<rparr>)"
| scan_on: "scan v = Some i \<Longrightarrow> i < length (replies v) \<Longrightarrow> \<not> wakes_top (pends v) (replies v ! i) \<Longrightarrow>
    reply_step ser v (v\<lparr>scan := Some (i + 1)\<rparr>)"
| scan_hits: "scan v = Some i \<Longrightarrow> i < length (replies v) \<Longrightarrow> replies v ! i = (c, m) \<Longrightarrow> wakes_top (pends v) (c, m) \<Longrightarrow>
    take_reply ser m (last (pends v c)) = Some p \<Longrightarrow>
    reply_step ser v (v\<lparr>pends := (pends v)(c := butlast (pends v c) @ [signal p]),
      replies := take i (replies v) @ drop (Suc i) (replies v), scan := None\<rparr>)"
| scan_ends: "scan v = Some i \<Longrightarrow> \<not> i < length (replies v) \<Longrightarrow> reply_step ser v (v\<lparr>scan := None\<rparr>)"
| push: "p = \<lparr>pending_id = i, pending_deserializer = d, done_event = False, send_result = False, reply_output = None\<rparr> \<Longrightarrow>
    reply_step ser v (v\<lparr>pends := (pends v)(c := pends v c @ [p]), said := said v @ [Sent c i]\<rparr>)"
| pop: "pends v c \<noteq> [] \<Longrightarrow> p = last (pends v c) \<Longrightarrow>
    reply_step ser v (v\<lparr>pends := (pends v)(c := butlast (pends v c)), scans := scans v + 1,
      said := said v @ [Returned c (pending_id p) (send_result p) (reply_output p)]\<rparr>)"

lemma quiet_step: "said w = said v @ ns \<Longrightarrow> list_all quiet_note ns \<Longrightarrow> pends w = pends v \<Longrightarrow> replies w = replies v \<Longrightarrow>
    scan w = scan v \<Longrightarrow> scans w = scans v \<Longrightarrow> reply_step ser v w"
  using quiet [of ns ser v] by (cases v; cases w) simp

lemma quiet_step0: "said w = said v \<Longrightarrow> pends w = pends v \<Longrightarrow> replies w = replies v \<Longrightarrow>
    scan w = scan v \<Longrightarrow> scans w = scans v \<Longrightarrow> reply_step ser v w"
  by (rule quiet_step [of _ _ "[]"]) simp_all

lemma signalled_refl: "signalled p p"
  by (simp add: signalled_def)

lemma signalled_map: "list_all2 signalled ps (map signal ps)"
  by (induction ps) (simp_all add: signalled_def)

lemma signalled_first: "list_all2 signalled ps (signal_first i ps)"
  by (induction ps) (simp_all add: signalled_def list.rel_refl)

lemma signals_step: "pends w = (pends v)(c := qs) \<Longrightarrow> list_all2 signalled (pends v c) qs \<Longrightarrow> said w = said v \<Longrightarrow>
    replies w = replies v \<Longrightarrow> scan w = scan v \<Longrightarrow> scans w = scans v \<Longrightarrow> reply_step ser v w"
  using signals [of v c qs ser] by (cases v; cases w) simp

lemma view_simps [simp]: "pends (view s) = deserializers s" "replies (view s) = queued_replies s"
    "scan (view s) = (case position s of Replying i \<Rightarrow> Some i | _ \<Rightarrow> None)" "scans (view s) = reply_tasks s"
    "said (view s) = sync_log s"
  by (simp_all add: view_def)

lemma receive_view:
  assumes "Sync_OnMessageReceived handles ser m c s = Some s'" "position s = Idle"
  shows "reply_step ser (view s) (view s')"
proof -
  obtain taken p where t: "TryFilters handles m (proxies s c) = (taken, p)" by fastforce
  show ?thesis
  proof (cases taken)
    case True
    then show ?thesis using assms t
      by (intro quiet_step0) (auto simp: Sync_OnMessageReceived_def queued_replies_def sync_updates)
  next
    case False
    let ?s = "record_note (Arrived c m) (set_proxy c p s)"
    from False assms(1) t obtain r s1 where s1: "TryToUnblockListener ser m c ?s = Some (r, s1)"
      by (auto simp: Sync_OnMessageReceived_def bind_eq_Some_conv)
    then show ?thesis
    proof (cases rule: unblock_cases)
      case no
      have d: "deserializers ?s = deserializers s" by (simp add: sync_updates)
      have n: "\<not> wakes_top (deserializers s) (c, m)" using no(3) unfolding d by (auto simp: wakes_top_def)
      from assms(1) t False s1 no(1) obtain u where u: "should_unblock m = Some u"
        by (auto simp: Sync_OnMessageReceived_def bind_eq_Some_conv)
      show ?thesis
      proof (cases u)
        case True
        then have "s' = ?s\<lparr>position := Queueing c m\<rparr>"
          using assms(1) t False s1 no(1,2) u by (simp add: Sync_OnMessageReceived_def)
        then have "view s' = (view s)\<lparr>said := said (view s) @ [Arrived c m]\<rparr>"
          using assms(2) by (simp add: view_def queued_replies_def sync_updates)
        then show ?thesis using other [of "view s" c m ser] n u True by simp
      next
        case False
        with assms(1) t \<open>\<not> taken\<close> s1 no(1) u obtain b where b: "is_reply m = Some b"
          by (auto simp: Sync_OnMessageReceived_def bind_eq_Some_conv)
        show ?thesis
        proof (cases b)
          case True
          then have "s' = ?s\<lparr>position := QueueingReply c m\<rparr>"
            using assms(1) t \<open>\<not> taken\<close> s1 no(1,2) u b False by (simp add: Sync_OnMessageReceived_def)
          then have "view s' = (view s)\<lparr>replies := replies (view s) @ [(c, m)], said := said (view s) @ [Arrived c m]\<rparr>"
            using assms(2) by (simp add: view_def queued_replies_def sync_updates)
          then show ?thesis using wait [of "view s" c m ser] n b True assms(2) by simp
        next
          case b': False
          then have "s' = set_proxy c (OnMessageReceivedNoFilter m (proxies ?s c)) ?s"
            using assms(1) t \<open>\<not> taken\<close> s1 no(1,2) u b False by (simp add: Sync_OnMessageReceived_def)
          then have "view s' = (view s)\<lparr>said := said (view s) @ [Arrived c m]\<rparr>"
            using assms(2) by (simp add: view_def queued_replies_def sync_updates)
          then show ?thesis using other [of "view s" c m ser] n b b' by simp
        qed
      qed
    next
      case (yes q)
      have d: "deserializers ?s = deserializers s" by (simp add: sync_updates)
      have "s' = s1" using assms(1) t False s1 yes(1) by (simp add: Sync_OnMessageReceived_def)
      then have "view s' = (view s)\<lparr>pends := (pends (view s))(c := butlast (pends (view s) c) @ [signal q]),
          said := said (view s) @ [Arrived c m]\<rparr>"
        using yes(3) assms(2) by (simp add: view_def queued_replies_def sync_updates)
      then show ?thesis using answer [of "view s" c m ser q] yes(2,4,5) assms(2) unfolding d
        by (simp add: wakes_top_def)
    qed
  qed
qed

lemma continues_view:
  assumes "ipc_continues ser s = Some s'"
  shows "reply_step ser (view s) (view s')"
proof (cases "position s")
  case (Replying i)
  show ?thesis
  proof (cases "i < length (received_replies s)")
    case False
    then have "view s' = (view s)\<lparr>scan := None\<rparr>"
      using assms Replying by (auto simp: ipc_continues_def DispatchReplies_round_def view_def queued_replies_def)
    then show ?thesis using scan_ends [of "view s" i ser] Replying False by (simp add: queued_replies_def)
  next
    case True
    obtain c m where cm: "received_replies s ! i = (c, m)" by fastforce
    with assms Replying True obtain r s1 where s1: "TryToUnblockListener ser m c s = Some (r, s1)"
      by (auto simp: ipc_continues_def DispatchReplies_round_def bind_eq_Some_conv)
    have q: "queued_replies s = received_replies s" using Replying by (simp add: queued_replies_def)
    from s1 show ?thesis
    proof (cases rule: unblock_cases)
      case no
      then have "view s' = (view s)\<lparr>scan := Some (i + 1)\<rparr>"
        using assms Replying True cm s1 by (auto simp: ipc_continues_def DispatchReplies_round_def view_def queued_replies_def)
      then show ?thesis using scan_on [of "view s" i ser] Replying True cm q no(3) by (auto simp: wakes_top_def)
    next
      case (yes p)
      then have "view s' = (view s)\<lparr>pends := (pends (view s))(c := butlast (pends (view s) c) @ [signal p]),
          replies := take i (replies (view s)) @ drop (Suc i) (replies (view s)), scan := None\<rparr>"
        using assms Replying True cm s1
        by (auto simp: ipc_continues_def DispatchReplies_round_def view_def queued_replies_def set_pending_def)
      then show ?thesis using scan_hits [of "view s" i c m ser p] Replying True cm q yes(2,4,5) by (simp add: wakes_top_def)
    qed
  qed
next
  case (Queueing c m)
  then show ?thesis using assms
    by (intro quiet_step [of _ _ "[Queued c m]"])
      (auto simp: ipc_continues_def queue_lock_def sync_updates queued_replies_def quiet_note_def)
qed (use assms in \<open>auto intro!: quiet_step0 simp: ipc_continues_def sync_ipc_defs sync_updates queued_replies_def\<close>)

lemma cancel_view:
  assumes "deserializers s' = (deserializers s)(c := map signal (deserializers s c))" "position s' = position s"
    "received_replies s' = received_replies s" "reply_tasks s' = reply_tasks s" "sync_log s' = sync_log s"
  shows "reply_step ser (view s) (view s')"
  using assms signalled_map by (intro signals_step [where c = c]) (auto simp: queued_replies_def)

lemma same_view:
  assumes "deserializers s' = deserializers s" "position s' = position s"
    "received_replies s' = received_replies s" "reply_tasks s' = reply_tasks s" "sync_log s' = sync_log s"
  shows "reply_step ser (view s) (view s')"
  using assms by (intro quiet_step0) (auto simp: queued_replies_def)

lemma task_view:
  assumes "run_sync_task ok c s = Some s'"
  shows "reply_step ser (view s) (view s')"
proof (cases "deserializers s' = deserializers s")
  case True
  then show ?thesis using assms
    by (intro same_view) (auto simp: run_sync_task_def sync_ipc_defs sync_updates Let_def split: sync_splits)
next
  case False
  then have "deserializers s' = (deserializers s)(c := map signal (deserializers s c))"
    using assms by (auto simp: run_sync_task_def sync_ipc_defs sync_updates Let_def split: sync_splits)
  then show ?thesis using assms
    by (intro cancel_view) (auto simp: run_sync_task_def sync_ipc_defs sync_updates Let_def split: sync_splits)
qed

lemma ipc_view:
  assumes "ipc_step handles ser e s = Some s'" "position s = Idle"
  shows "reply_step ser (view s) (view s')"
proof (cases e)
  case (Arrive c m)
  then show ?thesis using assms receive_view by (auto simp: ipc_step_def split: if_splits)
next
  case (RunIpcTask c ok)
  then show ?thesis using assms task_view by (auto simp: ipc_step_def)
next
  case (ConnectedTo c pid)
  then show ?thesis using assms by (intro same_view) (auto simp: ipc_step_def sync_updates split: if_splits)
next
  case (Broken c)
  then show ?thesis using assms
    by (intro cancel_view [of _ _ c]) (auto simp: ipc_step_def sync_ipc_defs sync_updates split: if_splits)
next
  case RunDispatchReplies
  then have "0 < reply_tasks s" "s' = s\<lparr>reply_tasks := reply_tasks s - 1, position := Replying 0\<rparr>"
    using assms(1) by (simp_all add: ipc_step_def split: if_splits)
  then have "view s' = (view s)\<lparr>scans := scans (view s) - 1, scan := Some 0\<rparr>"
    using assms(2) by (simp add: view_def queued_replies_def)
  then show ?thesis using scan_starts [of "view s" ser] assms(2) \<open>0 < reply_tasks s\<close> by simp
next
  case (RunTimeout c i)
  then show ?thesis using assms signalled_first
    by (intro signals_step [where c = c and qs = "signal_first i (deserializers s c)"])
      (auto simp: ipc_step_def sync_ipc_defs sync_updates queued_replies_def split: if_splits)
next
  case (RunShutdown c)
  then show ?thesis using assms
    by (intro cancel_view [of _ _ c]) (auto simp: ipc_step_def sync_ipc_defs sync_updates split: if_splits)
qed (use assms in \<open>simp_all add: ipc_step_def\<close>)

lemma loop_view:
  assumes "loop_step e s = Some s'"
  shows "reply_step ser (view s) (view s')"
  using assms by (cases e) (auto intro!: same_view simp: loop_step_def run_listener_def sync_listener_defs sync_updates
    Let_def split: sync_splits)

lemma frame_view:
  assumes "frame_step e s = Some s'" "stack_ok s"
  shows "reply_step ser (view s) (view s')"
  using assms(1)
proof (cases rule: frame_cases)
  case (send c m t fs)
  from send(3) show ?thesis
  proof (cases rule: send_effect)
    case (sync i d m1)
    have "view s' = (view s)\<lparr>pends := (pends (view s))(c := pends (view s) c @ [\<lparr>pending_id = i, pending_deserializer = d,
        done_event = False, send_result = False, reply_output = None\<rparr>]), said := said (view s) @ [Sent c i]\<rparr>"
      using sync(2) by (simp add: view_def queued_replies_def Push_def sync_updates)
    then show ?thesis using push [OF refl, of ser "view s" c i d] by simp
  qed (auto intro!: same_view simp: sync_updates)
next
  case (close c fs)
  then show ?thesis by (intro cancel_view [of _ _ c]) (auto simp: CancelPendingSends_def RemoveContext_def sync_updates)
next
  case (drain fs)
  then show ?thesis
    by (intro quiet_step [of _ _ "case message_queue s of [] \<Rightarrow> [] | (c, m) # q \<Rightarrow> [Dispatched c m]"])
      (auto simp: DispatchMessages_round_def dispatch_to_listener_def sync_updates queued_replies_def quiet_note_def
        Let_def split: list.splits)
next
  case (post c i m t fs)
  then show ?thesis by (elim post_effect) (auto intro!: same_view)
next
  case (wait c i p n fs)
  then show ?thesis by (intro same_view)
    (auto simp: WaitForReply_def WaitForReplyWithNestedMessageLoop_def GetSendDoneEvent_def sync_updates split: if_splits)
next
  case (finish c i fs)
  have "deserializers s c \<noteq> []" "pending_id (last (deserializers s c)) = i"
    using stack_top_pending(1,2) [OF assms(2) finish(2), of c i] by simp_all
  moreover from this have "view s' = (view s)\<lparr>pends := (pends (view s))(c := butlast (pends (view s) c)), scans := scans (view s) + 1,
      said := said (view s) @ [Returned c i (send_result (last (pends (view s) c))) (reply_output (last (pends (view s) c)))]\<rparr>"
    using finish(3) by (auto simp: finish_send_def Pop_def view_def queued_replies_def sync_updates)
  ultimately show ?thesis using pop [of "view s" c _ ser, OF _ refl] by simp
qed (auto intro!: same_view simp: pop_frame_def)

lemma step_view:
  assumes "sync_step handles ser e s = Some s'" "stack_ok s"
  shows "reply_step ser (view s) (view s')"
  using assms(1)
proof (cases rule: sync_step_cases)
  case shutdown
  then show ?thesis by (intro same_view) simp_all
qed (use assms(2) continues_view ipc_view loop_view frame_view in blast)+

lemma run_view:
  assumes "\<And>v w. reply_step ser v w \<Longrightarrow> J v \<Longrightarrow> J w" "sync_run handles ser es s = Some s'" "stack_ok s" "J (view s)"
  shows "J (view s')"
proof -
  have "stack_ok s' \<and> J (view s')"
    by (rule sync_run_invariant [OF _ assms(2), of "\<lambda>s. stack_ok s \<and> J (view s)"])
      (use assms(1,3,4) step_view step_stack_ok in blast)+
  then show ?thesis by simp
qed

text \<open>Each send that succeeds has a reply to itself.\<close>

definition own_reply :: "'c \<Rightarrow> u32 \<Rightarrow> message option \<Rightarrow> 'c sync_note list \<Rightarrow> bool" where
  "own_reply c i out l \<longleftrightarrow> (\<exists>m. out = Some m \<and> Arrived c m \<in> set l \<and> IsMessageReplyTo m i = Some True)"

lemma own_reply_append: "own_reply c i out l \<Longrightarrow> own_reply c i out (l @ l')"
  by (auto simp: own_reply_def)

definition answered_ok :: "('c, 'd) view \<Rightarrow> bool" where
  "answered_ok v \<longleftrightarrow>
     (\<forall>c. \<forall>p \<in> set (pends v c). send_result p \<longrightarrow> own_reply c (pending_id p) (reply_output p) (said v)) \<and>
     (\<forall>c m. (c, m) \<in> set (replies v) \<longrightarrow> Arrived c m \<in> set (said v)) \<and>
     (\<forall>c i out. Returned c i True out \<in> set (said v) \<longrightarrow> own_reply c i out (said v))"

lemma signalled_answer:
  assumes "list_all2 signalled ps qs" "q \<in> set qs"
  shows "\<exists>p \<in> set ps. pending_id p = pending_id q \<and> send_result p = send_result q \<and> reply_output p = reply_output q \<and>
    (done_event p \<longrightarrow> done_event q)"
  using assms by (induction rule: list_all2_induct) (auto simp: signalled_def signal_def)

lemma take_reply_output:
  assumes "take_reply ser m q = Some p" "Arrived c m \<in> set l" "IsMessageReplyTo m (pending_id q) = Some True"
    "send_result q \<longrightarrow> own_reply c (pending_id q) (reply_output q) l" "send_result p"
  shows "own_reply c (pending_id p) (reply_output p) l"
  using take_reply_effect [OF assms(1)] assms(2-5) by (auto simp: own_reply_def)

lemma signal_fields [simp]: "send_result (signal p) = send_result p" "reply_output (signal p) = reply_output p"
    "done_event (signal p)"
  by (simp_all add: signal_def)

lemma answered_step:
  assumes "reply_step ser v w" "answered_ok v"
  shows "answered_ok w"
  using assms(1)
proof cases
  case (quiet ns)
  then show ?thesis using assms(2)
    by (auto simp: answered_ok_def list_all_iff quiet_note_def intro!: own_reply_append)
next
  case (signals c qs)
  have "send_result q \<longrightarrow> own_reply c (pending_id q) (reply_output q) (said v)" if q: "q \<in> set qs" for q
  proof -
    from signalled_answer [OF signals(2) q] obtain p where p: "p \<in> set (pends v c)" "pending_id p = pending_id q"
      "send_result p = send_result q" "reply_output p = reply_output q" by blast
    have "send_result p \<longrightarrow> own_reply c (pending_id p) (reply_output p) (said v)"
      using assms(2) p(1) by (simp add: answered_ok_def)
    then show ?thesis using p(2-4) by simp
  qed
  then show ?thesis using assms(2) signals(1) by (auto simp: answered_ok_def)
next
  case (answer c m p)
  have l: "pends v c \<noteq> []" "IsMessageReplyTo m (pending_id (last (pends v c))) = Some True"
    using answer(2) by (simp_all add: wakes_top_def)
  have o: "send_result q \<longrightarrow> own_reply c' (pending_id q) (reply_output q) (said v @ [Arrived c m])" if "q \<in> set (pends v c')" for c' q
    using assms(2) that by (auto simp: answered_ok_def intro!: own_reply_append)
  have "send_result p \<longrightarrow> own_reply c (pending_id p) (reply_output p) (said v @ [Arrived c m])"
    using take_reply_output [OF answer(4) _ l(2), of c "said v @ [Arrived c m]"] o l(1) by simp
  then show ?thesis using assms(2) answer(1) o
    by (auto simp: answered_ok_def dest: in_set_butlastD intro!: own_reply_append)
next
  case (scan_hits i c m p)
  have l: "pends v c \<noteq> []" "IsMessageReplyTo m (pending_id (last (pends v c))) = Some True"
    using scan_hits(5) by (simp_all add: wakes_top_def)
  have "Arrived c m \<in> set (said v)" using assms(2) scan_hits(3,4) nth_mem [OF scan_hits(3)] by (auto simp: answered_ok_def)
  then have "send_result p \<longrightarrow> own_reply c (pending_id p) (reply_output p) (said v)"
    using take_reply_output [OF scan_hits(6) _ l(2), of c "said v"] assms(2) l(1) by (auto simp: answered_ok_def)
  then show ?thesis using assms(2) scan_hits(1)
    by (auto simp: answered_ok_def dest: in_set_butlastD in_set_takeD in_set_dropD)
next
  case (pop c p)
  then show ?thesis using assms(2)
    by (auto simp: answered_ok_def dest: in_set_butlastD intro!: own_reply_append)
qed (use assms(2) in \<open>auto simp: answered_ok_def intro!: own_reply_append\<close>)

text \<open>
  C25: in every interleaving a \<open>Send\<close> that returns true was answered: a reply with the id of the
  message it sent arrived on its own channel, and its outputs were read from that reply.
\<close>

theorem send_returns_own_reply:
  assumes "sync_run handles ser es (sync_initial n ps) = Some s" "Returned c i True out \<in> set (sync_log s)"
  shows "\<exists>m. out = Some m \<and> Arrived c m \<in> set (sync_log s) \<and> IsMessageReplyTo m i = Some True"
proof -
  have "answered_ok (view s)"
    by (rule run_view [OF answered_step assms(1) initial_stack_ok])
      (simp_all add: answered_ok_def sync_initial_def queued_replies_def)
  then show ?thesis using assms(2) by (simp add: answered_ok_def own_reply_def)
qed

section \<open>No reply is left behind\<close>

text \<open>
  What is asked of the ids and of the peer: the id of a new message is not in use and no reply with it
  came before; there is one reply to an id, and it is not marked to unblock the receiver.
\<close>

definition polite_note :: "'c sync_note list \<Rightarrow> 'c sync_note \<Rightarrow> bool" where
  "polite_note l n = (case n of
     Sent c i \<Rightarrow> Sent c i \<notin> set l \<and>
       list_all (\<lambda>n'. case n' of Arrived c' m \<Rightarrow> c' = c \<longrightarrow> IsMessageReplyTo m i \<noteq> Some True | _ \<Rightarrow> True) l
   | Arrived c m \<Rightarrow> is_reply m = Some True \<longrightarrow> should_unblock m \<noteq> Some True \<and>
       list_all (\<lambda>n'. case n' of Arrived c' m' \<Rightarrow> c' = c \<and> is_reply m' = Some True \<longrightarrow>
         GetMessageId m' \<noteq> GetMessageId m | _ \<Rightarrow> True) l
   | _ \<Rightarrow> True)"

fun polite_from :: "'c sync_note list \<Rightarrow> 'c sync_note list \<Rightarrow> bool" where
  "polite_from l [] = True"
| "polite_from l (n # ns) \<longleftrightarrow> polite_note l n \<and> polite_from (l @ [n]) ns"

definition polite :: "'c sync_note list \<Rightarrow> bool" where
  "polite l = polite_from [] l"

lemma polite_from_append: "polite_from l (ns @ ns') \<longleftrightarrow> polite_from l ns \<and> polite_from (l @ ns) ns'"
  by (induction ns arbitrary: l) auto

lemma polite_append [simp]: "polite (l @ [n]) \<longleftrightarrow> polite l \<and> polite_note l n"
  by (simp add: polite_def polite_from_append)

lemma polite_appendD: "polite (l @ l') \<Longrightarrow> polite l"
  by (simp add: polite_def polite_from_append)

lemma polite_sent:
  assumes "polite_note l (Sent c i)"
  shows "Sent c i \<notin> set l" "Arrived c m \<in> set l \<Longrightarrow> IsMessageReplyTo m i \<noteq> Some True"
  using assms by (auto simp: polite_note_def list_all_iff)

lemma polite_arrived:
  assumes "polite_note l (Arrived c m)" "is_reply m = Some True"
  shows "should_unblock m \<noteq> Some True" "Arrived c m' \<in> set l \<Longrightarrow> is_reply m' = Some True \<Longrightarrow> GetMessageId m' \<noteq> GetMessageId m"
  using assms by (auto simp: polite_note_def list_all_iff)

lemma reply_to_id: "IsMessageReplyTo m i = Some True \<longleftrightarrow> is_reply m = Some True \<and> GetMessageId m = Some i"
  by (auto simp: IsMessageReplyTo_def bind_eq_Some_conv)

subsection \<open>Every reply that arrived was used or waits\<close>

definition reply_key :: "'c \<times> message \<Rightarrow> 'c \<times> u32 option" where
  "reply_key cm = (fst cm, GetMessageId (snd cm))"

definition kept_ok :: "('c, 'd) view \<Rightarrow> bool" where
  "kept_ok v \<longleftrightarrow>
     (\<forall>c. distinct (map pending_id (pends v c)) \<and> (\<forall>p \<in> set (pends v c). Sent c (pending_id p) \<in> set (said v))) \<and>
     (\<forall>(c, m) \<in> set (replies v). Arrived c m \<in> set (said v) \<and> is_reply m = Some True) \<and>
     distinct (map reply_key (replies v)) \<and>
     (\<forall>c m. \<forall>p \<in> set (pends v c). Arrived c m \<in> set (said v) \<and> IsMessageReplyTo m (pending_id p) = Some True \<longrightarrow>
       done_event p \<or> (c, m) \<in> set (replies v))"

lemma keptD:
  assumes "kept_ok v"
  shows "distinct (map pending_id (pends v c))" "p \<in> set (pends v c) \<Longrightarrow> Sent c (pending_id p) \<in> set (said v)"
    "(c, m) \<in> set (replies v) \<Longrightarrow> Arrived c m \<in> set (said v)" "(c, m) \<in> set (replies v) \<Longrightarrow> is_reply m = Some True"
    "distinct (map reply_key (replies v))"
    "p \<in> set (pends v c) \<Longrightarrow> Arrived c m \<in> set (said v) \<Longrightarrow> IsMessageReplyTo m (pending_id p) = Some True \<Longrightarrow>
       done_event p \<or> (c, m) \<in> set (replies v)"
  using assms by (auto simp: kept_ok_def)

text \<open>Only the innermost pending send has the id of the innermost pending send.\<close>

lemma other_id:
  assumes "distinct (map pending_id ps)" "ps \<noteq> []" "p \<in> set (butlast ps)"
  shows "pending_id p \<noteq> pending_id (last ps)"
proof -
  have "map pending_id ps = map pending_id (butlast ps) @ [pending_id (last ps)]"
    using assms(2) by (metis append_butlast_last_id list.simps(8,9) map_append)
  with assms(1) have "pending_id (last ps) \<notin> set (map pending_id (butlast ps))" by (metis distinct_append not_distinct_conv_prefix)
  moreover have "pending_id p \<in> set (map pending_id (butlast ps))" using assms(3) by simp
  ultimately show ?thesis by metis
qed

text \<open>Waking the innermost send with \<open>m\<close>: every send that \<open>m\<close> answers is done.\<close>

lemma kept_wake:
  assumes "distinct (map pending_id ps)" "ps \<noteq> []" "IsMessageReplyTo m (pending_id (last ps)) = Some True"
    "take_reply ser m (last ps) = Some p"
  shows "map pending_id (butlast ps @ [signal p]) = map pending_id ps"
    "q \<in> set (butlast ps @ [signal p]) \<Longrightarrow> IsMessageReplyTo m (pending_id q) = Some True \<Longrightarrow> done_event q"
    "q \<in> set (butlast ps @ [signal p]) \<Longrightarrow> done_event q \<or> q \<in> set ps"
proof -
  have "map pending_id (butlast ps @ [signal p]) = map pending_id (butlast ps @ [last ps])"
    using take_reply_effect(1) [OF assms(4)] by simp
  then show "map pending_id (butlast ps @ [signal p]) = map pending_id ps" using assms(2) by simp
  show "q \<in> set (butlast ps @ [signal p]) \<Longrightarrow> IsMessageReplyTo m (pending_id q) = Some True \<Longrightarrow> done_event q"
    using other_id [OF assms(1,2), of q] assms(3) by (auto simp: reply_to_id)
  show "q \<in> set (butlast ps @ [signal p]) \<Longrightarrow> done_event q \<or> q \<in> set ps"
    by (auto dest: in_set_butlastD)
qed

lemma ids_same: "map pending_id qs = map pending_id ps \<Longrightarrow> q \<in> set qs \<Longrightarrow> \<exists>p \<in> set ps. pending_id p = pending_id q"
  by (metis imageE image_eqI list.set_map)

lemma signalled_ids: "list_all2 signalled ps qs \<Longrightarrow> map pending_id qs = map pending_id ps"
  by (induction rule: list_all2_induct) (auto simp: signalled_def)

text \<open>Steps that leave the ids and the waiting replies alone keep this, if no send falls asleep.\<close>

lemma kept_same:
  assumes "kept_ok v" "replies w = replies v" "\<And>c. map pending_id (pends w c) = map pending_id (pends v c)"
    "set (said v) \<subseteq> set (said w)"
    "\<And>c m q. q \<in> set (pends w c) \<Longrightarrow> Arrived c m \<in> set (said w) \<Longrightarrow> IsMessageReplyTo m (pending_id q) = Some True \<Longrightarrow>
      done_event q \<or> (c, m) \<in> set (replies v)"
  shows "kept_ok w"
  unfolding kept_ok_def
proof (intro conjI allI ballI)
  show "distinct (map pending_id (pends w c))" for c using keptD(1) [OF assms(1)] assms(3) by simp
  show "Sent c (pending_id q) \<in> set (said w)" if "q \<in> set (pends w c)" for c q
  proof -
    from ids_same [OF assms(3) that] obtain p where p: "p \<in> set (pends v c)" "pending_id p = pending_id q" by blast
    from keptD(2) [OF assms(1) p(1)] p(2) assms(4) show ?thesis by auto
  qed
  show "case x of (c, m) \<Rightarrow> Arrived c m \<in> set (said w) \<and> is_reply m = Some True" if "x \<in> set (replies w)" for x
    using that keptD(3,4) [OF assms(1)] assms(2,4) by auto
  show "distinct (map reply_key (replies w))" using keptD(5) [OF assms(1)] assms(2) by simp
qed (use assms(2,5) in auto)

lemma remove_nth:
  assumes "i < length xs"
  shows "distinct (map f xs) \<Longrightarrow> distinct (map f (take i xs @ drop (Suc i) xs))"
    "x \<in> set xs \<Longrightarrow> x \<noteq> xs ! i \<Longrightarrow> x \<in> set (take i xs @ drop (Suc i) xs)"
    "x \<in> set (take i xs @ drop (Suc i) xs) \<Longrightarrow> x \<in> set xs"
    "length (filter P xs) = length (filter P (take i xs @ drop (Suc i) xs)) + (if P (xs ! i) then 1 else 0)"
proof -
  have e: "xs = take i xs @ xs ! i # drop (Suc i) xs" using assms by (rule id_take_nth_drop)
  show "distinct (map f xs) \<Longrightarrow> distinct (map f (take i xs @ drop (Suc i) xs))" by (subst (asm) e) auto
  show "x \<in> set xs \<Longrightarrow> x \<noteq> xs ! i \<Longrightarrow> x \<in> set (take i xs @ drop (Suc i) xs)" by (subst (asm) e) auto
  show "x \<in> set (take i xs @ drop (Suc i) xs) \<Longrightarrow> x \<in> set xs" by (auto dest: in_set_takeD in_set_dropD)
  have "filter P xs = filter P (take i xs @ xs ! i # drop (Suc i) xs)" using e by simp
  then show "length (filter P xs) = length (filter P (take i xs @ drop (Suc i) xs)) + (if P (xs ! i) then 1 else 0)"
    by simp
qed

lemma kept_step:
  assumes "reply_step ser v w" "kept_ok v" "polite (said w)"
  shows "kept_ok w"
  using assms(1)
proof cases
  case (quiet ns)
  have "Arrived c m \<in> set (said v)" if "Arrived c m \<in> set (said v) \<union> set ns" for c m
    using that quiet(2) by (auto simp: list_all_iff quiet_note_def)
  then show ?thesis using quiet(1) by (intro kept_same [OF assms(2)]) (auto dest: keptD(6) [OF assms(2)])
next
  case (signals c qs)
  have "done_event q \<or> (c', m) \<in> set (replies v)"
    if "q \<in> set (pends w c')" "Arrived c' m \<in> set (said v)" "IsMessageReplyTo m (pending_id q) = Some True" for c' m q
  proof (cases "c' = c")
    case True
    with that(1) signals(1) have "q \<in> set qs" by simp
    from signalled_answer [OF signals(2) this] obtain p where p: "p \<in> set (pends v c)" "pending_id p = pending_id q"
      "done_event p \<longrightarrow> done_event q" by blast
    from keptD(6) [OF assms(2) p(1)] that(2,3) True p(2,3) show ?thesis by auto
  next
    case False
    with that signals(1) keptD(6) [OF assms(2)] show ?thesis by simp
  qed
  then show ?thesis using signals(1) signalled_ids [OF signals(2)] by (intro kept_same [OF assms(2)]) auto
next
  case (answer c m p)
  have l: "pends v c \<noteq> []" "IsMessageReplyTo m (pending_id (last (pends v c))) = Some True"
    using answer(2) by (simp_all add: wakes_top_def)
  note w = kept_wake [OF keptD(1) [OF assms(2)] l answer(4)]
  have "done_event q \<or> (c', m') \<in> set (replies v)"
    if "q \<in> set (pends w c')" "Arrived c' m' \<in> set (said w)" "IsMessageReplyTo m' (pending_id q) = Some True" for c' m' q
  proof (cases "c' = c \<and> (m' = m \<or> done_event q)")
    case True
    then show ?thesis using that w(2) [of q] answer(1) by auto
  next
    case False
    then have "q \<in> set (pends v c')" "Arrived c' m' \<in> set (said v)"
      using that answer(1) w(3) [of q] by (auto split: if_splits)
    then show ?thesis using keptD(6) [OF assms(2)] that(3) by simp
  qed
  then show ?thesis using answer(1) w(1) by (intro kept_same [OF assms(2)]) auto
next
  case (wait c m)
  have n: "polite_note (said v) (Arrived c m)" using assms(3) wait(1) by simp
  have "reply_key (c, m) \<notin> set (map reply_key (replies v))"
    using polite_arrived(2) [OF n wait(4)] keptD(3,4) [OF assms(2)] by (force simp: reply_key_def)
  moreover have "Arrived c' m' \<in> set (said v)" if "Arrived c' m' \<in> set (said w)" "(c', m') \<noteq> (c, m)" for c' m'
    using that wait(1) by auto
  then have "done_event q \<or> (c', m') \<in> set (replies w)"
    if "q \<in> set (pends w c')" "Arrived c' m' \<in> set (said w)" "IsMessageReplyTo m' (pending_id q) = Some True" for c' m' q
    using that wait(1) keptD(6) [OF assms(2), of q c' m'] by (cases "(c', m') = (c, m)") auto
  moreover have "\<forall>(c', m') \<in> set (replies w). Arrived c' m' \<in> set (said w) \<and> is_reply m' = Some True"
    using keptD(3,4) [OF assms(2)] wait(1,4) by auto
  ultimately show ?thesis using assms(2) wait(1) unfolding kept_ok_def by simp
next
  case (other c m)
  have n: "polite_note (said v) (Arrived c m)" using assms(3) other(1) by simp
  then have nr: "is_reply m \<noteq> Some True" using other(3) polite_arrived(1) by fastforce
  then have "Arrived c' m' \<in> set (said v)" if "Arrived c' m' \<in> set (said w)" "is_reply m' = Some True" for c' m'
    using that other(1) by auto
  then show ?thesis using other(1) nr
    by (intro kept_same [OF assms(2)]) (auto dest: keptD(6) [OF assms(2)] simp: reply_to_id)
next
  case (scan_hits i c m p)
  have l: "pends v c \<noteq> []" "IsMessageReplyTo m (pending_id (last (pends v c))) = Some True"
    using scan_hits(5) by (simp_all add: wakes_top_def)
  note w = kept_wake [OF keptD(1) [OF assms(2)] l scan_hits(6)]
  note rm = remove_nth [OF scan_hits(3)]
  have k: "kept_ok (v\<lparr>pends := (pends v)(c := butlast (pends v c) @ [signal p])\<rparr>)" (is "kept_ok ?v")
  proof (intro kept_same [OF assms(2)])
    show "done_event q \<or> (c', m') \<in> set (replies v)"
      if "q \<in> set (pends ?v c')" "Arrived c' m' \<in> set (said ?v)" "IsMessageReplyTo m' (pending_id q) = Some True" for c' m' q
      using that w(3) [of q] keptD(6) [OF assms(2)] by (auto split: if_splits)
  qed (use w(1) in auto)
  have "done_event q \<or> (c', m') \<in> set (replies w)"
    if "q \<in> set (pends w c')" "Arrived c' m' \<in> set (said w)" "IsMessageReplyTo m' (pending_id q) = Some True" for c' m' q
  proof (cases "(c', m') = (c, m)")
    case True
    then show ?thesis using that w(2) [of q] scan_hits(1) by auto
  next
    case False
    have "done_event q \<or> (c', m') \<in> set (replies v)" using keptD(6) [OF k] that scan_hits(1) by simp
    then show ?thesis using False rm(2) [of "(c', m')"] scan_hits(1,4) by auto
  qed
  moreover have "\<forall>(c', m') \<in> set (replies w). Arrived c' m' \<in> set (said w) \<and> is_reply m' = Some True"
  proof -
    have "set (replies w) \<subseteq> set (replies v)" "said w = said v" using rm(3) scan_hits(1) by auto
    moreover have "\<forall>(c', m') \<in> set (replies v). Arrived c' m' \<in> set (said v) \<and> is_reply m' = Some True"
      using assms(2) unfolding kept_ok_def by (elim conjE) assumption
    ultimately show ?thesis by auto
  qed
  moreover have "distinct (map reply_key (replies w))" using rm(1) [OF keptD(5) [OF assms(2)]] scan_hits(1) by simp
  ultimately show ?thesis using k scan_hits(1) unfolding kept_ok_def by simp
next
  case (push p i d c)
  have n: "polite_note (said v) (Sent c i)" using assms(3) push(1) by simp
  have a: "Arrived c' m \<in> set (said v)" if "Arrived c' m \<in> set (said w)" for c' m using that push(1) by simp
  have "i \<notin> set (map pending_id (pends v c))" using polite_sent(1) [OF n] keptD(2) [OF assms(2)] by auto
  moreover have "IsMessageReplyTo m i \<noteq> Some True" if "Arrived c m \<in> set (said v)" for m using polite_sent(2) [OF n that] .
  ultimately show ?thesis using assms(2) push(1,2) a unfolding kept_ok_def by auto
next
  case (pop c p)
  have "q \<in> set (pends v c')" if "q \<in> set (pends w c')" for c' q
    using that pop(1) by (auto split: if_splits dest: in_set_butlastD)
  moreover have "distinct (map pending_id (pends w c'))" for c'
    using keptD(1) [OF assms(2)] pop(1) by (simp add: map_butlast distinct_butlast)
  ultimately show ?thesis using assms(2) pop(1) unfolding kept_ok_def by auto
qed (use assms(2) in \<open>simp_all add: kept_ok_def\<close>)

lemma step_says: "reply_step ser v w \<Longrightarrow> \<exists>ns. said w = said v @ ns"
  by (erule reply_step.cases) auto

subsection \<open>Every waiting reply that can be used has a task\<close>

lemma wakes_ids:
  assumes "\<And>c. map pending_id (qs c) = map pending_id (ps c)"
  shows "wakes_top qs = wakes_top ps"
proof -
  have "qs c = [] \<longleftrightarrow> ps c = []" for c using assms [of c] by (metis map_is_Nil_conv)
  moreover have "pending_id (last (qs c)) = pending_id (last (ps c))" if "ps c \<noteq> []" for c
    using assms [of c] that calculation by (metis last_map)
  ultimately show ?thesis by (auto simp: fun_eq_iff wakes_top_def)
qed

definition usable :: "('c, 'd) view \<Rightarrow> nat \<Rightarrow> nat" where
  "usable v k = length (filter (wakes_top (pends v)) (take k (replies v)))"

definition tasks_ok :: "('c, 'd) view \<Rightarrow> bool" where
  "tasks_ok v \<longleftrightarrow> (case scan v of
     None \<Rightarrow> usable v (length (replies v)) \<le> scans v
   | Some i \<Rightarrow> usable v i \<le> scans v \<and> usable v (length (replies v)) \<le> scans v + 1)"

lemma tasks_mono:
  assumes "tasks_ok v" "scan w = scan v" "scans v + k \<le> scans w"
    "\<And>n. usable w n \<le> usable v n + k" "length (replies w) = length (replies v)"
  shows "tasks_ok w"
  using assms(1-3,5) assms(4) [of "length (replies v)"] assms(4) [of "the (scan v)"]
  by (auto simp: tasks_ok_def split: option.splits)

lemma filter_at_most:
  assumes "\<And>x. x \<in> set xs \<Longrightarrow> P x \<Longrightarrow> Q x \<or> R x"
  shows "length (filter P xs) \<le> length (filter Q xs) + length (filter R xs)"
  using assms by (induction xs) auto

lemma filter_one:
  assumes "distinct (map f xs)" "\<And>x. x \<in> set xs \<Longrightarrow> R x \<Longrightarrow> f x = y"
  shows "length (filter R xs) \<le> 1"
  using assms
proof (induction xs)
  case (Cons x xs)
  show ?case
  proof (cases "R x")
    case True
    have "filter R xs = []"
    proof (rule ccontr)
      assume "filter R xs \<noteq> []"
      then obtain z where z: "z \<in> set xs" "R z" by (auto simp: filter_empty_conv)
      have "f x = y" "f z = y" using Cons.prems(2) [of x] Cons.prems(2) [of z] True z by auto
      then have "f x \<in> f ` set xs" using z(1) by (metis image_eqI)
      with Cons.prems(1) show False by simp
    qed
    then show ?thesis by simp
  next
    case False
    then show ?thesis using Cons.IH Cons.prems by simp
  qed
qed simp

lemma tasks_step:
  assumes "reply_step ser v w" "kept_ok v" "tasks_ok v" "polite (said w)"
  shows "tasks_ok w"
  using assms(1)
proof cases
  case (quiet ns)
  then show ?thesis using assms(3) by (intro tasks_mono [of v w 0]) (auto simp: usable_def)
next
  case (signals c qs)
  have "wakes_top (pends w) = wakes_top (pends v)"
    using signals(1) signalled_ids [OF signals(2)] by (intro wakes_ids) simp
  then show ?thesis using assms(3) signals(1) by (intro tasks_mono [of v w 0]) (simp_all add: usable_def)
next
  case (answer c m p)
  have "pends v c \<noteq> []" "IsMessageReplyTo m (pending_id (last (pends v c))) = Some True"
    using answer(2) by (simp_all add: wakes_top_def)
  from kept_wake(1) [OF keptD(1) [OF assms(2)] this answer(4)]
  have "wakes_top (pends w) = wakes_top (pends v)" using answer(1) by (intro wakes_ids) simp
  then show ?thesis using assms(3) answer(1) by (intro tasks_mono [of v w 0]) (simp_all add: usable_def)
next
  case (wait c m)
  then show ?thesis using assms(3) by (simp add: tasks_ok_def usable_def)
next
  case (other c m)
  then show ?thesis using assms(3) by (intro tasks_mono [of v w 0]) (auto simp: usable_def)
next
  case scan_starts
  then show ?thesis using assms(3) by (simp add: tasks_ok_def usable_def)
next
  case (scan_on i)
  then show ?thesis using assms(3) by (simp add: tasks_ok_def usable_def take_Suc_conv_app_nth)
next
  case (scan_hits i c m p)
  have "pends v c \<noteq> []" "IsMessageReplyTo m (pending_id (last (pends v c))) = Some True"
    using scan_hits(5) by (simp_all add: wakes_top_def)
  from kept_wake(1) [OF keptD(1) [OF assms(2)] this scan_hits(6)]
  have "wakes_top (pends w) = wakes_top (pends v)" using scan_hits(1) by (intro wakes_ids) simp
  then show ?thesis using assms(3) scan_hits(1-5) remove_nth(4) [OF scan_hits(3), of "wakes_top (pends v)"]
    by (simp add: tasks_ok_def usable_def)
next
  case (scan_ends i)
  then show ?thesis using assms(3) by (simp add: tasks_ok_def usable_def)
next
  case (push p i d c)
  have n: "polite_note (said v) (Sent c i)" using assms(4) push(1) by simp
  have "wakes_top (pends v) x" if "x \<in> set (replies v)" "wakes_top (pends w) x" for x
    using that push(1,2) polite_sent(2) [OF n] keptD(3) [OF assms(2)]
    by (cases x) (auto simp: wakes_top_def split: if_splits)
  then have "usable w n \<le> usable v n + length (filter (\<lambda>x. False) (take n (replies v)))" for n
  proof -
    have "replies w = replies v" using push(1) by simp
    then show ?thesis unfolding usable_def
      by (simp only:, intro filter_at_most) (use \<open>\<And>x. x \<in> set (replies v) \<Longrightarrow> wakes_top (pends w) x \<Longrightarrow> wakes_top (pends v) x\<close> in \<open>auto dest: in_set_takeD\<close>)
  qed
  then show ?thesis using assms(3) push(1) by (intro tasks_mono [of v w 0]) simp_all
next
  case (pop c p)
  let ?R = "\<lambda>x. fst x = c \<and> wakes_top (pends w) x"
  have "usable w n \<le> usable v n + length (filter ?R (take n (replies v)))" for n
  proof -
    have "replies w = replies v" using pop(1) by simp
    then show ?thesis unfolding usable_def
      by (simp only:, intro filter_at_most) (use pop(1) in \<open>auto simp: wakes_top_def split: prod.splits if_splits\<close>)
  qed
  moreover have "length (filter ?R (take n (replies v))) \<le> 1" for n
  proof (rule filter_one [of reply_key _ _ "(c, Some (pending_id (last (pends w c))))"])
    show "distinct (map reply_key (take n (replies v)))"
      using keptD(5) [OF assms(2)] by (simp add: take_map [symmetric])
    show "reply_key x = (c, Some (pending_id (last (pends w c))))" if "?R x" for x
      using that by (auto simp: reply_key_def wakes_top_def reply_to_id split: prod.splits)
  qed
  ultimately have "usable w n \<le> usable v n + 1" for n by (meson add_le_mono1 le_trans add_left_mono)
  then show ?thesis using assms(3) pop(1) by (intro tasks_mono [of v w 1]) simp_all
qed

text \<open>
  C24: with polite ids, in every interleaving: when the IPC thread has no \<open>DispatchReplies\<close> left to run,
  the innermost send of every channel whose reply has arrived has been woken. A reply that arrived
  while the listener was in a nested send is never left behind.
\<close>

theorem no_reply_left_behind:
  assumes "sync_run handles ser es (sync_initial n ps) = Some s" "polite (sync_log s)"
    "position s = Idle" "reply_tasks s = 0"
    "deserializers s c \<noteq> []" "Arrived c m \<in> set (sync_log s)"
    "IsMessageReplyTo m (pending_id (last (deserializers s c))) = Some True"
  shows "done_event (last (deserializers s c))"
proof (rule ccontr)
  assume nd: "\<not> done_event (last (deserializers s c))"
  let ?J = "\<lambda>v. polite (said v) \<longrightarrow> kept_ok v \<and> tasks_ok v"
  have "?J (view s)"
  proof (rule run_view [OF _ assms(1) initial_stack_ok])
    show "?J w" if step: "reply_step ser v w" and "?J v" for v w
      using that step_says [OF step] kept_step [OF step] tasks_step [OF step] polite_appendD by metis
    show "?J (view (sync_initial n ps))"
      by (simp add: kept_ok_def tasks_ok_def usable_def sync_initial_def queued_replies_def)
  qed
  then have k: "kept_ok (view s)" and t: "tasks_ok (view s)" using assms(2) by simp_all
  have "(c, m) \<in> set (replies (view s))"
    using keptD(6) [OF k, of "last (deserializers s c)" c m] assms(5-7) nd by simp
  then have "(c, m) \<in> set (filter (wakes_top (pends (view s))) (replies (view s)))"
    using assms(5,7) by (simp add: wakes_top_def)
  then have "0 < length (filter (wakes_top (pends (view s))) (replies (view s)))" by (rule length_pos_if_in_set)
  then have "0 < usable (view s) (length (replies (view s)))" by (simp add: usable_def)
  then show False using t assms(3,4) by (simp add: tasks_ok_def)
qed

end
