(* ===== verification/SyncQueue.thy ===== *)
theory SyncQueue imports SyncProps begin

text \<open>
  The queue of synchronous messages that arrive while the listener thread may be blocked: none is
  forgotten, they are dispatched in order, and what a nested send can still miss.
\<close>

section \<open>Synchronous messages from the peer\<close>

lemma unblock_same:
  assumes "TryToUnblockListener ser m c s = Some (r, s1)"
  obtains ds where "s1 = s\<lparr>deserializers := ds\<rparr>"
  using assms
proof (cases rule: unblock_cases)
  case no
  then show thesis using that [of "deserializers s"] by simp
next
  case (yes p)
  then show thesis using that by (simp add: set_pending_def)
qed

text \<open>A message that arrives changes at most these parts of the state.\<close>

lemma receive_effect:
  assumes "Sync_OnMessageReceived handles ser m c s = Some s'" "position s = Idle"
  obtains ps ds pos l where "s' = s\<lparr>proxies := ps, deserializers := ds, position := pos, sync_log := sync_log s @ l\<rparr>"
    "pos = Idle \<or> pos = Queueing c m \<or> pos = QueueingReply c m" "l = [] \<or> l = [Arrived c m]"
proof -
  obtain taken p where t: "TryFilters handles m (proxies s c) = (taken, p)" by fastforce
  show thesis
  proof (cases taken)
    case True
    then have "s' = s\<lparr>proxies := (proxies s)(c := p)\<rparr>" using assms(1) t
      by (simp add: Sync_OnMessageReceived_def set_proxy_def)
    then have "s' = s\<lparr>proxies := (proxies s)(c := p), deserializers := deserializers s, position := Idle, sync_log := sync_log s @ []\<rparr>"
      using assms(2) by (cases s) simp
    then show thesis by (rule that) simp_all
  next
    case False
    let ?s = "record_note (Arrived c m) (set_proxy c p s)"
    from False assms(1) t obtain r s1 where s1: "TryToUnblockListener ser m c ?s = Some (r, s1)"
      by (auto simp: Sync_OnMessageReceived_def bind_eq_Some_conv)
    obtain ds where ds: "s1 = ?s\<lparr>deserializers := ds\<rparr>" by (rule unblock_same [OF s1])
    have "\<exists>ps pos. s' = s1\<lparr>proxies := ps, position := pos\<rparr> \<and> (pos = Idle \<or> pos = Queueing c m \<or> pos = QueueingReply c m)"
    proof (cases r)
      case True
      then have "s' = s1" using assms(1) t False s1 by (simp add: Sync_OnMessageReceived_def)
      moreover have "position s1 = Idle" using assms(2) ds by (simp add: sync_updates)
      ultimately have "s' = s1\<lparr>proxies := proxies s1, position := Idle\<rparr>" by (cases s1) simp
      then show ?thesis by blast
    next
      case nr: False
      with assms(1) t False s1 obtain u where u: "should_unblock m = Some u"
        by (auto simp: Sync_OnMessageReceived_def bind_eq_Some_conv)
      show ?thesis
      proof (cases u)
        case True
        then have "s' = s1\<lparr>proxies := proxies s1, position := Queueing c m\<rparr>"
          using assms(1) t False s1 nr u by (simp add: Sync_OnMessageReceived_def)
        then show ?thesis by blast
      next
        case nu: False
        with assms(1) t False s1 nr u obtain b where b: "is_reply m = Some b"
          by (auto simp: Sync_OnMessageReceived_def bind_eq_Some_conv)
        show ?thesis
        proof (cases b)
          case True
          then have "s' = s1\<lparr>proxies := proxies s1, position := QueueingReply c m\<rparr>"
            using assms(1) t False s1 nr u nu b by (simp add: Sync_OnMessageReceived_def)
          then show ?thesis by blast
        next
          case nb: False
          then have "s' = s1\<lparr>proxies := (proxies s1)(c := OnMessageReceivedNoFilter m (proxies s1 c))\<rparr>"
            using assms(1) t False s1 nr u nu b by (simp add: Sync_OnMessageReceived_def set_proxy_def)
          moreover have "position s1 = Idle" using assms(2) ds by (simp add: sync_updates)
          ultimately have "s' = s1\<lparr>proxies := (proxies s1)(c := OnMessageReceivedNoFilter m (proxies s1 c)), position := Idle\<rparr>"
            by (cases s1) simp
          then show ?thesis by blast
        qed
      qed
    qed
    then obtain ps pos where s': "s' = s1\<lparr>proxies := ps, position := pos\<rparr>"
      "pos = Idle \<or> pos = Queueing c m \<or> pos = QueueingReply c m" by blast
    show thesis using s'(2) by (intro that [where ps = ps and ds = ds and pos = pos and l = "[Arrived c m]"])
      (simp_all add: s'(1) ds sync_updates)
  qed
qed

lemma drain_effect:
  assumes "message_queue s = (c, m) # q"
  obtains ps fs where "DispatchMessages_round s = s\<lparr>proxies := ps, message_queue := q, stack := fs @ stack s,
    sync_log := sync_log s @ [Dispatched c m]\<rparr>"
proof (cases "has_listener (proxies s c)")
  case True
  then show thesis using assms
    by (intro that [where ps = "(proxies s)(c := OnDispatchMessage m (proxies s c))" and fs = "[Handler]"])
      (simp add: DispatchMessages_round_def dispatch_to_listener_def sync_updates)
next
  case False
  then show thesis using assms
    by (intro that [where ps = "(proxies s)(c := OnDispatchMessage m (proxies s c))" and fs = "[]"])
      (simp add: DispatchMessages_round_def dispatch_to_listener_def sync_updates)
qed

text \<open>A step of a message loop.\<close>

lemma loop_cases:
  assumes "loop_step e s = Some s'"
  obtains (task) ps fs where "s' = s\<lparr>proxies := ps, stack := fs @ stack s\<rparr>"
  | (dispatch) "0 < dispatch_tasks s" "s' = s\<lparr>dispatch_tasks := dispatch_tasks s - 1, task_pending := False, stack := Draining # stack s\<rparr>"
  | (event) "s' = s\<lparr>dispatch_event := False, stack := Draining # stack s\<rparr>"
  | (quit) c i old fs where "stack s = Nested c i old # fs" "s' = s\<lparr>top_send_done_watcher := old, stack := Popping c i # fs\<rparr>"
proof (cases e)
  case RunOtherTask
  then show thesis using assms task [where ps = "proxies s" and fs = "[Handler]"] by (simp add: loop_step_def push_frame_def)
next
  case RunDispatchMessages
  then show thesis using assms dispatch
    by (simp add: loop_step_def DispatchMessagesTask_def push_frame_def split: if_splits)
next
  case (RunListenerTask c)
  then have l: "run_listener c s = Some s'" using assms by (simp add: loop_step_def)
  then obtain t ts where "listener_tasks (proxies s c) = t # ts"
    by (cases "listener_tasks (proxies s c)") (simp_all add: run_listener_def)
  with l obtain p where "s' = set_proxy c p s \<or> s' = push_frame Handler (set_proxy c p s)"
    by (auto simp: run_listener_def Let_def split: if_splits)
  then consider "s' = set_proxy c p s" | "s' = push_frame Handler (set_proxy c p s)" by blast
  then show thesis
  proof cases
    case 1
    then show thesis by (intro task [where ps = "(proxies s)(c := p)" and fs = "[]"]) (simp add: set_proxy_def)
  next
    case 2
    then show thesis by (intro task [where ps = "(proxies s)(c := p)" and fs = "[Handler]"])
      (simp add: set_proxy_def push_frame_def)
  qed
next
  case DispatchEventFires
  then show thesis using assms event by (simp add: loop_step_def on_dispatch_event_def push_frame_def)
next
  case SendDoneFires
  then show thesis using assms quit
    by (auto simp: loop_step_def on_send_done_def leave_nested_loop_def push_frame_def pop_frame_def
      split: list.splits frame.splits option.splits if_splits)
qed (use assms in \<open>simp_all add: loop_step_def\<close>)

lemma wait_cases:
  assumes "WaitForReply n c i p s = Some s'" "stack s = Waiting c i p # fs"
  obtains (dispatch) "dispatch_event s" "s' = s\<lparr>dispatch_event := False, stack := Draining # stack s\<rparr>"
  | (nested) e w where "s' = s\<lparr>stack := Nested c i w # fs, top_send_done_watcher := e\<rparr>"
  | (woken) "s' = s\<lparr>stack := Popping c i # fs\<rparr>"
proof -
  from assms(1) obtain e where e: "GetSendDoneEvent c s = Some e"
    by (cases "GetSendDoneEvent c s") (simp_all add: WaitForReply_def)
  consider "n = 0" "dispatch_event s" | "n = 2" "p" | "n = 1" "is_signaled e s"
    using assms(1) e by (auto simp: WaitForReply_def split: if_splits)
  then show thesis
  proof cases
    case 1
    then show thesis using assms(1) e dispatch by (simp add: WaitForReply_def push_frame_def)
  next
    case 2
    then show thesis using assms e
      by (intro nested [where w = "top_send_done_watcher s" and e = "Some e"])
        (simp add: WaitForReply_def WaitForReplyWithNestedMessageLoop_def push_frame_def pop_frame_def)
  next
    case 3
    then show thesis using assms e woken by (simp add: WaitForReply_def push_frame_def pop_frame_def)
  qed
qed

definition queue_ok :: "('c, 'f, 'd) sync_state \<Rightarrow> bool" where
  "queue_ok s \<longleftrightarrow>
     (message_queue s \<noteq> [] \<longrightarrow> task_pending s \<or> Draining \<in> set (stack s)) \<and>
     (message_queue s \<noteq> [] \<longrightarrow> dispatch_event s \<or> Draining \<in> set (stack s) \<or> (\<exists>b. position s = Signalling b)) \<and>
     (task_pending s \<longrightarrow> 0 < dispatch_tasks s \<or> position s = Signalling False \<or> position s = Posting)"

lemma queue_ok_same:
  assumes "queue_ok s" "message_queue s' \<noteq> [] \<longrightarrow> message_queue s \<noteq> []" "task_pending s' = task_pending s"
    "dispatch_event s' = dispatch_event s" "dispatch_tasks s' = dispatch_tasks s" "position s' = position s"
    "Draining \<in> set (stack s) \<longrightarrow> Draining \<in> set (stack s')"
  shows "queue_ok s'"
  unfolding queue_ok_def assms(3-6) using assms(1,2,7) unfolding queue_ok_def by blast

lemma queue_ok_ipc:
  assumes "ipc_step handles ser e s = Some s'" "position s = Idle" "queue_ok s"
  shows "queue_ok s'"
proof (cases e)
  case (Arrive c m)
  then have "Sync_OnMessageReceived handles ser m c s = Some s'" using assms(1) by (simp add: ipc_step_def split: if_splits)
  from receive_effect [OF this assms(2)] obtain ps ds pos l where
    "s' = s\<lparr>proxies := ps, deserializers := ds, position := pos, sync_log := sync_log s @ l\<rparr>" by metis
  then show ?thesis using assms(2,3) by (auto simp: queue_ok_def)
next
  case (RunIpcTask c ok)
  then show ?thesis using assms
    by (intro queue_ok_same [OF assms(3)])
      (auto simp: ipc_step_def run_sync_task_def sync_ipc_defs sync_updates Let_def split: sync_splits)
next
  case RunDispatchReplies
  then have "s' = s\<lparr>reply_tasks := reply_tasks s - 1, position := Replying 0\<rparr>"
    using assms(1) by (simp add: ipc_step_def split: if_splits)
  then show ?thesis using assms(2,3) by (simp add: queue_ok_def)
qed (use assms(1) in \<open>(intro queue_ok_same [OF assms(3)], auto simp: ipc_step_def sync_ipc_defs sync_updates split: if_splits)+\<close>)

lemma queue_ok_continues:
  assumes "ipc_continues ser s = Some s'" "queue_ok s"
  shows "queue_ok s'"
proof (cases "position s")
  case (Replying i)
  show ?thesis
  proof (cases "i < length (received_replies s)")
    case True
    obtain c m where cm: "received_replies s ! i = (c, m)" by fastforce
    with assms Replying True obtain r s1 where s1: "TryToUnblockListener ser m c s = Some (r, s1)"
      by (auto simp: ipc_continues_def DispatchReplies_round_def bind_eq_Some_conv)
    obtain ds where "s1 = s\<lparr>deserializers := ds\<rparr>" by (rule unblock_same [OF s1])
    then show ?thesis using assms Replying True cm s1
      by (cases r) (auto simp: ipc_continues_def DispatchReplies_round_def queue_ok_def)
  qed (use assms Replying in \<open>auto simp: ipc_continues_def DispatchReplies_round_def queue_ok_def\<close>)
qed (use assms in \<open>auto simp: ipc_continues_def sync_ipc_defs sync_updates queue_ok_def\<close>)

lemma queue_ok_frame:
  assumes "frame_step e s = Some s'" "queue_ok s"
  shows "queue_ok s'"
  using assms(1)
proof (cases rule: frame_cases)
  case (send c m t fs)
  then show ?thesis using assms(2)
    by (cases rule: send_effect [OF send(3)]) (auto intro!: queue_ok_same [OF assms(2)] simp: Push_def sync_updates)
next
  case (close c fs)
  then show ?thesis
    by (intro queue_ok_same [OF assms(2)]) (auto simp: CancelPendingSends_def RemoveContext_def sync_updates)
next
  case (return_handler fs)
  then show ?thesis by (intro queue_ok_same [OF assms(2)]) (simp_all add: pop_frame_def)
next
  case (drain fs)
  then show ?thesis using assms(2)
  proof (cases "message_queue s")
    case Nil
    then show ?thesis using drain assms(2) by (auto simp: DispatchMessages_round_def pop_frame_def queue_ok_def)
  next
    case (Cons cm q)
    obtain c m where "cm = (c, m)" by fastforce
    with Cons obtain ps fs' where "s' = s\<lparr>proxies := ps, message_queue := q, stack := fs' @ stack s,
      sync_log := sync_log s @ [Dispatched c m]\<rparr>" using drain(3) by (auto elim: drain_effect)
    then show ?thesis using assms(2) Cons drain(2) by (auto simp: queue_ok_def)
  qed
next
  case (post c i m t fs)
  show ?thesis by (rule post_effect [OF post(3,2)]) (use post(2) in \<open>auto intro!: queue_ok_same [OF assms(2)]\<close>)
next
  case (wait c i p n fs)
  from wait(3,2) show ?thesis
  proof (cases rule: wait_cases)
    case dispatch
    then show ?thesis using assms(2) by (simp add: queue_ok_def)
  qed (use wait(2) in \<open>auto intro!: queue_ok_same [OF assms(2)]\<close>)
next
  case (finish c i fs)
  then show ?thesis
    by (intro queue_ok_same [OF assms(2)]) (auto simp: finish_send_def Pop_def sync_updates split: if_splits)
qed

lemma queue_ok_step:
  assumes "sync_step handles ser e s = Some s'" "queue_ok s"
  shows "queue_ok s'"
  using assms(1)
proof (cases rule: sync_step_cases)
  case shutdown
  then show ?thesis using assms(2) by (simp add: queue_ok_def)
next
  case continues
  show ?thesis by (rule queue_ok_continues [OF continues(2) assms(2)])
next
  case ipc
  show ?thesis by (rule queue_ok_ipc [OF ipc(3,2) assms(2)])
next
  case loop
  from loop(3) show ?thesis using assms(2) by (cases rule: loop_cases) (auto simp: queue_ok_def)
next
  case frame
  show ?thesis by (rule queue_ok_frame [OF frame assms(2)])
qed


section \<open>Order\<close>

definition queued_in :: "'c sync_note list \<Rightarrow> ('c \<times> message) list" where
  "queued_in l = concat (map (\<lambda>n. case n of Queued c m \<Rightarrow> [(c, m)] | _ \<Rightarrow> []) l)"

definition dispatched_in :: "'c sync_note list \<Rightarrow> ('c \<times> message) list" where
  "dispatched_in l = concat (map (\<lambda>n. case n of Dispatched c m \<Rightarrow> [(c, m)] | _ \<Rightarrow> []) l)"

lemma queued_in_simps [simp]: "queued_in [] = []" "queued_in (l @ l') = queued_in l @ queued_in l'"
    "queued_in (n # l) = (case n of Queued c m \<Rightarrow> [(c, m)] | _ \<Rightarrow> []) @ queued_in l"
  by (simp_all add: queued_in_def)

lemma dispatched_in_simps [simp]: "dispatched_in [] = []" "dispatched_in (l @ l') = dispatched_in l @ dispatched_in l'"
    "dispatched_in (n # l) = (case n of Dispatched c m \<Rightarrow> [(c, m)] | _ \<Rightarrow> []) @ dispatched_in l"
  by (simp_all add: dispatched_in_def)

text \<open>The channels chosen by \<open>P\<close>: what was queued is what was dispatched followed by the queue.\<close>

definition order_ok :: "('c \<Rightarrow> bool) \<Rightarrow> ('c, 'f, 'd) sync_state \<Rightarrow> bool" where
  "order_ok P s \<longleftrightarrow> filter (\<lambda>(c, m). P c) (queued_in (sync_log s)) =
     filter (\<lambda>(c, m). P c) (dispatched_in (sync_log s)) @ filter (\<lambda>(c, m). P c) (message_queue s)"

lemma order_same:
  assumes "order_ok P s" "message_queue s' = message_queue s" "sync_log s' = sync_log s @ l"
    "queued_in l = []" "dispatched_in l = []"
  shows "order_ok P s'"
  using assms by (simp add: order_ok_def)

lemma order_same0:
  assumes "order_ok P s" "message_queue s' = message_queue s" "sync_log s' = sync_log s"
  shows "order_ok P s'"
  using assms by (simp add: order_ok_def)

lemma order_ipc:
  assumes "ipc_step handles ser e s = Some s'" "position s = Idle" "order_ok P s"
  shows "order_ok P s'"
proof (cases e)
  case (Arrive c m)
  then have "Sync_OnMessageReceived handles ser m c s = Some s'" using assms(1) by (simp add: ipc_step_def split: if_splits)
  from this assms(2) show ?thesis
  proof (rule receive_effect)
    fix ps ds pos l
    assume "s' = s\<lparr>proxies := ps, deserializers := ds, position := pos, sync_log := sync_log s @ l\<rparr>"
      "l = [] \<or> l = [Arrived c m]"
    then show ?thesis by (intro order_same [OF assms(3), of _ l]) auto
  qed
next
  case (RunIpcTask c ok)
  then show ?thesis using assms
    by (intro order_same0 [OF assms(3)])
      (auto simp: ipc_step_def run_sync_task_def sync_ipc_defs sync_updates Let_def split: sync_splits)
qed (use assms(1) in \<open>(intro order_same0 [OF assms(3)], auto simp: ipc_step_def sync_ipc_defs sync_updates split: if_splits)+\<close>)

lemma order_continues:
  assumes "ipc_continues ser s = Some s'" "order_ok P s"
  shows "order_ok P s'"
proof (cases "position s")
  case (Replying i)
  show ?thesis
  proof (cases "i < length (received_replies s)")
    case True
    obtain c m where cm: "received_replies s ! i = (c, m)" by fastforce
    with assms Replying True obtain r s1 where s1: "TryToUnblockListener ser m c s = Some (r, s1)"
      by (auto simp: ipc_continues_def DispatchReplies_round_def bind_eq_Some_conv)
    obtain ds where "s1 = s\<lparr>deserializers := ds\<rparr>" by (rule unblock_same [OF s1])
    then show ?thesis using assms(1) Replying True cm s1
      by (intro order_same0 [OF assms(2)]) (cases r; auto simp: ipc_continues_def DispatchReplies_round_def)+
  qed (use assms(1) Replying in \<open>intro order_same0 [OF assms(2)], auto simp: ipc_continues_def DispatchReplies_round_def\<close>)
next
  case (Queueing c m)
  then show ?thesis using assms by (auto simp: ipc_continues_def queue_lock_def record_note_def order_ok_def)
qed (use assms(1) in \<open>(intro order_same0 [OF assms(2)], auto simp: ipc_continues_def sync_ipc_defs sync_updates)+\<close>)

lemma order_frame:
  assumes "frame_step e s = Some s'" "order_ok P s" "\<And>c. e = CallCloseOf c \<Longrightarrow> \<not> P c"
  shows "order_ok P s'"
  using assms(1)
proof (cases rule: frame_cases)
  case (send c m t fs)
  from send(3) show ?thesis
  proof (cases rule: send_effect)
    case (sync i d m1)
    then show ?thesis
      by (intro order_same [OF assms(2), of _ "[Sent c i]"]) (simp_all add: Push_def sync_updates)
  qed (auto intro!: order_same0 [OF assms(2)] simp: sync_updates)
next
  case (close c fs)
  have n: "\<not> P c" using assms(3) close(1) .
  have "filter (\<lambda>(c, m). P c) (filter (\<lambda>(context, m). context \<noteq> c) q) = filter (\<lambda>(c, m). P c) q" for q :: "('a \<times> message) list"
    using n by (induction q) auto
  moreover from close(3) have "sync_log s' = sync_log s" "message_queue s' = filter (\<lambda>(context, m). context \<noteq> c) (message_queue s)"
    by (auto simp: CancelPendingSends_def RemoveContext_def sync_updates)
  ultimately show ?thesis using assms(2) by (simp add: order_ok_def)
next
  case (return_handler fs)
  then show ?thesis by (intro order_same0 [OF assms(2)]) (simp_all add: pop_frame_def)
next
  case (drain fs)
  show ?thesis
  proof (cases "message_queue s")
    case Nil
    then show ?thesis using drain(3) by (intro order_same0 [OF assms(2)]) (simp_all add: DispatchMessages_round_def pop_frame_def)
  next
    case (Cons cm q)
    obtain c m where "cm = (c, m)" by fastforce
    with Cons obtain ps fs' where "s' = s\<lparr>proxies := ps, message_queue := q, stack := fs' @ stack s,
      sync_log := sync_log s @ [Dispatched c m]\<rparr>" using drain(3) by (auto elim: drain_effect)
    then show ?thesis using assms(2) Cons \<open>cm = (c, m)\<close> by (simp add: order_ok_def)
  qed
next
  case (post c i m t fs)
  show ?thesis by (rule post_effect [OF post(3,2)]) (auto intro!: order_same0 [OF assms(2)])
next
  case (wait c i p n fs)
  from wait(3,2) show ?thesis by (cases rule: wait_cases) (auto intro!: order_same0 [OF assms(2)])
next
  case (finish c i fs)
  then obtain r out where "sync_log s' = sync_log s @ [Returned c i r out]" "message_queue s' = message_queue s"
    by (auto simp: finish_send_def Pop_def sync_updates split: if_splits)
  then show ?thesis by (intro order_same [OF assms(2), of _ "[Returned c i r out]"]) simp_all
qed

lemma order_step:
  assumes "sync_step handles ser e s = Some s'" "order_ok P s" "\<And>c. e = CallCloseOf c \<Longrightarrow> \<not> P c"
  shows "order_ok P s'"
  using assms(1)
proof (cases rule: sync_step_cases)
  case shutdown
  then show ?thesis by (intro order_same0 [OF assms(2)]) simp_all
next
  case continues
  show ?thesis by (rule order_continues [OF continues(2) assms(2)])
next
  case ipc
  show ?thesis by (rule order_ipc [OF ipc(3,2) assms(2)])
next
  case loop
  from loop(3) show ?thesis by (cases rule: loop_cases) (auto intro!: order_same0 [OF assms(2)])
next
  case frame
  show ?thesis by (rule order_frame [OF frame assms(2,3)])
qed

text \<open>
  C28: in every interleaving, for any choice of channels that are not closed, the synchronous messages
  queued for them are dispatched in the order they were queued, each once: those dispatched followed by
  those still in the queue are those that were queued.
\<close>

theorem sync_messages_in_order:
  assumes "sync_run handles ser es (sync_initial n ps) = Some s" "\<forall>c. CallCloseOf c \<in> set es \<longrightarrow> \<not> P c"
  shows "filter (\<lambda>(c, m). P c) (queued_in (sync_log s)) =
    filter (\<lambda>(c, m). P c) (dispatched_in (sync_log s)) @ filter (\<lambda>(c, m). P c) (message_queue s)"
proof -
  have "order_ok P s"
    by (rule sync.run_invariant_of [OF _ assms(1)])
      (use assms(2) order_step in \<open>fastforce\<close>, simp add: order_ok_def sync_initial_def)
  then show ?thesis by (simp add: order_ok_def)
qed

end
