(* ===== verification/SyncRuns.thy ===== *)
theory SyncRuns imports SyncQueue begin

text \<open>
  Runs of two channels of one listener thread: a send that is answered, a send in a send whose replies
  come in the wrong order, and the run in which a nested send does not see a queued message.
\<close>

section \<open>Messages\<close>

definition wire_message :: "u8 \<Rightarrow> u8 \<Rightarrow> message" where
  "wire_message f i = \<lparr>hdr = 4096, hdr_mem = [4,0,0,0, 1,0,0,0, 2,0,0,0, f,0,0,0, 0,0,0,0, i,0,0,0], hdr_size = 20,
     capacity = kCapacityReadOnly, variable_buffer_offset = 0, fd_set = None\<rparr>"

definition request :: "u8 \<Rightarrow> message" where "request i = wire_message 0x25 i"
definition reply_to :: "u8 \<Rightarrow> message" where "reply_to i = wire_message 0x09 i"

lemma request_facts [simp]:
  "is_sync (request 7) = Some True" "is_sync (request 8) = Some True"
  "GetMessageId (request 7) = Some 7" "GetMessageId (request 8) = Some 8"
  "should_unblock (request 20) = Some True" "should_unblock (request 21) = Some True"
  "IsMessageReplyTo (request 20) i = Some False" "IsMessageReplyTo (request 21) i = Some False"
  "is_reply (request 20) = Some False" "is_reply (request 21) = Some False"
proof -
  show r: "is_reply (request 20) = Some False" "is_reply (request 21) = Some False" by code_simp+
  then show "IsMessageReplyTo (request 20) i = Some False" "IsMessageReplyTo (request 21) i = Some False"
    by (simp_all add: IsMessageReplyTo_def)
qed code_simp+

lemma reply_facts [simp]:
  "is_reply (reply_to 7) = Some True" "is_reply (reply_to 8) = Some True"
  "is_reply_error (reply_to 7) = Some False" "is_reply_error (reply_to 8) = Some False"
  "should_unblock (reply_to 7) = Some False" "should_unblock (reply_to 8) = Some False"
  "GetMessageId (reply_to 7) = Some 7" "GetMessageId (reply_to 8) = Some 8"
  by code_simp+

lemma reply_match [simp]:
  "IsMessageReplyTo (reply_to 7) i = Some (i = 7)" "IsMessageReplyTo (reply_to 8) i = Some (i = 8)"
  by (auto simp: IsMessageReplyTo_def)

definition sync_request :: "u8 \<Rightarrow> unit sync_message" where
  "sync_request i = \<lparr>base = request i, deserializer = Some (), pump_messages_event = None\<rparr>"

lemma sync_request_simps [simp]: "base (sync_request i) = request i"
    "deserializer (sync_request i) = Some ()"
    "pump_messages_event (sync_request i) = None"
  by (simp_all add: sync_request_def)

section \<open>Runs\<close>

abbreviation reads_all :: "unit \<Rightarrow> message \<Rightarrow> bool" where
  "reads_all d m \<equiv> True"

definition start :: "(nat, nat, unit) sync_state" where
  "start = sync_initial 1 (\<lambda>c. sample_proxy)"

text \<open>A send that is answered.\<close>

definition one_send :: "(nat, unit) sync_event list" where
  "one_send = [RunOtherTask, CallSyncSend 0 (sync_request 7) False, PostSend, Arrive 0 (reply_to 7), WaitReturns 1, FinishSend]"

text \<open>
  A send during which the peer calls back; the handler sends as well, and the reply to the first
  message comes before the reply to the second.
\<close>

definition queue_steps :: "u8 \<Rightarrow> (nat, unit) sync_event list" where
  "queue_steps i = [Arrive 0 (request i), IpcContinues, IpcContinues]"

definition nested_send :: "(nat, unit) sync_event list" where
  "nested_send = [RunOtherTask, CallSyncSend 0 (sync_request 7) False, PostSend] @ queue_steps 20 @
     [IpcContinues, WaitReturns 0, Drain, CallSyncSend 0 (sync_request 8) False, PostSend, Arrive 0 (reply_to 7),
      IpcContinues, Arrive 0 (reply_to 8), WaitReturns 1, FinishSend, RunDispatchReplies, IpcContinues]"

text \<open>Two calls of the peer are queued before the first is dispatched, and its handler sends.\<close>

definition missed_message :: "(nat, unit) sync_event list" where
  "missed_message = [RunOtherTask, CallSyncSend 0 (sync_request 7) False, PostSend] @ queue_steps 20 @
     [IpcContinues] @ queue_steps 21 @ [WaitReturns 0, Drain, CallSyncSend 0 (sync_request 8) False, PostSend]"

lemmas sync_run_simps = sync_step_def ipc_step_def ipc_continues_def loop_step_def frame_step_def at_loop_def
  is_ipc_event_def is_loop_event_def sync_ipc_defs sync_listener_defs sync_updates Sync_OnMessageReceived_def
  TryToUnblockListener_def take_reply_def DispatchReplies_round_def TryFilters_def call_def Proxy_Send_def
  post_to_ipc_def is_signaled_def signal_def OnDispatchMessage_def OnDispatchConnected_def Let_def
  pending_ids_def polite_def polite_note_def

lemma one_send_runs: "\<exists>s. sync_run takes_nothing reads_all one_send start = Some s \<and>
    Returned 0 7 True (Some (reply_to 7)) \<in> set (sync_log s)"
  by (simp add: one_send_def start_def sync_initial_def sample_proxy_def sync_run_simps)

lemma nested_send_runs: "\<exists>s. sync_run takes_nothing reads_all nested_send start = Some s \<and> position s = Idle \<and>
    reply_tasks s = 0 \<and> polite (sync_log s) \<and> pending_ids s 0 = [7] \<and> Arrived 0 (reply_to 7) \<in> set (sync_log s)"
  by (simp add: nested_send_def queue_steps_def start_def sync_initial_def sample_proxy_def sync_run_simps)

lemma missed_message_runs: "\<exists>s. sync_run takes_nothing reads_all missed_message start = Some s \<and>
    stack s = [Waiting 0 8 False, Handler, Draining, Waiting 0 7 False, Handler] \<and>
    message_queue s = [(0, request 21)] \<and> \<not> dispatch_event s \<and> position s = Idle \<and> \<not> is_signaled (0, 1) s \<and>
    dispatch_tasks s = 1 \<and> pending_ids s 0 = [7, 8]"
  by (simp add: missed_message_def queue_steps_def start_def sync_initial_def sample_proxy_def sync_run_simps)

section \<open>The properties on these runs\<close>

theorem sends_follow_the_stack_witness:
  "\<exists>s. sync_run takes_nothing reads_all missed_message start = Some s \<and>
    stack s = [Waiting 0 8 False, Handler, Draining, Waiting 0 7 False, Handler] \<and>
    (\<exists>k. GetSendDoneEvent 0 s = Some (0, k) \<and> pending_id (deserializers s 0 ! k) = 8)"
proof -
  obtain s where s: "sync_run takes_nothing reads_all missed_message start = Some s"
    "stack s = [Waiting 0 8 False, Handler, Draining, Waiting 0 7 False, Handler]"
    using missed_message_runs by blast
  from sends_follow_the_stack [OF s(1) [unfolded start_def]] s show ?thesis by blast
qed

theorem send_returns_own_reply_witness:
  "\<exists>s m. sync_run takes_nothing reads_all one_send start = Some s \<and> Some (reply_to 7) = Some m \<and>
    Arrived 0 m \<in> set (sync_log s) \<and> IsMessageReplyTo m 7 = Some True"
proof -
  obtain s where s: "sync_run takes_nothing reads_all one_send start = Some s"
    "Returned 0 7 True (Some (reply_to 7)) \<in> set (sync_log s)"
    using one_send_runs by blast
  from send_returns_own_reply [OF s(1) [unfolded start_def] s(2)] s(1) show ?thesis by blast
qed

theorem no_reply_left_behind_witness:
  "\<exists>s. sync_run takes_nothing reads_all nested_send start = Some s \<and> done_event (last (deserializers s 0))"
proof -
  obtain s where s: "sync_run takes_nothing reads_all nested_send start = Some s" "position s = Idle"
    "reply_tasks s = 0" "polite (sync_log s)" "pending_ids s 0 = [7]" "Arrived 0 (reply_to 7) \<in> set (sync_log s)"
    using nested_send_runs by blast
  from s(5) obtain p where "deserializers s 0 = [p]" "pending_id p = 7" by (auto simp: pending_ids_def)
  with no_reply_left_behind [OF s(1) [unfolded start_def] s(4,2,3) _ s(6)] s(1) show ?thesis by simp
qed


theorem sync_messages_in_order_witness:
  "\<exists>s. sync_run takes_nothing reads_all missed_message start = Some s \<and>
    filter (\<lambda>(c, m). True) (queued_in (sync_log s)) =
      filter (\<lambda>(c, m). True) (dispatched_in (sync_log s)) @ filter (\<lambda>(c, m). True) (message_queue s)"
proof -
  obtain s where s: "sync_run takes_nothing reads_all missed_message start = Some s"
    using missed_message_runs by blast
  have "\<forall>c. CallCloseOf c \<in> set missed_message \<longrightarrow> \<not> True" by (simp add: missed_message_def queue_steps_def)
  from sync_messages_in_order [OF s(1) [unfolded start_def] this] s show ?thesis by blast
qed

text \<open>
  C29: a call of the peer can be missed: when the handler of one queued call sends, the new wait finds the
  event that announces queued calls reset, although another call is in the queue. The listener thread
  can do nothing, whatever is queued for it, until the IPC thread moves; if the reply it waits for
  depends on the queued call, both processes wait for ever.
\<close>

theorem nested_send_misses_queued_message:
  "\<exists>s. sync_run takes_nothing reads_all missed_message start = Some s \<and>
    hd (stack s) = Waiting 0 8 False \<and> message_queue s = [(0, request 21)] \<and> dispatch_tasks s = 1 \<and>
    (\<forall>e. is_ipc_event e \<or> e = Shutdown \<or> sync_step takes_nothing reads_all e s = None)"
proof -
  obtain s where s: "sync_run takes_nothing reads_all missed_message start = Some s"
    "stack s = [Waiting 0 8 False, Handler, Draining, Waiting 0 7 False, Handler]"
    "message_queue s = [(0, request 21)]" "\<not> dispatch_event s" "position s = Idle" "\<not> is_signaled (0, 1) s"
    "dispatch_tasks s = 1" "pending_ids s 0 = [7, 8]"
    using missed_message_runs by blast
  have "length (deserializers s 0) = 2" using arg_cong [OF s(8), of length] by (simp add: pending_ids_def)
  then have "GetSendDoneEvent 0 s = Some (0, 1)" by (auto simp: GetSendDoneEvent_def)
  then have w: "WaitForReply n 0 8 False s = None" for n using s(4,6) by (simp add: WaitForReply_def)
  have "is_ipc_event e \<or> e = Shutdown \<or> sync_step takes_nothing reads_all e s = None" for e
    using s(2,5) w by (cases e) (auto simp: sync_step_def is_ipc_event_def is_loop_event_def at_loop_def
      frame_step_def ipc_continues_def)
  then show ?thesis using s by auto
qed

end
