(* ===== verification/SyncFilterProps.thy ===== *)
theory SyncFilterProps imports SyncFilter SyncRuns begin

text \<open>
  Properties of blocking sends through the filter, in every interleaving of the senders with the IO thread:
  a send that succeeds was answered by a reply to its own id, and none is left waiting when the channel
  has gone.
\<close>

section \<open>The pending messages\<close>

definition registered :: "'d filter_stage option \<Rightarrow> bool" where
  "registered st \<longleftrightarrow> (case st of Some (Registered m) \<Rightarrow> True | Some Awaiting \<Rightarrow> True | Some Woken \<Rightarrow> True | _ \<Rightarrow> False)"

lemma registered_simps [simp]:
  "\<not> registered None" "\<not> registered (Some (Entered i d m))" "registered (Some (Registered m))"
  "registered (Some Awaiting)" "registered (Some Woken)"
  by (simp_all add: registered_def)

definition stage_ok :: "'d filter_stage option \<Rightarrow> bool" where
  "stage_ok st \<longleftrightarrow> (case st of Some (Entered i d m) \<Rightarrow> is_sync m = Some True | Some (Registered m) \<Rightarrow> is_sync m = Some True
     | _ \<Rightarrow> True)"

lemma stage_ok_simps [simp]:
  "stage_ok None" "stage_ok (Some (Entered i d m)) = (is_sync m = Some True)"
  "stage_ok (Some (Registered m)) = (is_sync m = Some True)" "stage_ok (Some Awaiting)" "stage_ok (Some Woken)"
  by (simp_all add: stage_ok_def)

definition filter_ok :: "'d filter_state \<Rightarrow> bool" where
  "filter_ok s \<longleftrightarrow> distinct (map fst (pending_sync_messages s)) \<and>
     (\<forall>a. (a \<in> fst ` set (pending_sync_messages s)) = registered (in_send s a) \<and> stage_ok (in_send s a))"

definition answered :: "u32 \<Rightarrow> message option \<Rightarrow> filter_note list \<Rightarrow> bool" where
  "answered i out l \<longleftrightarrow> (\<exists>m. out = Some m \<and> ReplyArrived m \<in> set l \<and> IsMessageReplyTo m i = Some True)"

definition replies_ok :: "'d filter_state \<Rightarrow> bool" where
  "replies_ok s \<longleftrightarrow>
     (\<forall>a p. (a, p) \<in> set (pending_sync_messages s) \<longrightarrow> send_result p \<longrightarrow> answered (pending_id p) (reply_output p) (filter_log s)) \<and>
     (\<forall>a i out. SendReturned a i True out \<in> set (filter_log s) \<longrightarrow> answered i out (filter_log s))"

text \<open>Without a channel, a message whose sender is not signalled is still on its way to the IO thread.\<close>

definition unsignalled :: "'d filter_state \<Rightarrow> nat \<Rightarrow> 'd pending \<Rightarrow> bool" where
  "unsignalled s a p \<longleftrightarrow> (a, p) \<in> set (pending_sync_messages s) \<and> \<not> done_event p \<and> (\<forall>m. in_send s a \<noteq> Some (Registered m))"

definition wakes_ok :: "'d filter_state \<Rightarrow> bool" where
  "wakes_ok s \<longleftrightarrow> filter_channel s \<or> (\<exists>m \<in> set (io_queue s). is_sync m = Some True) \<or> (\<forall>a p. \<not> unsignalled s a p)"

lemma answered_append: "answered i out l \<Longrightarrow> answered i out (l @ l')"
  by (auto simp: answered_def)

text \<open>What a reply does to the pending messages.\<close>

lemma answer_first_keys: "answer_first ser m ps = Some (taken, qs) \<Longrightarrow> map fst qs = map fst ps"
  by (induction ps arbitrary: taken qs rule: list.induct) (auto simp: bind_eq_Some_conv split: if_splits)

lemma take_reply_id: "take_reply ser m p = Some q \<Longrightarrow> pending_id q = pending_id p \<and> done_event q = done_event p \<and>
    (send_result q \<longrightarrow> send_result p \<and> reply_output q = reply_output p \<or> reply_output q = Some m)"
  by (auto simp: take_reply_def bind_eq_Some_conv split: if_splits)

lemma answer_first_parts:
  assumes "answer_first ser m ps = Some (taken, qs)" "(a, q) \<in> set qs"
  shows "\<exists>p. (a, p) \<in> set ps \<and> pending_id q = pending_id p \<and> (done_event p \<longrightarrow> done_event q) \<and>
    (q = p \<or> IsMessageReplyTo m (pending_id p) = Some True \<and> done_event q \<and>
      (send_result q \<longrightarrow> send_result p \<and> reply_output q = reply_output p \<or> reply_output q = Some m))"
  using assms
proof (induction ps arbitrary: taken qs)
  case (Cons x ps)
  obtain b p where x: "x = (b, p)" by (cases x)
  from Cons.prems(1) obtain r where r: "IsMessageReplyTo m (pending_id p) = Some r" by (auto simp: x bind_eq_Some_conv)
  show ?case
  proof (cases r)
    case True
    with Cons.prems(1) r obtain p' where p': "take_reply ser m p = Some p'" "qs = (b, signal p') # ps"
      by (auto simp: x bind_eq_Some_conv)
    from Cons.prems(2) p'(2) consider "(a, q) = (b, signal p')" | "(a, q) \<in> set ps" by auto
    then show ?thesis
    proof cases
      case 1
      with take_reply_id [OF p'(1)] r True show ?thesis by (auto simp: x signal_def intro!: exI [of _ p])
    next
      case 2
      then show ?thesis by auto
    qed
  next
    case False
    with Cons.prems(1) r obtain rs where rs: "answer_first ser m ps = Some (taken, rs)" "qs = (b, p) # rs"
      by (auto simp: x bind_eq_Some_conv)
    with Cons.IH [OF rs(1)] Cons.prems(2) show ?thesis by (auto simp: x)
  qed
qed simp

lemmas filter_defs = Filter_Send_def insert_pending_def post_send_def wait_many_def erase_pending_def at_stage_def
  SendOnIOThread_def Filter_OnFilterAdded_def Filter_OnChannelError_def Filter_OnChannelClosing_def SignalAllEvents_def
  Filter_OnMessageReceived_def new_pending_def

lemmas filter_splits = if_splits option.splits list.splits prod.splits filter_stage.splits

lemma key_map_signal [simp]: "map fst (map (apsnd f) ps) = map fst ps" "fst ` apsnd f ` A = fst ` A"
  by (simp_all add: image_image)

lemma insort_keys:
  "set (insort_key fst x xs) = insert x (set xs)"
  "distinct (map fst (insort_key fst x xs)) \<longleftrightarrow> fst x \<notin> fst ` set xs \<and> distinct (map fst xs)"
  by (induction xs) (auto simp: set_insort_key)

lemma Filter_Send_cases:
  assumes "Filter_Send a m s = Some s'"
  obtains (same) "s' = s"
  | (plain) "is_sync (base m) = Some False" "s' = s\<lparr>io_queue := io_queue s @ [base m]\<rparr>"
  | (sync) i where "in_send s a = None" "is_sync (base m) = Some True"
      "s' = at_stage a (Some (Entered i (deserializer m) (base m))) s"
proof (cases "in_send s a = None \<and> filter_io_loop s")
  case True
  with assms obtain b where b: "is_sync (base m) = Some b" by (auto simp: Filter_Send_def bind_eq_Some_conv)
  with assms True show thesis
    by (cases b) (auto simp: Filter_Send_def bind_eq_Some_conv GetReplyDeserializer_def intro: plain sync)
next
  case False
  with assms have "s' = s" by (auto simp: Filter_Send_def split: if_splits)
  then show thesis by (rule same)
qed

lemma erase_pending_Some:
  "erase_pending a s = Some s' \<Longrightarrow> \<exists>p. in_send s a = Some Woken \<and> map_of (pending_sync_messages s) a = Some p \<and>
    s' = at_stage a None (s\<lparr>pending_sync_messages := filter (\<lambda>q. fst q \<noteq> a) (pending_sync_messages s),
       filter_log := filter_log s @ [SendReturned a (pending_id p) (send_result p) (reply_output p)]\<rparr>)"
  by (auto simp: erase_pending_def split: option.splits filter_stage.splits)

lemma erase_step:
  "filter_step ser (FilterErase a) s = Some s' \<Longrightarrow> \<exists>p. in_send s a = Some Woken \<and> map_of (pending_sync_messages s) a = Some p \<and>
    s' = at_stage a None (s\<lparr>pending_sync_messages := filter (\<lambda>q. fst q \<noteq> a) (pending_sync_messages s),
       filter_log := filter_log s @ [SendReturned a (pending_id p) (send_result p) (reply_output p)]\<rparr>)"
  using erase_pending_Some by (simp add: filter_step_def)

lemma filter_ok_same:
  assumes "filter_ok s" "map fst (pending_sync_messages s') = map fst (pending_sync_messages s)" "in_send s' = in_send s"
  shows "filter_ok s'"
proof -
  have "fst ` set (pending_sync_messages s') = fst ` set (pending_sync_messages s)" using assms(2) by (metis list.set_map)
  then show ?thesis using assms(1) unfolding filter_ok_def assms(2,3) by simp
qed

lemma filter_ok_move:
  assumes "filter_ok s" "pending_sync_messages s' = pending_sync_messages s" "in_send s' = (in_send s)(a := st)"
    "registered st = registered (in_send s a)" "stage_ok st"
  shows "filter_ok s'"
  unfolding filter_ok_def assms(2,3)
proof (intro conjI allI)
  fix b
  show "(b \<in> fst ` set (pending_sync_messages s)) = registered (((in_send s)(a := st)) b)"
    "stage_ok (((in_send s)(a := st)) b)"
    using assms(1,4,5) by (cases "b = a"; simp add: filter_ok_def)+
qed (use assms(1) in \<open>simp add: filter_ok_def\<close>)

lemma filter_ok_step:
  assumes "filter_step ser e s = Some s'" "filter_ok s"
  shows "filter_ok s'"
proof (cases e)
  case (FilterInsert a)
  with assms obtain i d m where st: "in_send s a = Some (Entered i d m)"
    "s' = at_stage a (Some (Registered m)) (s\<lparr>pending_sync_messages := insort_key fst (a, new_pending i d) (pending_sync_messages s)\<rparr>)"
    by (auto simp: filter_step_def insert_pending_def split: filter_splits)
  moreover from st(1) assms(2) have "a \<notin> fst ` set (pending_sync_messages s)" "is_sync m = Some True"
    unfolding filter_ok_def by (metis registered_simps(2), metis stage_ok_simps(2))
  ultimately show ?thesis using assms(2)
    by (auto simp: filter_ok_def at_stage_def insort_keys)
next
  case (FilterReceives m)
  with assms(1) obtain taken qs where qs: "answer_first ser m (pending_sync_messages s) = Some (taken, qs)"
    "s' = s\<lparr>pending_sync_messages := qs, filter_log := filter_log s @ [ReplyArrived m]\<rparr>"
    by (auto simp: filter_step_def Filter_OnMessageReceived_def bind_eq_Some_conv)
  then show ?thesis by (intro filter_ok_same [OF assms(2)]) (simp_all add: answer_first_keys [OF qs(1)])
next
  case RunIoSend
  with assms(1) obtain m ms where "io_queue s = m # ms" "SendOnIOThread m (s\<lparr>io_queue := ms\<rparr>) = Some s'"
    by (auto simp: filter_step_def split: list.splits)
  then consider "s' = s\<lparr>io_queue := ms, filter_log := filter_log s @ [HandedOver m]\<rparr>" | "s' = s\<lparr>io_queue := ms\<rparr>"
    | "s' = SignalAllEvents (s\<lparr>io_queue := ms\<rparr>)" by (auto simp: SendOnIOThread_def bind_eq_Some_conv split: if_splits)
  then show ?thesis by cases (rule filter_ok_same [OF assms(2)]; simp add: SignalAllEvents_def)+
next
  case (FilterSend a m)
  with assms(1) have "Filter_Send a m s = Some s'" by (simp add: filter_step_def)
  then show ?thesis
  proof (cases rule: Filter_Send_cases)
    case (sync i)
    then show ?thesis
      by (intro filter_ok_move [OF assms(2), of _ a "Some (Entered i (deserializer m) (base m))"]) (simp_all add: at_stage_def)
  qed (use assms(2) in \<open>simp_all add: filter_ok_def\<close>)
next
  case (FilterPost a)
  with assms(1) obtain m where "in_send s a = Some (Registered m)" "s' = at_stage a (Some Awaiting) (s\<lparr>io_queue := io_queue s @ [m]\<rparr>)"
    by (auto simp: filter_step_def post_send_def split: filter_splits)
  then show ?thesis by (intro filter_ok_move [OF assms(2), of _ a "Some Awaiting"]) (simp_all add: at_stage_def)
next
  case (FilterWait a)
  with assms(1) have "in_send s a = Some Awaiting" "s' = at_stage a (Some Woken) s"
    by (auto simp: filter_step_def wait_many_def split: filter_splits)
  then show ?thesis by (intro filter_ok_move [OF assms(2), of _ a "Some Woken"]) (simp_all add: at_stage_def)
next
  case (FilterErase a)
  from erase_step [OF assms(1) [unfolded FilterErase]] obtain p where p: "in_send s a = Some Woken"
    "map_of (pending_sync_messages s) a = Some p" "s' = at_stage a None (s\<lparr>pending_sync_messages := filter (\<lambda>q. fst q \<noteq> a) (pending_sync_messages s),
       filter_log := filter_log s @ [SendReturned a (pending_id p) (send_result p) (reply_output p)]\<rparr>)"
    by (elim exE conjE)
  have "fst ` {x \<in> set (pending_sync_messages s). fst x \<noteq> a} = fst ` set (pending_sync_messages s) - {a}" by auto
  with assms(2) p show ?thesis
    by (simp add: filter_ok_def at_stage_def distinct_map_filter)
next
  case ShutDown
  with assms(1) have "s' = s\<lparr>filter_shutdown := True\<rparr>" by (simp add: filter_step_def)
  then show ?thesis by (intro filter_ok_same [OF assms(2)]) simp_all
next
  case AddedToChannel
  with assms(1) have "s' = Filter_OnFilterAdded s" by (simp add: filter_step_def)
  then show ?thesis by (intro filter_ok_same [OF assms(2)]) (simp_all add: Filter_OnFilterAdded_def)
next
  case ChannelBroken
  with assms(1) have "s' = Filter_OnChannelError s" by (simp add: filter_step_def)
  then show ?thesis by (intro filter_ok_same [OF assms(2)]) (simp_all add: Filter_OnChannelError_def SignalAllEvents_def)
next
  case ChannelClosing
  with assms(1) have "s' = Filter_OnChannelClosing s" by (simp add: filter_step_def)
  then show ?thesis by (intro filter_ok_same [OF assms(2)]) (simp_all add: Filter_OnChannelClosing_def SignalAllEvents_def)
qed

lemma replies_keep:
  assumes "replies_ok s" "filter_log s' = filter_log s @ l" "\<And>a i out. SendReturned a i True out \<notin> set l"
    "\<And>a q. (a, q) \<in> set (pending_sync_messages s') \<Longrightarrow> send_result q \<Longrightarrow> \<exists>p. (a, p) \<in> set (pending_sync_messages s) \<and>
      send_result p \<and> pending_id q = pending_id p \<and> reply_output q = reply_output p"
  shows "replies_ok s'"
proof -
  have "answered (pending_id q) (reply_output q) (filter_log s')"
    if q: "(a, q) \<in> set (pending_sync_messages s')" "send_result q" for a q
  proof -
    from assms(4) [OF q] obtain p where p: "(a, p) \<in> set (pending_sync_messages s)" "send_result p"
      "pending_id q = pending_id p" "reply_output q = reply_output p" by blast
    with assms(1) have "answered (pending_id p) (reply_output p) (filter_log s)" by (auto simp: replies_ok_def)
    then show ?thesis by (simp add: p(3,4) assms(2) answered_append)
  qed
  moreover have "answered i out (filter_log s')" if "SendReturned a i True out \<in> set (filter_log s')" for a i out
    using that assms(1,3) by (auto simp: replies_ok_def assms(2) intro: answered_append)
  ultimately show ?thesis by (auto simp: replies_ok_def)
qed

lemma replies_ok_step:
  assumes "filter_step ser e s = Some s'" "replies_ok s"
  shows "replies_ok s'"
proof (cases e)
  case (FilterReceives m)
  with assms(1) obtain taken qs where qs: "answer_first ser m (pending_sync_messages s) = Some (taken, qs)"
    "s' = s\<lparr>pending_sync_messages := qs, filter_log := filter_log s @ [ReplyArrived m]\<rparr>"
    by (auto simp: filter_step_def Filter_OnMessageReceived_def bind_eq_Some_conv)
  have "answered (pending_id q) (reply_output q) (filter_log s @ [ReplyArrived m])"
    if q: "(a, q) \<in> set qs" "send_result q" for a q
  proof -
    from answer_first_parts [OF qs(1) q(1)] obtain p where p: "(a, p) \<in> set (pending_sync_messages s)" "pending_id q = pending_id p"
      "q = p \<or> IsMessageReplyTo m (pending_id p) = Some True \<and>
        (send_result q \<longrightarrow> send_result p \<and> reply_output q = reply_output p \<or> reply_output q = Some m)" by blast
    then consider "send_result p" "reply_output q = reply_output p"
      | "reply_output q = Some m" "IsMessageReplyTo m (pending_id p) = Some True" using q(2) by blast
    then show ?thesis
    proof cases
      case 1
      with assms(2) p(1,2) show ?thesis by (auto simp: replies_ok_def intro: answered_append)
    qed (simp add: answered_def p(2))
  qed
  with assms(2) show ?thesis by (auto simp: replies_ok_def qs(2) intro: answered_append)
next
  case (FilterErase a)
  from erase_step [OF assms(1) [unfolded FilterErase]] obtain p where w: "in_send s a = Some Woken" and p: "map_of (pending_sync_messages s) a = Some p"
    "s' = at_stage a None (s\<lparr>pending_sync_messages := filter (\<lambda>q. fst q \<noteq> a) (pending_sync_messages s),
       filter_log := filter_log s @ [SendReturned a (pending_id p) (send_result p) (reply_output p)]\<rparr>)"
    by (elim exE conjE)
  from map_of_SomeD [OF p(1)] assms(2) have "send_result p \<longrightarrow> answered (pending_id p) (reply_output p) (filter_log s)"
    by (auto simp: replies_ok_def)
  with assms(2) show ?thesis by (auto simp: replies_ok_def p(2) at_stage_def intro: answered_append)
next
  case (FilterInsert a)
  with assms(1) obtain i d m where "in_send s a = Some (Entered i d m)"
    "s' = at_stage a (Some (Registered m)) (s\<lparr>pending_sync_messages := insort_key fst (a, new_pending i d) (pending_sync_messages s)\<rparr>)"
    by (auto simp: filter_step_def insert_pending_def split: filter_splits)
  then show ?thesis
    by (intro replies_keep [OF assms(2), of _ "[]"]) (auto simp: at_stage_def insort_keys new_pending_def)
next
  case RunIoSend
  with assms(1) obtain m ms where "io_queue s = m # ms" "SendOnIOThread m (s\<lparr>io_queue := ms\<rparr>) = Some s'"
    by (auto simp: filter_step_def split: list.splits)
  then consider "s' = s\<lparr>io_queue := ms, filter_log := filter_log s @ [HandedOver m]\<rparr>" | "s' = s\<lparr>io_queue := ms\<rparr>"
    | "s' = SignalAllEvents (s\<lparr>io_queue := ms\<rparr>)" by (auto simp: SendOnIOThread_def bind_eq_Some_conv split: if_splits)
  then show ?thesis
    by cases (rule replies_keep [OF assms(2), of _ "[HandedOver m]"] replies_keep [OF assms(2), of _ "[]"],
      auto simp: SignalAllEvents_def signal_def)+
next
  case ChannelBroken
  with assms(1) show ?thesis
    by (intro replies_keep [OF assms(2), of _ "[]"]) (force simp: filter_step_def Filter_OnChannelError_def SignalAllEvents_def signal_def)+
next
  case ChannelClosing
  with assms(1) show ?thesis
    by (intro replies_keep [OF assms(2), of _ "[]"]) (force simp: filter_step_def Filter_OnChannelClosing_def SignalAllEvents_def signal_def)+
next
  case (FilterSend a m)
  with assms(1) have "Filter_Send a m s = Some s'" by (simp add: filter_step_def)
  then show ?thesis
    by (cases rule: Filter_Send_cases) (intro replies_keep [OF assms(2), of _ "[]"]; auto simp: at_stage_def)+
next
  case (FilterPost a)
  with assms(1) show ?thesis
    by (intro replies_keep [OF assms(2), of _ "[]"]) (auto simp: filter_step_def post_send_def at_stage_def split: filter_splits)
next
  case (FilterWait a)
  with assms(1) show ?thesis
    by (intro replies_keep [OF assms(2), of _ "[]"]) (auto simp: filter_step_def wait_many_def at_stage_def split: filter_splits)
qed (use assms(1) in \<open>intro replies_keep [OF assms(2), of _ "[]"]; auto simp: filter_step_def Filter_OnFilterAdded_def\<close>)+

lemma wakes_keep:
  assumes "wakes_ok s" "filter_channel s' = filter_channel s" "set (io_queue s) \<subseteq> set (io_queue s')"
    "\<And>a p. unsignalled s' a p \<Longrightarrow> \<exists>q. unsignalled s a q"
  shows "wakes_ok s'"
  using assms unfolding wakes_ok_def by blast

lemma signalled_all: "\<not> unsignalled (SignalAllEvents s) a p"
  by (auto simp: unsignalled_def SignalAllEvents_def signal_def)

lemma wakes_ok_step:
  assumes "filter_step ser e s = Some s'" "wakes_ok s" "filter_ok s"
  shows "wakes_ok s'"
proof (cases e)
  case (FilterReceives m)
  with assms(1) obtain taken qs where qs: "answer_first ser m (pending_sync_messages s) = Some (taken, qs)"
    "s' = s\<lparr>pending_sync_messages := qs, filter_log := filter_log s @ [ReplyArrived m]\<rparr>"
    by (auto simp: filter_step_def Filter_OnMessageReceived_def bind_eq_Some_conv)
  show ?thesis
  proof (rule wakes_keep [OF assms(2)])
    fix a p
    assume p: "unsignalled s' a p"
    then have "(a, p) \<in> set qs" by (simp add: unsignalled_def qs(2))
    from answer_first_parts [OF qs(1) this] p show "\<exists>q. unsignalled s a q" by (auto simp: unsignalled_def qs(2))
  qed (simp_all add: qs(2))
next
  case RunIoSend
  with assms(1) obtain m ms where m: "io_queue s = m # ms" "SendOnIOThread m (s\<lparr>io_queue := ms\<rparr>) = Some s'"
    by (auto simp: filter_step_def split: list.splits)
  then consider "filter_channel s'" | "is_sync m = Some False" "s' = s\<lparr>io_queue := ms\<rparr>"
    | "s' = SignalAllEvents (s\<lparr>io_queue := ms\<rparr>)" by (auto simp: SendOnIOThread_def bind_eq_Some_conv split: if_splits)
  then show ?thesis
  proof cases
    case 2
    with assms(2) m(1) show ?thesis by (auto simp: wakes_ok_def unsignalled_def)
  qed (simp_all add: wakes_ok_def signalled_all)
next
  case (FilterPost a)
  with assms(1) obtain m where m: "in_send s a = Some (Registered m)" "s' = at_stage a (Some Awaiting) (s\<lparr>io_queue := io_queue s @ [m]\<rparr>)"
    by (auto simp: filter_step_def post_send_def split: filter_splits)
  have "is_sync m = Some True" using assms(3) m(1) unfolding filter_ok_def by (metis stage_ok_simps(3))
  then show ?thesis by (simp add: wakes_ok_def m(2) at_stage_def)
next
  case (FilterInsert a)
  with assms(1) obtain i d m where "in_send s a = Some (Entered i d m)"
    "s' = at_stage a (Some (Registered m)) (s\<lparr>pending_sync_messages := insort_key fst (a, new_pending i d) (pending_sync_messages s)\<rparr>)"
    by (auto simp: filter_step_def insert_pending_def split: filter_splits)
  then show ?thesis
    by (intro wakes_keep [OF assms(2)]) (auto simp: at_stage_def unsignalled_def insort_keys split: if_splits)
next
  case (FilterSend a m)
  with assms(1) have "Filter_Send a m s = Some s'" by (simp add: filter_step_def)
  then show ?thesis
  proof (cases rule: Filter_Send_cases)
    case (sync i)
    have "\<not> unsignalled s' a p" for p
      using assms(3) sync by (force simp: filter_ok_def unsignalled_def at_stage_def)
    with sync show ?thesis
      by (intro wakes_keep [OF assms(2)]) (auto simp: at_stage_def unsignalled_def split: if_splits)
  qed (intro wakes_keep [OF assms(2)]; auto simp: unsignalled_def)+
next
  case (FilterWait a)
  with assms(1) have "in_send s a = Some Awaiting" "s' = at_stage a (Some Woken) s"
    by (auto simp: filter_step_def wait_many_def split: filter_splits)
  then show ?thesis by (intro wakes_keep [OF assms(2)]) (auto simp: at_stage_def unsignalled_def split: if_splits)
next
  case (FilterErase a)
  with erase_step [of ser a s s'] assms(1) [unfolded FilterErase] show ?thesis
    by (intro wakes_keep [OF assms(2)]) (auto simp: filter_step_def at_stage_def unsignalled_def split: if_splits)
next
  case AddedToChannel
  with assms(1) show ?thesis by (auto simp: filter_step_def Filter_OnFilterAdded_def wakes_ok_def)
next
  case ShutDown
  with assms(1) show ?thesis by (intro wakes_keep [OF assms(2)]) (auto simp: filter_step_def unsignalled_def)
qed (use assms(1) in \<open>auto simp: filter_step_def Filter_OnChannelError_def Filter_OnChannelClosing_def wakes_ok_def signalled_all\<close>)

lemma filter_run_ok:
  assumes "filter_run ser es SyncMessageFilter_new = Some s"
  shows "filter_ok s" "replies_ok s" "wakes_ok s"
proof -
  have "filter_ok s \<and> replies_ok s \<and> wakes_ok s"
    by (rule filtered.run_invariant [of ser "\<lambda>s. filter_ok s \<and> replies_ok s \<and> wakes_ok s", OF _ assms])
      (blast intro: filter_ok_step replies_ok_step wakes_ok_step,
       simp add: filter_ok_def replies_ok_def wakes_ok_def unsignalled_def SyncMessageFilter_new_def)
  then show "filter_ok s" "replies_ok s" "wakes_ok s" by simp_all
qed

text \<open>
  C39: in every interleaving of the senders with the IO thread, a send through the filter that returns true
  was answered by a reply to its own id, whose contents it returns.
\<close>

theorem filter_send_returns_own_reply:
  assumes "filter_run ser es SyncMessageFilter_new = Some s" "SendReturned a i True out \<in> set (filter_log s)"
  shows "\<exists>m. out = Some m \<and> ReplyArrived m \<in> set (filter_log s) \<and> IsMessageReplyTo m i = Some True"
  using filter_run_ok(2) [OF assms(1)] assms(2) by (auto simp: replies_ok_def answered_def)

text \<open>
  C40: no sender is left waiting: when the channel has gone and the IO thread has no message left to send,
  the wait of every sender returns.
\<close>

theorem filter_send_wakes:
  assumes "filter_run ser es SyncMessageFilter_new = Some s" "in_send s a = Some Awaiting"
    and "\<not> filter_channel s \<and> io_queue s = []"
  shows "wait_many a s \<noteq> None"
proof -
  have "a \<in> fst ` set (pending_sync_messages s)" "distinct (map fst (pending_sync_messages s))"
    using filter_run_ok(1) [OF assms(1)] assms(2) by (simp_all add: filter_ok_def)
  then obtain p where p: "(a, p) \<in> set (pending_sync_messages s)" "map_of (pending_sync_messages s) a = Some p" by force
  with filter_run_ok(3) [OF assms(1)] assms(2,3) have "done_event p" by (force simp: wakes_ok_def unsignalled_def)
  with assms(2) p(2) show ?thesis by (simp add: wait_many_def)
qed

section \<open>Concrete runs\<close>

definition answered_run :: "unit filter_event list" where
  "answered_run = [AddedToChannel, FilterSend 5 (sync_request 7), FilterInsert 5, FilterSend 3 (sync_request 8), FilterInsert 3,
     FilterPost 5, RunIoSend, FilterPost 3, FilterReceives (reply_to 7), FilterWait 5, FilterErase 5]"

definition broken_run :: "unit filter_event list" where
  "broken_run = [AddedToChannel, FilterSend 5 (sync_request 7), FilterInsert 5, ChannelBroken, FilterPost 5, RunIoSend]"

lemma answered_run_ends:
  "\<exists>s. filter_run reads_all answered_run SyncMessageFilter_new = Some s \<and>
    SendReturned 5 7 True (Some (reply_to 7)) \<in> set (filter_log s)"
  by (simp add: answered_run_def filter_step_def filter_defs SyncMessageFilter_new_def GetReplyDeserializer_def take_reply_def signal_def)

lemma broken_run_ends:
  "\<exists>s. filter_run reads_all broken_run SyncMessageFilter_new = Some s \<and>
    in_send s 5 = Some Awaiting \<and> \<not> filter_channel s \<and> io_queue s = []"
  by (simp add: broken_run_def filter_step_def filter_defs SyncMessageFilter_new_def GetReplyDeserializer_def signal_def)

theorem filter_send_returns_own_reply_witness:
  "\<exists>s m. filter_run reads_all answered_run SyncMessageFilter_new = Some s \<and> reply_to 7 = m \<and> ReplyArrived m \<in> set (filter_log s)"
proof -
  obtain s where s: "filter_run reads_all answered_run SyncMessageFilter_new = Some s"
    "SendReturned 5 7 True (Some (reply_to 7)) \<in> set (filter_log s)" using answered_run_ends by blast
  from filter_send_returns_own_reply [OF s] s(1) show ?thesis by auto
qed

theorem filter_send_wakes_witness:
  "\<exists>s. filter_run reads_all broken_run SyncMessageFilter_new = Some s \<and> wait_many 5 s \<noteq> None"
proof -
  obtain s where s: "filter_run reads_all broken_run SyncMessageFilter_new = Some s"
    "in_send s 5 = Some Awaiting" "\<not> filter_channel s \<and> io_queue s = []" using broken_run_ends by blast
  from filter_send_wakes [OF s] s(1) show ?thesis by blast
qed

end
