(* ===== verification/FdShuffle.thy ===== *)
theory FdShuffle imports Prelude begin

text \<open>
  \<open>base/file_descriptor_shuffle.h\<close> and \<open>.cc\<close>: moving descriptors to their places in a new process, all
  at once. The delegate is a record of functions on a world; what it promises is the locale
  \<open>injection\<close>. The loops are written as they run, with the fixed array of sixteen temporary copies.
\<close>

section \<open>The algorithm\<close>

record arc =
  source :: int
  dest :: int
  close :: bool

record 'w delegate =
  Duplicate :: "int \<Rightarrow> 'w \<Rightarrow> int option \<times> 'w"
  Move :: "int \<Rightarrow> int \<Rightarrow> 'w \<Rightarrow> bool \<times> 'w"
  Delete :: "int \<Rightarrow> 'w \<Rightarrow> 'w"

definition kMaxExtraFDs :: nat where
  "kMaxExtraFDs = 16"

definition is_identity :: "arc \<Rightarrow> bool" where
  "is_identity i \<longleftrightarrow> source i = dest i"

text \<open>
  The part of the inner loop that saves what is about to be overwritten: the arc, the temporary
  descriptor (\<open>-1\<close> for none), the extra descriptors and the world, or the world in which it gave up.
\<close>

definition redirect :: "'w delegate \<Rightarrow> arc \<Rightarrow> arc \<Rightarrow> int \<Rightarrow> int list \<Rightarrow> 'w \<Rightarrow> 'w + arc \<times> int \<times> int list \<times> 'w" where
  "redirect D i j temp_fd extra_fds w =
     (if \<not> is_identity i \<and> dest i = source j then
        (if temp_fd = - 1 then
           (case Duplicate D (dest i) w of
              (None, w1) \<Rightarrow> Inl w1
            | (Some t, w1) \<Rightarrow> Inr (j\<lparr>source := t, close := False\<rparr>, t,
                if length extra_fds < kMaxExtraFDs then extra_fds @ [t] else extra_fds, w1))
         else Inr (j\<lparr>source := temp_fd, close := False\<rparr>, temp_fd, extra_fds, w))
      else Inr (j, temp_fd, extra_fds, w))"

text \<open>Who closes the source: not an arc whose source is a destination, and of two arcs the later.\<close>

definition pass_close :: "arc \<Rightarrow> arc \<Rightarrow> arc \<times> arc" where
  "pass_close i j =
     (let i1 = (if close i \<and> source i = dest j then i\<lparr>close := False\<rparr> else i) in
      if close i1 \<and> source i1 = source j then (i1\<lparr>close := False\<rparr>, j\<lparr>close := True\<rparr>) else (i1, j))"

fun inner :: "'w delegate \<Rightarrow> arc \<Rightarrow> arc list \<Rightarrow> int \<Rightarrow> int list \<Rightarrow> 'w \<Rightarrow> 'w + arc \<times> arc list \<times> int list \<times> 'w" where
  "inner D i [] temp_fd extra_fds w = Inr (i, [], extra_fds, w)"
| "inner D i (j # js) temp_fd extra_fds w = (case redirect D i j temp_fd extra_fds w of
     Inl w1 \<Rightarrow> Inl w1
   | Inr (j1, t, extra1, w1) \<Rightarrow> (case pass_close i j1 of (i2, j2) \<Rightarrow>
       (case inner D i2 js t extra1 w1 of
          Inl w2 \<Rightarrow> Inl w2
        | Inr (i3, js3, extra3, w3) \<Rightarrow> Inr (i3, j2 # js3, extra3, w3))))"

lemma inner_length: "inner D i js t ex w = Inr (i', js', ex', w') \<Longrightarrow> length js' = length js"
  by (induction js arbitrary: i t ex w i' js' ex' w') (auto split: sum.splits prod.splits)

definition move_arc :: "'w delegate \<Rightarrow> arc \<Rightarrow> 'w \<Rightarrow> bool \<times> 'w" where
  "move_arc D i w = (if is_identity i then (True, w)
     else (case Move D (source i) (dest i) w of
        (False, w1) \<Rightarrow> (False, w1)
      | (True, w1) \<Rightarrow> (True, if close i then Delete D (source i) w1 else w1)))"

function perform :: "'w delegate \<Rightarrow> arc list \<Rightarrow> int list \<Rightarrow> 'w \<Rightarrow> bool \<times> 'w" where
  "perform D [] extra_fds w = (True, fold (Delete D) extra_fds w)"
| "perform D (i # js) extra_fds w = (case inner D i js (- 1) extra_fds w of
     Inl w1 \<Rightarrow> (False, w1)
   | Inr (i1, js1, extra1, w1) \<Rightarrow> (case move_arc D i1 w1 of
        (False, w2) \<Rightarrow> (False, w2)
      | (True, w2) \<Rightarrow> perform D js1 extra1 w2))"
  by pat_completeness auto
termination by (relation "measure (\<lambda>(D, m, ex, w). length m)") (auto dest!: inner_length)

definition PerformInjectiveMultimapDestructive :: "'w delegate \<Rightarrow> arc list \<Rightarrow> 'w \<Rightarrow> bool \<times> 'w" where
  "PerformInjectiveMultimapDestructive D m w = perform D m [] w"

definition PerformInjectiveMultimap :: "'w delegate \<Rightarrow> arc list \<Rightarrow> 'w \<Rightarrow> bool \<times> 'w" where
  "PerformInjectiveMultimap D m_in w = PerformInjectiveMultimapDestructive D m_in w"

text \<open>The delegate of a process: \<open>dup\<close>, \<open>dup2\<close> and \<open>close\<close> of the system, retried when interrupted.\<close>

record 'w fd_calls =
  sys_dup :: "int \<Rightarrow> 'w \<Rightarrow> int \<times> 'w"
  sys_dup2 :: "int \<Rightarrow> int \<Rightarrow> 'w \<Rightarrow> int \<times> 'w"
  sys_close :: "int \<Rightarrow> 'w \<Rightarrow> 'w"

definition FileDescriptorTableInjection :: "'w fd_calls \<Rightarrow> 'w delegate" where
  "FileDescriptorTableInjection os = \<lparr>
     Duplicate = (\<lambda>fd w. case sys_dup os fd w of (r, w1) \<Rightarrow> (if r \<ge> 0 then Some r else None, w1)),
     Move = (\<lambda>src dst w. case sys_dup2 os src dst w of (r, w1) \<Rightarrow> (r \<noteq> - 1, w1)),
     Delete = (\<lambda>fd w. sys_close os fd w)\<rparr>"

definition ShuffleFileDescriptors :: "'w fd_calls \<Rightarrow> arc list \<Rightarrow> 'w \<Rightarrow> bool \<times> 'w" where
  "ShuffleFileDescriptors os m w = PerformInjectiveMultimapDestructive (FileDescriptorTableInjection os) m w"

section \<open>What is promised\<close>

text \<open>All arcs at once: a destination gets what its source had, and a source that is to be closed goes.\<close>

definition shuffled :: "arc list \<Rightarrow> (int \<Rightarrow> 'a option) \<Rightarrow> int \<Rightarrow> 'a option" where
  "shuffled m f x = (case find (\<lambda>a. dest a = x) m of
     Some a \<Rightarrow> f (source a)
   | None \<Rightarrow> if list_ex (\<lambda>a. source a = x \<and> close a) m then None else f x)"

lemma shuffled_dest:
  assumes "distinct (map dest m)" "a \<in> set m"
  shows "shuffled m f (dest a) = f (source a)"
proof -
  have "find (\<lambda>b. dest b = dest a) m = Some a" using assms by (induction m) auto
  then show ?thesis by (simp add: shuffled_def)
qed

lemma shuffled_other:
  assumes "x \<notin> dest ` set m"
  shows "shuffled m f x = (if \<exists>a \<in> set m. source a = x \<and> close a then None else f x)"
proof -
  have "find (\<lambda>b. dest b = x) m = None" using assms by (auto simp: find_None_iff)
  then show ?thesis by (simp add: shuffled_def list_ex_iff)
qed

text \<open>
  The arcs have different destinations, their sources are open, no duplicate can be made at a
  destination, and an identity arc does not share its source with an arc that closes it.
\<close>

definition arcs_ok :: "int set \<Rightarrow> arc list \<Rightarrow> (int \<Rightarrow> 'a option) \<Rightarrow> bool" where
  "arcs_ok fresh m f \<longleftrightarrow> distinct (map dest m) \<and> (\<forall>a \<in> set m. 0 \<le> dest a) \<and> (\<forall>a \<in> set m. f (source a) \<noteq> None) \<and>
     (\<forall>a \<in> set m. dest a \<notin> fresh \<or> f (dest a) \<noteq> None) \<and>
     (\<forall>a \<in> set m. \<forall>b \<in> set m. is_identity a \<and> source b = source a \<longrightarrow> \<not> close b)"

subsection \<open>The inner loop without the delegate\<close>

definition overwrites :: "arc \<Rightarrow> arc \<Rightarrow> bool" where
  "overwrites i j \<longleftrightarrow> \<not> is_identity i \<and> dest i = source j"

definition retarget :: "arc \<Rightarrow> int \<Rightarrow> arc \<Rightarrow> arc" where
  "retarget i t j = (if overwrites i j then j\<lparr>source := t, close := False\<rparr> else j)"

fun passes :: "arc \<Rightarrow> arc list \<Rightarrow> arc \<times> arc list" where
  "passes i [] = (i, [])"
| "passes i (j # js) = (case pass_close i j of (i1, j1) \<Rightarrow> case passes i1 js of (i2, js2) \<Rightarrow> (i2, j1 # js2))"

lemma pass_close_same:
  assumes "pass_close i j = (i1, j1)"
  shows "source i1 = source i" "dest i1 = dest i" "overwrites i1 = overwrites i" "retarget i1 = retarget i"
proof -
  show s: "source i1 = source i" "dest i1 = dest i" using assms by (auto simp: pass_close_def Let_def split: if_splits)
  then show o: "overwrites i1 = overwrites i" by (simp add: overwrites_def is_identity_def fun_eq_iff)
  show "retarget i1 = retarget i" by (simp add: fun_eq_iff retarget_def o)
qed

lemma inner_with_temp:
  assumes "t \<noteq> - 1"
  shows "inner D i js t ex w = (case passes i (map (retarget i t) js) of (i', js') \<Rightarrow> Inr (i', js', ex, w))"
proof (induction js arbitrary: i)
  case (Cons j js)
  have r: "redirect D i j t ex w = Inr (retarget i t j, t, ex, w)"
    using assms by (simp add: redirect_def retarget_def overwrites_def)
  obtain i1 j1 where p: "pass_close i (retarget i t j) = (i1, j1)" by fastforce
  then show ?case using r Cons.IH [of i1] pass_close_same(4) [OF p] by (simp split: prod.splits)
qed simp

lemma inner_no_temp:
  assumes "\<not> list_ex (overwrites i) js"
  shows "inner D i js (- 1) ex w = (case passes i js of (i', js') \<Rightarrow> Inr (i', js', ex, w))"
  using assms
proof (induction js arbitrary: i)
  case (Cons j js)
  have r: "redirect D i j (- 1) ex w = Inr (j, - 1, ex, w)"
    using Cons.prems by (auto simp: redirect_def overwrites_def)
  obtain i1 j1 where p: "pass_close i j = (i1, j1)" by fastforce
  then show ?case using r Cons.IH [of i1] Cons.prems pass_close_same(3) [OF p] by (simp split: prod.splits)
qed simp

lemma inner_new_temp:
  assumes "list_ex (overwrites i) js" "Duplicate D (dest i) w = (Some t, w1)" "t \<noteq> - 1" "length ex < kMaxExtraFDs"
  shows "inner D i js (- 1) ex w = (case passes i (map (retarget i t) js) of (i', js') \<Rightarrow> Inr (i', js', ex @ [t], w1))"
  using assms(1,2)
proof (induction js arbitrary: i)
  case (Cons j js)
  obtain i1 j1 where p: "pass_close i (retarget i t j) = (i1, j1)" by fastforce
  note same = pass_close_same [OF p]
  show ?case
  proof (cases "overwrites i j")
    case True
    have "redirect D i j (- 1) ex w = Inr (retarget i t j, t, ex @ [t], w1)"
      using True Cons.prems(2) assms(4) by (simp add: redirect_def retarget_def overwrites_def)
    then show ?thesis using p inner_with_temp [OF assms(3), of D i1 js "ex @ [t]" w1] same(4) by (simp split: prod.splits)
  next
    case False
    have "redirect D i j (- 1) ex w = Inr (retarget i t j, - 1, ex, w)"
      using False by (auto simp: redirect_def retarget_def overwrites_def)
    then show ?thesis using p Cons.IH [of i1] Cons.prems False same by (simp split: prod.splits)
  qed
qed simp

text \<open>What passing on the duty to close leaves true.\<close>

definition passed_on :: "arc \<Rightarrow> arc \<Rightarrow> arc \<Rightarrow> bool" where
  "passed_on i j j' \<longleftrightarrow> source j' = source j \<and> dest j' = dest j \<and> (close j \<longrightarrow> close j') \<and>
     (close j' \<longrightarrow> close j \<or> close i \<and> source j = source i)"

lemma passes_spec:
  assumes "passes i js = (i', js')"
  shows "source i' = source i \<and> dest i' = dest i \<and> list_all2 (passed_on i) js js' \<and>
    (close i' \<longrightarrow> close i \<and> (\<forall>j \<in> set js. dest j \<noteq> source i \<and> source j \<noteq> source i)) \<and>
    (close i \<longrightarrow> close i' \<or> source i \<in> dest ` set js \<or> (\<exists>j \<in> set js'. source j = source i \<and> close j))"
  using assms
proof (induction js arbitrary: i i' js')
  case (Cons j js)
  obtain i1 j1 where p: "pass_close i j = (i1, j1)" by fastforce
  obtain i2 js2 where q: "passes i1 js = (i2, js2)" by fastforce
  have r: "i' = i2" "js' = j1 # js2" using Cons.prems p q by simp_all
  have c: "close i1 \<longleftrightarrow> close i \<and> dest j \<noteq> source i \<and> source j \<noteq> source i" "passed_on i j j1"
    "close i \<and> dest j \<noteq> source i \<and> source j = source i \<longrightarrow> close j1"
    using p by (auto simp: pass_close_def passed_on_def Let_def split: if_splits)
  note IH = Cons.IH [OF q] and s = pass_close_same(1,2) [OF p]
  have "list_all2 (passed_on i) js js2"
    using IH c(1) s(1) by (auto simp: passed_on_def elim!: list_all2_mono)
  moreover have "source j1 = source j" using c(2) by (simp add: passed_on_def)
  ultimately show ?case using IH c s unfolding r by (auto simp: image_iff)
qed simp

subsection \<open>One arc\<close>

lemma list_all2_left: "list_all2 P xs ys \<Longrightarrow> x \<in> set xs \<Longrightarrow> \<exists>y \<in> set ys. P x y"
  by (induction rule: list_all2_induct) auto

lemma list_all2_right: "list_all2 P xs ys \<Longrightarrow> y \<in> set ys \<Longrightarrow> \<exists>x \<in> set xs. P x y"
  by (induction rule: list_all2_induct) auto

text \<open>What an arc that is still to come looks like after the inner loop for \<open>i\<close>.\<close>

definition remade :: "arc \<Rightarrow> int \<Rightarrow> arc \<Rightarrow> arc \<Rightarrow> bool" where
  "remade i t j j' \<longleftrightarrow> dest j' = dest j \<and>
     (overwrites i j \<longrightarrow> source j' = t \<and> \<not> close j') \<and>
     (\<not> overwrites i j \<longrightarrow> source j' = source j \<and> (close j \<longrightarrow> close j') \<and>
        (close j' \<longrightarrow> close j \<or> close i \<and> source j = source i))"

lemma passed_remade:
  assumes "passed_on i (retarget i t j) j'" "overwrites i j \<longrightarrow> t \<noteq> source i"
  shows "remade i t j j'"
  using assms by (auto simp: passed_on_def remade_def retarget_def split: if_splits)

lemma arcs_okD:
  assumes "arcs_ok fresh m f"
  shows "distinct (map dest m)" "a \<in> set m \<Longrightarrow> f (source a) \<noteq> None"
    "a \<in> set m \<Longrightarrow> dest a \<in> fresh \<Longrightarrow> f (dest a) \<noteq> None"
    "a \<in> set m \<Longrightarrow> b \<in> set m \<Longrightarrow> is_identity a \<Longrightarrow> source b = source a \<Longrightarrow> \<not> close b"
    "a \<in> set m \<Longrightarrow> 0 \<le> dest a"
  using assms by (auto simp: arcs_ok_def)

text \<open>The table after the arc \<open>i\<close>, whose flag is \<open>c\<close> by then.\<close>

definition saved :: "arc \<Rightarrow> arc list \<Rightarrow> int \<Rightarrow> (int \<Rightarrow> 'a option) \<Rightarrow> int \<Rightarrow> 'a option" where
  "saved i js t f = (if list_ex (overwrites i) js then f(t := f (dest i)) else f)"

definition moved :: "arc \<Rightarrow> bool \<Rightarrow> 'a option \<Rightarrow> (int \<Rightarrow> 'a option) \<Rightarrow> int \<Rightarrow> 'a option" where
  "moved i c v f = (if is_identity i then f
     else if c then f(dest i := v, source i := None) else f(dest i := v))"

text \<open>The situation in which the arc \<open>i\<close> is moved, with \<open>t\<close> as its temporary descriptor, if it needs one.\<close>

definition turn :: "int set \<Rightarrow> arc \<Rightarrow> arc list \<Rightarrow> (int \<Rightarrow> 'a option) \<Rightarrow> int \<Rightarrow> arc \<Rightarrow> arc list \<Rightarrow> bool" where
  "turn fresh i js f t i' js' \<longleftrightarrow> arcs_ok fresh (i # js) f \<and> passes i (map (retarget i t) js) = (i', js') \<and>
     (list_ex (overwrites i) js \<longrightarrow> t \<in> fresh \<and> f t = None)"

lemma turnD:
  assumes "turn fresh i js f t i' js'"
  shows "arcs_ok fresh (i # js) f" "passes i (map (retarget i t) js) = (i', js')"
    "source i' = source i" "dest i' = dest i" "list_all2 (remade i t) js js'"
    "close i' \<Longrightarrow> close i" "close i' \<Longrightarrow> j \<in> set js \<Longrightarrow> dest j \<noteq> source i"
    "close i' \<Longrightarrow> j \<in> set js \<Longrightarrow> \<not> overwrites i j \<Longrightarrow> source j \<noteq> source i"
    "close i \<Longrightarrow> close i' \<or> source i \<in> dest ` set js \<or> (\<exists>j \<in> set js'. source j = source i \<and> close j)"
proof -
  show ok: "arcs_ok fresh (i # js) f" and p: "passes i (map (retarget i t) js) = (i', js')"
    using assms by (simp_all add: turn_def)
  note sp = passes_spec [OF p]
  show "source i' = source i" "dest i' = dest i" using sp by simp_all
  have nt: "t \<noteq> source i" if "overwrites i j" "j \<in> set js" for j
    using assms that arcs_okD(2) [OF ok, of i] by (auto simp: turn_def list_ex_iff)
  have "list_all2 (\<lambda>j. passed_on i (retarget i t j)) js js'" using sp by (simp add: list.rel_map)
  then show "list_all2 (remade i t) js js'" using nt by (auto intro: passed_remade elim!: list.rel_mono_strong)
  have d: "dest (retarget i t j) = dest j" for j by (simp add: retarget_def)
  show "close i' \<Longrightarrow> close i" using sp by simp
  show "close i' \<Longrightarrow> j \<in> set js \<Longrightarrow> dest j \<noteq> source i" for j using sp d by fastforce
  show "close i' \<Longrightarrow> j \<in> set js \<Longrightarrow> \<not> overwrites i j \<Longrightarrow> source j \<noteq> source i" for j
    using sp by (fastforce simp: retarget_def)
  show "close i \<Longrightarrow> close i' \<or> source i \<in> dest ` set js \<or> (\<exists>j \<in> set js'. source j = source i \<and> close j)"
    using sp d by (auto simp: image_iff)
qed

lemma turn_temp:
  assumes "turn fresh i js f t i' js'" "list_ex (overwrites i) js"
  shows "f t = None" "t \<noteq> source i" "t \<noteq> dest i" "j \<in> set (i # js) \<Longrightarrow> t \<noteq> dest j" "j \<in> set js \<Longrightarrow> t \<noteq> source j"
proof -
  note ok = turnD(1) [OF assms(1)]
  show n: "f t = None" using assms by (simp add: turn_def)
  have "t \<in> fresh" using assms by (simp add: turn_def)
  then show d: "j \<in> set (i # js) \<Longrightarrow> t \<noteq> dest j" for j using n arcs_okD(3) [OF ok] by metis
  show "t \<noteq> source i" using n arcs_okD(2) [OF ok, of i] by auto
  show "t \<noteq> dest i" using d [of i] by simp
  show "j \<in> set js \<Longrightarrow> t \<noteq> source j" using n arcs_okD(2) [OF ok, of j] by auto
qed

text \<open>The table after the arc.\<close>

definition after_arc :: "arc \<Rightarrow> arc list \<Rightarrow> int \<Rightarrow> bool \<Rightarrow> (int \<Rightarrow> 'a option) \<Rightarrow> int \<Rightarrow> 'a option" where
  "after_arc i js t c f = moved i c (f (source i)) (saved i js t f)"

text \<open>An arc still to come finds at its new source what it would have found at its old one.\<close>

lemma after_source:
  assumes T: "turn fresh i js f t i' js'" and j: "j \<in> set js" "remade i t j j'"
  shows "after_arc i js t (close i') f (source j') = f (source j)"
proof (cases "overwrites i j")
  case True
  then have ex: "list_ex (overwrites i) js" using j(1) by (auto simp: list_ex_iff)
  have "source j' = t" "dest i = source j" "\<not> is_identity i" using True j(2) by (simp_all add: remade_def overwrites_def)
  then show ?thesis using ex turn_temp(2,3) [OF T ex] by (auto simp: after_arc_def moved_def saved_def)
next
  case False
  then have s: "source j' = source j" using j(2) by (simp add: remade_def)
  have "is_identity i \<or> dest i \<noteq> source j" using False by (auto simp: overwrites_def)
  moreover have "list_ex (overwrites i) js \<longrightarrow> t \<noteq> source j" using turn_temp(5) [OF T _ j(1)] by blast
  moreover have "close i' \<longrightarrow> source j \<noteq> source i" using turnD(8) [OF T _ j(1) False] by blast
  ultimately show ?thesis by (auto simp: s after_arc_def moved_def saved_def)
qed

lemma after_other:
  assumes "x \<noteq> dest i" "list_ex (overwrites i) js \<longrightarrow> x \<noteq> t" "c \<longrightarrow> x \<noteq> source i"
  shows "after_arc i js t c f x = f x"
  using assms by (auto simp: after_arc_def moved_def saved_def)

lemma turn_arcs_ok:
  assumes T: "turn fresh i js f t i' js'"
  shows "arcs_ok fresh js' (after_arc i js t (close i') f)"
proof -
  note ok = turnD(1) [OF T] and R = turnD(5) [OF T]
  have "map dest js' = map dest js" using R by (induction rule: list_all2_induct) (auto simp: remade_def)
  then have d: "distinct (map dest js')" using arcs_okD(1) [OF ok] by simp
  have orig: "\<exists>j \<in> set js. remade i t j j'" if "j' \<in> set js'" for j' by (rule list_all2_right [OF R that])
  have src: "after_arc i js t (close i') f (source a) \<noteq> None" if a: "a \<in> set js'" for a
    using orig [OF a] after_source [OF T] arcs_okD(2) [OF ok] by fastforce
  have dst: "dest a \<notin> fresh \<or> after_arc i js t (close i') f (dest a) \<noteq> None" if a: "a \<in> set js'" for a
  proof -
    from orig [OF a] obtain j where j: "j \<in> set js" "dest a = dest j" by (auto simp: remade_def)
    have "dest i \<notin> dest ` set js" using arcs_okD(1) [OF ok] by simp
    then have "dest j \<noteq> dest i" using j(1) by (metis image_eqI)
    then have "after_arc i js t (close i') f (dest j) = f (dest j)"
      using turnD(7) [OF T _ j(1)] turn_temp(4) [OF T, of j] j(1) by (intro after_other) auto
    then show ?thesis using arcs_okD(3) [OF ok, of j] j by auto
  qed
  have "\<not> close b" if a: "a \<in> set js'" "is_identity a" and b: "b \<in> set js'" "source b = source a" for a b
  proof -
    from orig [OF a(1)] obtain j where j: "j \<in> set js" "remade i t j a" by blast
    from orig [OF b(1)] obtain k where k: "k \<in> set js" "remade i t k b" by blast
    have nj: "\<not> overwrites i j"
    proof
      assume o: "overwrites i j"
      then have "source a = t" "dest a = dest j" using j(2) by (simp_all add: remade_def)
      moreover have "list_ex (overwrites i) js" using o j(1) by (auto simp: list_ex_iff)
      ultimately show False using a(2) turn_temp(4) [OF T, of j] j(1) by (simp add: is_identity_def)
    qed
    then have aj: "source a = source j" "is_identity j" using j(2) a(2) by (simp_all add: remade_def is_identity_def)
    have nk: "\<not> overwrites i k"
    proof
      assume o: "overwrites i k"
      then have "source b = t" using k(2) by (simp add: remade_def)
      moreover have "list_ex (overwrites i) js" using o k(1) by (auto simp: list_ex_iff)
      ultimately show False using b(2) aj turn_temp(5) [OF T _ j(1)] by simp
    qed
    then have bk: "source b = source k" "close b \<longrightarrow> close k \<or> close i \<and> source k = source i"
      using k(2) by (simp_all add: remade_def)
    have "\<not> close k" using arcs_okD(4) [OF ok, of j k] j(1) k(1) aj bk(1) b(2) by simp
    moreover have "source k = source i \<longrightarrow> \<not> close i" using arcs_okD(4) [OF ok, of j i] j(1) aj bk(1) b(2) by auto
    ultimately show ?thesis using bk(2) by auto
  qed
  moreover have "0 \<le> dest a" if a: "a \<in> set js'" for a
    using orig [OF a] arcs_okD(5) [OF ok] by (auto simp: remade_def)
  ultimately show ?thesis using d src dst unfolding arcs_ok_def by blast
qed

lemma turn_shuffled:
  assumes T: "turn fresh i js f t i' js'" and x: "list_ex (overwrites i) js \<longrightarrow> x \<noteq> t"
  shows "shuffled js' (after_arc i js t (close i') f) x = shuffled (i # js) f x"
proof -
  note ok = turnD(1) [OF T] and R = turnD(5) [OF T] and ok' = turn_arcs_ok [OF T]
  let ?g = "after_arc i js t (close i') f"
  have orig: "\<exists>j \<in> set js. remade i t j j'" if "j' \<in> set js'" for j' by (rule list_all2_right [OF R that])
  have remake: "\<exists>j' \<in> set js'. remade i t j j'" if "j \<in> set js" for j by (rule list_all2_left [OF R that])
  show ?thesis
  proof (cases "x \<in> dest ` set js")
    case True
    then obtain j where j: "j \<in> set js" "x = dest j" by blast
    from remake [OF j(1)] obtain j' where j': "j' \<in> set js'" "remade i t j j'" by blast
    have "shuffled js' ?g (dest j') = ?g (source j')" by (rule shuffled_dest [OF arcs_okD(1) [OF ok'] j'(1)])
    also have "\<dots> = f (source j)" by (rule after_source [OF T j(1) j'(2)])
    also have "\<dots> = shuffled (i # js) f (dest j)" using shuffled_dest [OF arcs_okD(1) [OF ok], of j f] j(1) by simp
    also have "dest j' = x" using j'(2) j(2) by (simp add: remade_def)
    finally show ?thesis using j(2) by simp
  next
    case False
    have "x \<notin> dest ` set js'" using False orig by (fastforce simp: remade_def)
    note lhs = shuffled_other [OF this, of ?g]
    show ?thesis
    proof (cases "x = dest i")
      case True
      have "\<not> close j'" if j': "j' \<in> set js'" "source j' = dest i" for j'
      proof -
        from orig [OF j'(1)] obtain j where j: "j \<in> set js" "remade i t j j'" by blast
        show ?thesis
        proof (cases "overwrites i j")
          case False
          then have e: "source j = dest i" "close j' \<longrightarrow> close j \<or> close i \<and> source j = source i"
            using j(2) j'(2) by (simp_all add: remade_def)
          with False have id: "is_identity i" by (simp add: overwrites_def)
          then show ?thesis using e arcs_okD(4) [OF ok, of i j] arcs_okD(4) [OF ok, of i i] j(1)
            by (auto simp: is_identity_def)
        qed (use j(2) in \<open>simp add: remade_def\<close>)
      qed
      then have "shuffled js' ?g x = ?g (dest i)" using lhs True by auto
      also have "\<dots> = f (source i)"
        using turn_temp(2,3) [OF T] by (auto simp: after_arc_def moved_def saved_def is_identity_def)
      also have "\<dots> = shuffled (i # js) f x" using shuffled_dest [OF arcs_okD(1) [OF ok], of i f] True by simp
      finally show ?thesis .
    next
      case nd: False
      have "x \<notin> dest ` set (i # js)" using False nd by auto
      note rhs = shuffled_other [OF this, of f]
      have g: "?g x = (if close i' \<and> x = source i \<and> \<not> is_identity i then None else f x)"
        using x nd by (auto simp: after_arc_def moved_def saved_def)
      have ni: "x = source i \<Longrightarrow> \<not> is_identity i" using nd by (auto simp: is_identity_def)
      show ?thesis
      proof (cases "\<exists>a \<in> set (i # js). source a = x \<and> close a")
        case True
        then have "shuffled (i # js) f x = None" using rhs by simp
        moreover have "?g x = None \<or> (\<exists>a \<in> set js'. source a = x \<and> close a)"
        proof (cases "source i = x \<and> close i")
          case True
          then show ?thesis using turnD(9) [OF T] False g ni by auto
        next
          case False
          with True obtain j where j: "j \<in> set js" "source j = x" "close j" by auto
          from remake [OF j(1)] obtain j' where j': "j' \<in> set js'" "remade i t j j'" by blast
          have "\<not> overwrites i j" using j(2) nd by (auto simp: overwrites_def)
          then show ?thesis using j j' by (auto simp: remade_def)
        qed
        ultimately show ?thesis using lhs by auto
      next
        case no: False
        have "\<not> close j'" if j': "j' \<in> set js'" "source j' = x" for j'
        proof -
          from orig [OF j'(1)] obtain j where j: "j \<in> set js" "remade i t j j'" by blast
          show ?thesis using no j j'(2) by (auto simp: remade_def)
        qed
        moreover have "\<not> (close i' \<and> x = source i)" using no turnD(6) [OF T] by auto
        ultimately show ?thesis using lhs rhs g no by auto
      qed
    qed
  qed
qed

subsection \<open>Correctness\<close>

text \<open>
  A delegate over a table of open descriptors: a duplicate is an unused element of \<open>fresh\<close>.
\<close>

locale injection =
  fixes D :: "'w delegate" and table :: "'w \<Rightarrow> int \<Rightarrow> 'a option" and fresh :: "int set"
  assumes dup: "table w fd \<noteq> None \<Longrightarrow> \<exists>t w'. Duplicate D fd w = (Some t, w') \<and> 0 \<le> t \<and> t \<in> fresh \<and>
      table w t = None \<and> table w' = (table w)(t := table w fd)"
    and move: "table w src \<noteq> None \<Longrightarrow> 0 \<le> dst \<Longrightarrow> \<exists>w'. Move D src dst w = (True, w') \<and> table w' = (table w)(dst := table w src)"
    and delete: "table (Delete D fd w) = (table w)(fd := None)"
begin

lemma delete_all: "table (fold (Delete D) fds w) x = (if x \<in> set fds then None else table w x)"
  by (induction fds arbitrary: w) (auto simp: delete)

lemma move_arc_ok:
  assumes "table w (source i) \<noteq> None" "0 \<le> dest i"
  obtains w' where "move_arc D i w = (True, w')" "table w' = moved i (close i) (table w (source i)) (table w)"
proof (cases "is_identity i")
  case True
  then show thesis using that [of w] by (simp add: move_arc_def moved_def)
next
  case False
  obtain w1 where "Move D (source i) (dest i) w = (True, w1)" "table w1 = (table w)(dest i := table w (source i))"
    using move [OF assms] by blast
  then show thesis using that False by (cases "close i") (simp_all add: move_arc_def moved_def delete)
qed

text \<open>One round of the outer loop.\<close>

lemma perform_arc:
  assumes ok: "arcs_ok fresh (i # js) (table w)" and n: "length ex + length (i # js) \<le> Suc kMaxExtraFDs"
  obtains t i' js' w2 where "turn fresh i js (table w) t i' js'"
    "table w2 = after_arc i js t (close i') (table w)"
    "perform D (i # js) ex w = perform D js' (ex @ (if list_ex (overwrites i) js then [t] else [])) w2"
proof (cases "list_ex (overwrites i) js")
  case False
  obtain i' js' where p: "passes i js = (i', js')" by fastforce
  have "map (retarget i (- 1)) js = js"
    using False by (intro map_idI) (auto simp: retarget_def list_ex_iff)
  then have T: "turn fresh i js (table w) (- 1) i' js'" using ok p False by (simp add: turn_def)
  note same = turnD(3,4) [OF T]
  have "table w (source i') \<noteq> None" "0 \<le> dest i'" using arcs_okD(2,5) [OF ok, of i] same by simp_all
  from move_arc_ok [OF this] obtain w2 where w2: "move_arc D i' w = (True, w2)"
    "table w2 = moved i' (close i') (table w (source i')) (table w)" by blast
  have "table w2 = after_arc i js (- 1) (close i') (table w)"
    using w2(2) False same by (simp add: after_arc_def saved_def moved_def is_identity_def)
  then show thesis using inner_no_temp [OF False, of D ex w] p w2(1) False by (intro that [OF T]) simp_all
next
  case True
  then obtain j where j: "j \<in> set js" "overwrites i j" by (auto simp: list_ex_iff)
  then have "table w (dest i) \<noteq> None" using arcs_okD(2) [OF ok, of j] by (auto simp: overwrites_def)
  from dup [OF this] obtain t w1 where t: "Duplicate D (dest i) w = (Some t, w1)" "0 \<le> t" "t \<in> fresh"
    "table w t = None" "table w1 = (table w)(t := table w (dest i))" by blast
  obtain i' js' where p: "passes i (map (retarget i t) js) = (i', js')" by fastforce
  have T: "turn fresh i js (table w) t i' js'" using ok p True t(3,4) by (simp add: turn_def)
  note same = turnD(3,4) [OF T]
  have "table w1 (source i') = table w (source i)" using t(5) same turn_temp(2) [OF T True] by auto
  moreover have "table w (source i) \<noteq> None" "0 \<le> dest i'" using arcs_okD(2,5) [OF ok, of i] same by simp_all
  ultimately obtain w2 where w2: "move_arc D i' w1 = (True, w2)"
    "table w2 = moved i' (close i') (table w (source i)) (table w1)" using move_arc_ok [of w1 i'] by metis
  have "table w2 = after_arc i js t (close i') (table w)"
    using w2(2) True same t(5) by (simp add: after_arc_def saved_def moved_def is_identity_def)
  moreover have "js \<noteq> []" using j by auto
  then have "length ex < kMaxExtraFDs" using n by (cases js) auto
  then have "inner D i js (- 1) ex w = Inr (i', js', ex @ [t], w1)"
    using inner_new_temp [OF True t(1), of ex] t(2) p by simp
  ultimately show thesis using w2(1) True by (intro that [OF T]) simp_all
qed

lemma perform_correct:
  assumes "arcs_ok fresh m (table w)" "length ex + length m \<le> Suc kMaxExtraFDs"
  shows "\<exists>w'. perform D m ex w = (True, w') \<and>
    table w' = (\<lambda>x. if x \<in> set ex then None else shuffled m (table w) x)"
  using assms
proof (induction "length m" arbitrary: m ex w)
  case 0
  then show ?case by (auto simp: delete_all shuffled_def fun_eq_iff)
next
  case (Suc n)
  then obtain i js where m: "m = i # js" by (cases m) auto
  note ok = Suc.prems(1) [unfolded m] and len = Suc.prems(2) [unfolded m]
  obtain t i' js' w2 where r: "turn fresh i js (table w) t i' js'"
    "table w2 = after_arc i js t (close i') (table w)"
    "perform D (i # js) ex w = perform D js' (ex @ (if list_ex (overwrites i) js then [t] else [])) w2"
    by (rule perform_arc [OF ok len])
  let ?ex = "ex @ (if list_ex (overwrites i) js then [t] else [])"
  have l: "length js' = length js" using list_all2_lengthD [OF turnD(5) [OF r(1)]] by simp
  have n: "n = length js'" using Suc.hyps(2) m l by simp
  have "length ?ex + length js' \<le> Suc kMaxExtraFDs" using len l by simp
  from Suc.hyps(1) [OF n, of w2 ?ex, OF _ this] turn_arcs_ok [OF r(1)] r(2)
  obtain w' where w': "perform D js' ?ex w2 = (True, w')"
    "table w' = (\<lambda>x. if x \<in> set ?ex then None else shuffled js' (table w2) x)" by auto
  have "table w' x = (if x \<in> set ex then None else shuffled (i # js) (table w) x)" for x
  proof (cases "list_ex (overwrites i) js \<and> x = t")
    case True
    have "t \<notin> dest ` set (i # js)" using turn_temp(4) [OF r(1)] True by (metis imageE)
    from shuffled_other [OF this, of "table w"] have "shuffled (i # js) (table w) t = None"
      using turn_temp(1) [OF r(1)] True by simp
    then show ?thesis using w'(2) True by simp
  next
    case False
    then show ?thesis using w'(2) turn_shuffled [OF r(1), of x] r(2) by auto
  qed
  then show ?case using r(3) w'(1) m by (auto simp: fun_eq_iff)
qed

end

subsection \<open>The delegate of a process\<close>

text \<open>
  What the system calls do to the table of open descriptors: \<open>dup\<close> of an open descriptor gives one that
  is not in use, \<open>dup2\<close> copies onto the descriptor it is given, \<open>close\<close> frees one.
\<close>

locale posix_fds =
  fixes os :: "'w fd_calls" and open_fds :: "'w \<Rightarrow> int \<Rightarrow> 'a option"
  assumes dup: "open_fds w fd \<noteq> None \<Longrightarrow> \<exists>t w'. sys_dup os fd w = (t, w') \<and> 0 \<le> t \<and>
      open_fds w t = None \<and> open_fds w' = (open_fds w)(t := open_fds w fd)"
    and dup2: "open_fds w src \<noteq> None \<Longrightarrow> 0 \<le> dst \<Longrightarrow> \<exists>w'. sys_dup2 os src dst w = (dst, w') \<and>
      open_fds w' = (open_fds w)(dst := open_fds w src)"
    and close: "open_fds (sys_close os fd w) = (open_fds w)(fd := None)"

sublocale posix_fds \<subseteq> table: injection "FileDescriptorTableInjection os" open_fds UNIV
proof unfold_locales
  show "\<exists>t w'. Duplicate (FileDescriptorTableInjection os) fd w = (Some t, w') \<and> 0 \<le> t \<and> t \<in> UNIV \<and>
      open_fds w t = None \<and> open_fds w' = (open_fds w)(t := open_fds w fd)" if "open_fds w fd \<noteq> None" for w fd
    using dup [OF that] by (auto simp: FileDescriptorTableInjection_def)
  show "\<exists>w'. Move (FileDescriptorTableInjection os) src dst w = (True, w') \<and> open_fds w' = (open_fds w)(dst := open_fds w src)"
    if "open_fds w src \<noteq> None" "0 \<le> dst" for w src dst
    using dup2 [OF that] that(2) by (auto simp: FileDescriptorTableInjection_def)
  show "open_fds (Delete (FileDescriptorTableInjection os) fd w) = (open_fds w)(fd := None)" for fd w
    by (simp add: FileDescriptorTableInjection_def close)
qed

context posix_fds
begin

lemma shuffle:
  assumes "arcs_ok UNIV m (open_fds w)" "length m \<le> Suc kMaxExtraFDs"
  shows "\<exists>w'. ShuffleFileDescriptors os m w = (True, w') \<and> open_fds w' = shuffled m (open_fds w)"
  using table.perform_correct [OF assms(1), of "[]"] assms(2)
  by (simp add: ShuffleFileDescriptors_def PerformInjectiveMultimapDestructive_def)

end

text \<open>The calls as POSIX describes them, on a list of open descriptors: \<open>dup\<close> takes the lowest free number.\<close>

definition lowest_free :: "(int \<times> 'a) list \<Rightarrow> int" where
  "lowest_free t = hd (filter (\<lambda>k. k \<notin> fst ` set t) (map int [0..<Suc (length t)]))"

definition posix_calls :: "(int \<times> 'a) list fd_calls" where
  "posix_calls = \<lparr>
     sys_dup = (\<lambda>fd t. case map_of t fd of None \<Rightarrow> (- 1, t) | Some v \<Rightarrow> (lowest_free t, (lowest_free t, v) # t)),
     sys_dup2 = (\<lambda>src dst t. case map_of t src of None \<Rightarrow> (- 1, t)
       | Some v \<Rightarrow> if dst < 0 then (- 1, t) else (dst, (dst, v) # t)),
     sys_close = (\<lambda>fd t. filter (\<lambda>(k, v). k \<noteq> fd) t)\<rparr>"

lemma lowest_free: "0 \<le> lowest_free t \<and> lowest_free t \<notin> fst ` set t"
proof -
  let ?c = "map int [0..<Suc (length t)]"
  have "card (fst ` set t) \<le> length t" by (meson card_image_le card_length finite_set le_trans)
  moreover have "distinct ?c" by (simp add: distinct_map del: upt_Suc)
  then have "card (set ?c) = Suc (length t)" by (simp add: distinct_card del: upt_Suc set_map set_upt)
  ultimately have "\<not> set ?c \<subseteq> fst ` set t" by (metis card_mono finite_imageI finite_set not_less_eq_eq)
  then have "filter (\<lambda>k. k \<notin> fst ` set t) ?c \<noteq> []" by (auto simp: filter_empty_conv)
  then have "lowest_free t \<in> set (filter (\<lambda>k. k \<notin> fst ` set t) ?c)" unfolding lowest_free_def by (rule hd_in_set)
  then show ?thesis by (auto simp del: upt_Suc)
qed

lemma map_of_filter_key: "map_of (filter (\<lambda>(k, v). k \<noteq> fd) t) = (map_of t)(fd := None)"
  by (induction t) auto

interpretation posix: posix_fds posix_calls "map_of :: (int \<times> 'a) list \<Rightarrow> _"
proof unfold_locales
  show "\<exists>t w'. sys_dup posix_calls fd w = (t, w') \<and> 0 \<le> t \<and> map_of w t = None \<and> map_of w' = (map_of w)(t := map_of w fd)"
    if o: "map_of w fd \<noteq> None" for w :: "(int \<times> 'a) list" and fd
  proof -
    from o obtain v where "map_of w fd = Some v" by blast
    moreover have "map_of w (lowest_free w) = None" using lowest_free [of w] by (simp add: map_of_eq_None_iff)
    ultimately show ?thesis using lowest_free [of w] by (auto simp: posix_calls_def)
  qed
  show "\<exists>w'. sys_dup2 posix_calls src dst w = (dst, w') \<and> map_of w' = (map_of w)(dst := map_of w src)"
    if "map_of w src \<noteq> None" "0 \<le> dst" for w :: "(int \<times> 'a) list" and src dst
    using that by (auto simp: posix_calls_def)
  show "map_of (sys_close posix_calls fd w) = (map_of w)(fd := None)" for fd and w :: "(int \<times> 'a) list"
    by (simp add: posix_calls_def map_of_filter_key)
qed

section \<open>Properties\<close>




end
