(* ===== verification/MessageLoop.thy ===== *)
theory MessageLoop imports Prelude begin

text \<open>
  \<open>base/message_loop.h\<close> and \<open>.cc\<close> with the default pump of \<open>base/message_pump_default.cc\<close>: the queues of a
  message loop, nested loops, and the pump that sleeps when there is nothing to do. The thread of the
  loop is a stack of the calls it is in, runs of the pump and tasks; what a task does is a sequence of
  events. Every access under the lock, every signal and every look at the clock is a step of its own, so
  a run is an interleaving of that thread with the threads that post. Times are the 64-bit ticks of the
  code, zero is the null time, and the clock never goes back. Task observers, which are code of the same
  kind as the tasks, belong to the events of the task. \<open>None\<close> is an event that cannot happen in the
  state, or a failed check.
\<close>

section \<open>State\<close>

record 't pending_task =
  the_task :: 't
  delayed_run_time :: u64
  sequence_num :: u32
  nestable :: bool

text \<open>Where a run of the pump is; \<open>bool\<close> is \<open>did_work\<close>, \<open>Blocked\<close> carries the time it sleeps until.\<close>

datatype pump_at = BeforeWork | InWork | AfterWork bool | AfterDelayed bool | AfterIdle bool
  | BeforeWait | Blocked "u64 option"

text \<open>\<open>Pumping\<close> is \<open>RunState\<close>, the depth and \<open>quit_received\<close>, with the run of the pump it stands for.\<close>

datatype 't call_frame = Pumping int bool pump_at | InTask 't

record 't started_task =
  start_of :: "'t pending_task"
  start_depth :: int
  start_clock :: u64

record 't loop_state =
  incoming_queue :: "'t pending_task list"
  work_queue :: "'t pending_task list"
  delayed_work_queue :: "'t pending_task list"
  deferred_queue :: "'t pending_task list"
  recent_time :: u64
  next_sequence_num :: u32
  nestable_allowed :: bool
  keep_running :: bool
  delayed_work_time :: u64
  wake_event :: bool
  scheduling :: nat
  loop_clock :: u64
  loop_stack :: "'t call_frame list"
  posted_log :: "'t pending_task list"
  started_log :: "'t started_task list"

definition MessageLoop_new :: "'t loop_state" where
  "MessageLoop_new = \<lparr>incoming_queue = [], work_queue = [], delayed_work_queue = [], deferred_queue = [],
     recent_time = 0, next_sequence_num = 0, nestable_allowed = True, keep_running = True,
     delayed_work_time = 0, wake_event = False, scheduling = 0, loop_clock = 0, loop_stack = [],
     posted_log = [], started_log = []\<rparr>"

definition is_null :: "u64 \<Rightarrow> bool" where
  "is_null t \<longleftrightarrow> t = 0"

section \<open>The pump\<close>

definition ScheduleWork :: "'t loop_state \<Rightarrow> 't loop_state" where
  "ScheduleWork s = s\<lparr>wake_event := True\<rparr>"

definition ScheduleDelayedWork :: "u64 \<Rightarrow> 't loop_state \<Rightarrow> 't loop_state" where
  "ScheduleDelayedWork t s = s\<lparr>delayed_work_time := t\<rparr>"

definition Pump_Quit :: "'t loop_state \<Rightarrow> 't loop_state" where
  "Pump_Quit s = s\<lparr>keep_running := False\<rparr>"

definition set_top :: "'t call_frame \<Rightarrow> 't loop_state \<Rightarrow> 't loop_state" where
  "set_top f s = s\<lparr>loop_stack := f # tl (loop_stack s)\<rparr>"

section \<open>Posting\<close>

text \<open>
  \<open>PostTask_Helper\<close> up to the end of the locked section: the thread that finds the queue empty has yet to
  call \<open>ScheduleWork\<close>, which is \<open>finish_post\<close>. A negative delay is a failed check.
\<close>

definition PostTask_Helper :: "'t \<Rightarrow> int \<Rightarrow> bool \<Rightarrow> 't loop_state \<Rightarrow> 't loop_state option" where
  "PostTask_Helper t delay_ms nest s =
     (if delay_ms < 0 then None
      else (let pending = \<lparr>the_task = t, delayed_run_time =
                if delay_ms > 0 then loop_clock s + word_of_int (delay_ms * 1000) else 0,
                sequence_num = 0, nestable = nest\<rparr>
        in Some (s\<lparr>incoming_queue := incoming_queue s @ [pending], posted_log := posted_log s @ [pending],
          scheduling := (if incoming_queue s = [] then scheduling s + 1 else scheduling s)\<rparr>)))"

definition finish_post :: "'t loop_state \<Rightarrow> 't loop_state option" where
  "finish_post s = (if scheduling s = 0 then None
     else Some (ScheduleWork (s\<lparr>scheduling := scheduling s - 1\<rparr>)))"

definition PostTask :: "'t \<Rightarrow> 't loop_state \<Rightarrow> 't loop_state option" where
  "PostTask t s = PostTask_Helper t 0 True s"
definition PostDelayedTask :: "'t \<Rightarrow> int \<Rightarrow> 't loop_state \<Rightarrow> 't loop_state option" where
  "PostDelayedTask t delay_ms s = PostTask_Helper t delay_ms True s"
definition PostNonNestableTask :: "'t \<Rightarrow> 't loop_state \<Rightarrow> 't loop_state option" where
  "PostNonNestableTask t s = PostTask_Helper t 0 False s"
definition PostNonNestableDelayedTask :: "'t \<Rightarrow> int \<Rightarrow> 't loop_state \<Rightarrow> 't loop_state option" where
  "PostNonNestableDelayedTask t delay_ms s = PostTask_Helper t delay_ms False s"

definition SetNestableTasksAllowed :: "bool \<Rightarrow> 't loop_state \<Rightarrow> 't loop_state" where
  "SetNestableTasksAllowed allowed s = (if nestable_allowed s \<noteq> allowed
     then (let s1 = s\<lparr>nestable_allowed := allowed\<rparr> in if \<not> allowed then s1 else ScheduleWork s1)
     else s)"

section \<open>Queues\<close>

text \<open>\<open>operator<\<close> of pending tasks: the task to be run later is the smaller one.\<close>

definition task_less :: "'t pending_task \<Rightarrow> 't pending_task \<Rightarrow> bool" where
  "task_less a b =
     (if sint (delayed_run_time a) < sint (delayed_run_time b) then False
      else if sint (delayed_run_time a) > sint (delayed_run_time b) then True
      else sint (sequence_num a - sequence_num b) > 0)"

text \<open>The priority queue is kept as a list; its top is an element that is not less than another.\<close>

fun queue_top :: "'t pending_task list \<Rightarrow> 't pending_task" where
  "queue_top [] = undefined"
| "queue_top [p] = p"
| "queue_top (p # q # ps) = queue_top ((if task_less p q then q else p) # ps)"

definition queue_pop :: "'t pending_task list \<Rightarrow> 't pending_task list" where
  "queue_pop ps = remove1 (queue_top ps) ps"

definition AddToDelayedWorkQueue :: "'t pending_task \<Rightarrow> 't loop_state \<Rightarrow> 't loop_state" where
  "AddToDelayedWorkQueue p s =
     s\<lparr>delayed_work_queue := delayed_work_queue s @ [p\<lparr>sequence_num := next_sequence_num s\<rparr>],
       next_sequence_num := next_sequence_num s + 1\<rparr>"

definition ReloadWorkQueue :: "'t loop_state \<Rightarrow> 't loop_state" where
  "ReloadWorkQueue s = (if work_queue s \<noteq> [] then s
     else if incoming_queue s = [] then s
     else s\<lparr>work_queue := incoming_queue s, incoming_queue := work_queue s\<rparr>)"

section \<open>Running tasks\<close>

definition run_depth :: "'t loop_state \<Rightarrow> int" where
  "run_depth s = (case loop_stack s of Pumping d q at # fs \<Rightarrow> d | _ \<Rightarrow> 0)"

text \<open>
  \<open>RunTask\<close> up to \<open>task->Run()\<close>; the pump goes on at \<open>at\<close> when the task has returned, which is \<open>end_task\<close>.
\<close>

definition RunTask :: "pump_at \<Rightarrow> 't pending_task \<Rightarrow> 't loop_state \<Rightarrow> 't loop_state option" where
  "RunTask at p s = (case loop_stack s of
     Pumping d q at0 # fs \<Rightarrow>
       (if \<not> nestable_allowed s then None
        else Some (s\<lparr>nestable_allowed := False, loop_stack := InTask (the_task p) # Pumping d q at # fs,
          started_log := started_log s @ [\<lparr>start_of = p, start_depth = d, start_clock = loop_clock s\<rparr>]\<rparr>))
   | _ \<Rightarrow> None)"

definition end_task :: "'t loop_state \<Rightarrow> 't loop_state option" where
  "end_task s = (case loop_stack s of
     InTask t # fs \<Rightarrow> Some (s\<lparr>nestable_allowed := True, loop_stack := fs\<rparr>)
   | _ \<Rightarrow> None)"

text \<open>The first result says whether the task was run, and then it is on the stack.\<close>

definition DeferOrRunPendingTask :: "pump_at \<Rightarrow> 't pending_task \<Rightarrow> 't loop_state \<Rightarrow> (bool \<times> 't loop_state) option" where
  "DeferOrRunPendingTask at p s =
     (if nestable p \<or> run_depth s = 1 then map_option (Pair True) (RunTask at p s)
      else Some (False, s\<lparr>deferred_queue := deferred_queue s @ [p]\<rparr>))"

definition ProcessNextDelayedNonNestableTask :: "pump_at \<Rightarrow> 't loop_state \<Rightarrow> (bool \<times> 't loop_state) option" where
  "ProcessNextDelayedNonNestableTask at s =
     (if run_depth s \<noteq> 1 then Some (False, s)
      else case deferred_queue s of [] \<Rightarrow> Some (False, s)
        | p # ps \<Rightarrow> map_option (Pair True) (RunTask at p (s\<lparr>deferred_queue := ps\<rparr>)))"

section \<open>Work\<close>

text \<open>\<open>DoWork\<close>: the check at its beginning, and one round of its loops.\<close>

definition DoWork_begin :: "int \<Rightarrow> bool \<Rightarrow> 't loop_state \<Rightarrow> 't loop_state" where
  "DoWork_begin d q s = set_top (Pumping d q (if \<not> nestable_allowed s then AfterWork False else InWork)) s"

definition DoWork_round :: "int \<Rightarrow> bool \<Rightarrow> 't loop_state \<Rightarrow> 't loop_state option" where
  "DoWork_round d q s = (let s1 = ReloadWorkQueue s in
     case work_queue s1 of
       [] \<Rightarrow> Some (set_top (Pumping d q (AfterWork False)) s1)
     | p # ps \<Rightarrow>
         (let s2 = s1\<lparr>work_queue := ps\<rparr> in
          if \<not> is_null (delayed_run_time p)
          then (let s3 = AddToDelayedWorkQueue p s2 in
            Some (if the_task (queue_top (delayed_work_queue s3)) = the_task p
              then ScheduleDelayedWork (delayed_run_time p) s3 else s3))
          else map_option snd (DeferOrRunPendingTask (AfterWork True) p s2)))"

text \<open>\<open>did\<close> is what \<open>did_work\<close> was before the call. The time it reports goes to the pump.\<close>

definition DoDelayedWork :: "int \<Rightarrow> bool \<Rightarrow> bool \<Rightarrow> 't loop_state \<Rightarrow> 't loop_state option" where
  "DoDelayedWork d q did s =
     (if \<not> nestable_allowed s \<or> delayed_work_queue s = []
      then Some (set_top (Pumping d q (AfterDelayed did)) (s\<lparr>recent_time := 0, delayed_work_time := 0\<rparr>))
      else (let next_run_time = delayed_run_time (queue_top (delayed_work_queue s));
                s1 = (if sint next_run_time > sint (recent_time s) then s\<lparr>recent_time := loop_clock s\<rparr> else s)
        in if sint next_run_time > sint (recent_time s1)
           then Some (set_top (Pumping d q (AfterDelayed did)) (s1\<lparr>delayed_work_time := next_run_time\<rparr>))
           else (let p = queue_top (delayed_work_queue s1);
                     s2 = s1\<lparr>delayed_work_queue := queue_pop (delayed_work_queue s1)\<rparr>;
                     s3 = (if delayed_work_queue s2 \<noteq> []
                       then s2\<lparr>delayed_work_time := delayed_run_time (queue_top (delayed_work_queue s2))\<rparr> else s2)
                 in do {
                   (was_run, s4) \<leftarrow> DeferOrRunPendingTask (AfterDelayed True) p s3;
                   Some (if was_run then s4 else set_top (Pumping d q (AfterDelayed did)) s4) })))"

definition DoIdleWork :: "int \<Rightarrow> bool \<Rightarrow> 't loop_state \<Rightarrow> 't loop_state option" where
  "DoIdleWork d q s = do {
     (was_run, s1) \<leftarrow> ProcessNextDelayedNonNestableTask (AfterIdle True) s;
     Some (if was_run then s1
       else set_top (Pumping d q (AfterIdle False)) (if q then Pump_Quit s1 else s1)) }"

text \<open>The end of the loop of the pump: wait for the event, until the time of the next delayed task at most.\<close>

definition pump_wait :: "int \<Rightarrow> bool \<Rightarrow> 't loop_state \<Rightarrow> 't loop_state" where
  "pump_wait d q s =
     (if is_null (delayed_work_time s) then set_top (Pumping d q (Blocked None)) s
      else if sint (delayed_work_time s - loop_clock s) > 0
      then set_top (Pumping d q (Blocked (Some (delayed_work_time s)))) s
      else set_top (Pumping d q BeforeWork) (s\<lparr>delayed_work_time := 0\<rparr>))"

definition pump_woken :: "int \<Rightarrow> bool \<Rightarrow> 't loop_state \<Rightarrow> 't loop_state option" where
  "pump_woken d q s = (if wake_event s
     then Some (set_top (Pumping d q BeforeWork) (s\<lparr>wake_event := False\<rparr>)) else None)"

text \<open>\<open>break\<close>: the run of the pump returns to the task that started it, or leaves the outermost loop.\<close>

definition pump_break :: "'t loop_state \<Rightarrow> 't loop_state" where
  "pump_break s = s\<lparr>keep_running := True, loop_stack := tl (loop_stack s)\<rparr>"

text \<open>The next step of the thread of the loop, when it is in the pump.\<close>

definition pump_step :: "'t loop_state \<Rightarrow> 't loop_state option" where
  "pump_step s = (case loop_stack s of
     Pumping d q at # fs \<Rightarrow> (case at of
         BeforeWork \<Rightarrow> Some (DoWork_begin d q s)
       | InWork \<Rightarrow> DoWork_round d q s
       | AfterWork did \<Rightarrow> (if \<not> keep_running s then Some (pump_break s) else DoDelayedWork d q did s)
       | AfterDelayed did \<Rightarrow> (if \<not> keep_running s then Some (pump_break s)
           else if did then Some (set_top (Pumping d q BeforeWork) s) else DoIdleWork d q s)
       | AfterIdle did \<Rightarrow> (if \<not> keep_running s then Some (pump_break s)
           else Some (set_top (Pumping d q (if did then BeforeWork else BeforeWait)) s))
       | BeforeWait \<Rightarrow> Some (pump_wait d q s)
       | Blocked t \<Rightarrow> pump_woken d q s)
   | _ \<Rightarrow> None)"

section \<open>Starting and leaving loops\<close>

text \<open>\<open>AutoRunState\<close> and the start of the pump; \<open>quit\<close> is set by \<open>RunAllPending\<close>.\<close>

definition AutoRunState :: "bool \<Rightarrow> 't loop_state \<Rightarrow> 't loop_state option" where
  "AutoRunState quit s = (if \<not> keep_running s then None
     else (let depth = (case loop_stack s of InTask t # Pumping d q at # fs \<Rightarrow> d + 1 | _ \<Rightarrow> 1) in
       Some (s\<lparr>loop_stack := Pumping depth quit BeforeWork # loop_stack s\<rparr>)))"

definition Run :: "'t loop_state \<Rightarrow> 't loop_state option" where
  "Run s = AutoRunState False s"

definition RunAllPending :: "'t loop_state \<Rightarrow> 't loop_state option" where
  "RunAllPending s = AutoRunState True s"

definition Quit :: "'t loop_state \<Rightarrow> 't loop_state option" where
  "Quit s = (case loop_stack s of
     InTask t # Pumping d q at # fs \<Rightarrow> Some (s\<lparr>loop_stack := InTask t # Pumping d True at # fs\<rparr>)
   | _ \<Rightarrow> None)"

definition QuitNow :: "'t loop_state \<Rightarrow> 't loop_state option" where
  "QuitNow s = (case loop_stack s of InTask t # Pumping d q at # fs \<Rightarrow> Some (Pump_Quit s) | _ \<Rightarrow> None)"

definition IsNested :: "'t loop_state \<Rightarrow> bool" where
  "IsNested s \<longleftrightarrow> run_depth s > 1"

section \<open>Destruction\<close>

text \<open>
  The tasks deleted in one pass, in order, and the state; \<open>checker\<close> says that the build or the run checks
  for leaks, and otherwise the tasks that are not delayed are left alone.
\<close>

fun delete_work :: "bool \<Rightarrow> 't loop_state \<Rightarrow> 't pending_task list \<Rightarrow> 't list \<times> 't loop_state" where
  "delete_work checker s [] = ([], s\<lparr>work_queue := []\<rparr>)"
| "delete_work checker s (p # ps) =
     (if \<not> is_null (delayed_run_time p) then delete_work checker (AddToDelayedWorkQueue p s) ps
      else (case delete_work checker s ps of (ts, s1) \<Rightarrow> (if checker then the_task p # ts else ts, s1)))"

function delete_delayed :: "'t pending_task list \<Rightarrow> 't list" where
  "delete_delayed ps = (if ps = [] then [] else the_task (queue_top ps) # delete_delayed (queue_pop ps))"
  by pat_completeness auto

lemma queue_top_in: "ps \<noteq> [] \<Longrightarrow> queue_top ps \<in> set ps"
  by (induction ps rule: queue_top.induct) (auto split: if_splits)

lemma queue_pop_length [simp]: "ps \<noteq> [] \<Longrightarrow> length (queue_pop ps) < length ps"
  by (simp add: queue_pop_def length_remove1 queue_top_in)

termination delete_delayed
  by (relation "measure length") simp_all

declare delete_delayed.simps [simp del]

definition DeletePendingTasks :: "bool \<Rightarrow> 't loop_state \<Rightarrow> bool \<times> 't list \<times> 't loop_state" where
  "DeletePendingTasks checker s = (case delete_work checker s (work_queue s) of (ts, s1) \<Rightarrow>
     (work_queue s \<noteq> [] \<or> deferred_queue s1 \<noteq> [] \<or> delayed_work_queue s1 \<noteq> [],
      ts @ (if checker then map the_task (deferred_queue s1) else []) @ delete_delayed (delayed_work_queue s1),
      s1\<lparr>deferred_queue := [], delayed_work_queue := []\<rparr>))"

text \<open>
  The destructor: at most a hundred rounds of two passes each, as long as something was deleted. What the
  destructors of tasks post is the function \<open>posts\<close> of the tasks deleted in a pass. \<open>None\<close> is the failed
  check at the end.
\<close>

definition delete_pass :: "bool \<Rightarrow> ('t list \<Rightarrow> 't pending_task list) \<Rightarrow> 't loop_state \<Rightarrow> bool \<times> 't list \<times> 't loop_state" where
  "delete_pass checker posts s = (case DeletePendingTasks checker s of (did, ts, s1) \<Rightarrow>
     (did, ts, s1\<lparr>incoming_queue := incoming_queue s1 @ posts ts\<rparr>))"

fun delete_rounds :: "nat \<Rightarrow> bool \<Rightarrow> ('t list \<Rightarrow> 't pending_task list) \<Rightarrow> 't loop_state \<Rightarrow> 't list \<Rightarrow> ('t list \<times> 't loop_state) option" where
  "delete_rounds 0 checker posts s deleted = None"
| "delete_rounds (Suc n) checker posts s deleted =
     (case delete_pass checker posts s of (did1, ts1, s1) \<Rightarrow>
      case delete_pass checker posts (ReloadWorkQueue s1) of (did2, ts2, s2) \<Rightarrow>
        (if did2 then delete_rounds n checker posts s2 (deleted @ ts1 @ ts2)
         else Some (deleted @ ts1 @ ts2, s2)))"

definition MessageLoop_destroy :: "bool \<Rightarrow> ('t list \<Rightarrow> 't pending_task list) \<Rightarrow> 't loop_state \<Rightarrow> ('t list \<times> 't loop_state) option" where
  "MessageLoop_destroy checker posts s =
     (if loop_stack s \<noteq> [] then None else delete_rounds 100 checker posts s [])"

section \<open>Interleavings\<close>

datatype 't loop_event = Post 't int bool | PostSignals | Tick u64 | PumpStep | TimedOut
  | CallRun | CallRunAllPending | CallQuit | CallQuitNow | CallAllow bool | TaskReturns

definition in_task :: "'t loop_state \<Rightarrow> bool" where
  "in_task s = (case loop_stack s of InTask t # fs \<Rightarrow> True | _ \<Rightarrow> False)"

text \<open>A timed wait may end without the event; the loop is run from outside or from a task.\<close>

definition message_loop_step :: "'t loop_event \<Rightarrow> 't loop_state \<Rightarrow> 't loop_state option" where
  "message_loop_step e s = (case e of
     Post t delay nest \<Rightarrow> (if nest then PostDelayedTask t delay s else PostNonNestableDelayedTask t delay s)
   | PostSignals \<Rightarrow> finish_post s
   | Tick t \<Rightarrow> (if sint (loop_clock s) \<le> sint t then Some (s\<lparr>loop_clock := t\<rparr>) else None)
   | PumpStep \<Rightarrow> pump_step s
   | TimedOut \<Rightarrow> (case loop_stack s of
       Pumping d q (Blocked (Some t)) # fs \<Rightarrow> Some (set_top (Pumping d q BeforeWork) s) | _ \<Rightarrow> None)
   | CallRun \<Rightarrow> (if loop_stack s = [] \<or> in_task s then Run s else None)
   | CallRunAllPending \<Rightarrow> (if loop_stack s = [] \<or> in_task s then RunAllPending s else None)
   | CallQuit \<Rightarrow> Quit s
   | CallQuitNow \<Rightarrow> QuitNow s
   | CallAllow b \<Rightarrow> (if in_task s then Some (SetNestableTasksAllowed b s) else None)
   | TaskReturns \<Rightarrow> end_task s)"

fun message_loop_run :: "'t loop_event list \<Rightarrow> 't loop_state \<Rightarrow> 't loop_state option" where
  "message_loop_run [] s = Some s"
| "message_loop_run (e # es) s = Option.bind (message_loop_step e s) (message_loop_run es)"

interpretation loop: machine message_loop_step message_loop_run
  by unfold_locales simp_all

end
