(* ===== verification/MessageLoopProps.thy ===== *)
theory MessageLoopProps imports MessageLoop "HOL-Library.Multiset" begin

text \<open>
  What a message loop promises. The queues and the logs of a state are its view; every step of the thread
  of the loop and of the posting threads is a few small steps of an abstract machine that only moves tasks
  between queues (a refinement), and the properties of the tasks are invariants of that machine. The pump
  is treated after it: it fails no check, and it sleeps only when there is nothing to run.
\<close>

section \<open>The abstract machine\<close>

record 't tasks =
  arriving :: "'t pending_task list"
  waiting_work :: "'t pending_task list"
  delayed :: "'t pending_task list"
  deferred :: "'t pending_task list"
  started :: "'t started_task list"
  posted :: "'t pending_task list"
  now :: u64

definition tasks_of :: "'t loop_state \<Rightarrow> 't tasks" where
  "tasks_of s = \<lparr>arriving = incoming_queue s, waiting_work = work_queue s, delayed = delayed_work_queue s,
     deferred = deferred_queue s, started = started_log s, posted = posted_log s, now = loop_clock s\<rparr>"

definition due :: "u64 \<Rightarrow> 't pending_task \<Rightarrow> bool" where
  "due t p \<longleftrightarrow> sint (delayed_run_time p) \<le> sint t"

definition runs_at :: "'t pending_task \<Rightarrow> int \<Rightarrow> 't tasks \<Rightarrow> 't tasks" where
  "runs_at p d v = v\<lparr>started := started v @ [\<lparr>start_of = p, start_depth = d, start_clock = now v\<rparr>]\<rparr>"

inductive task_step :: "'t tasks \<Rightarrow> 't tasks \<Rightarrow> bool" where
  post: "sequence_num p = 0 \<Longrightarrow> task_step v (v\<lparr>arriving := arriving v @ [p], posted := posted v @ [p]\<rparr>)"
| tick: "sint (now v) \<le> sint t \<Longrightarrow> task_step v (v\<lparr>now := t\<rparr>)"
| reload: "waiting_work v = [] \<Longrightarrow> task_step v (v\<lparr>waiting_work := arriving v, arriving := []\<rparr>)"
| delay: "waiting_work v = p # ps \<Longrightarrow> delayed_run_time p \<noteq> 0 \<Longrightarrow>
    task_step v (v\<lparr>waiting_work := ps, delayed := delayed v @ [p\<lparr>sequence_num := n\<rparr>]\<rparr>)"
| run_work: "waiting_work v = p # ps \<Longrightarrow> delayed_run_time p = 0 \<Longrightarrow> nestable p \<or> d = 1 \<Longrightarrow>
    task_step v (runs_at p d (v\<lparr>waiting_work := ps\<rparr>))"
| defer_work: "waiting_work v = p # ps \<Longrightarrow> delayed_run_time p = 0 \<Longrightarrow> \<not> nestable p \<Longrightarrow>
    task_step v (v\<lparr>waiting_work := ps, deferred := deferred v @ [p]\<rparr>)"
| run_delayed: "delayed v \<noteq> [] \<Longrightarrow> p = queue_top (delayed v) \<Longrightarrow> due (now v) p \<Longrightarrow> nestable p \<or> d = 1 \<Longrightarrow>
    task_step v (runs_at p d (v\<lparr>delayed := queue_pop (delayed v)\<rparr>))"
| defer_delayed: "delayed v \<noteq> [] \<Longrightarrow> p = queue_top (delayed v) \<Longrightarrow> due (now v) p \<Longrightarrow> \<not> nestable p \<Longrightarrow>
    task_step v (v\<lparr>delayed := queue_pop (delayed v), deferred := deferred v @ [p]\<rparr>)"
| run_deferred: "deferred v = p # ps \<Longrightarrow> task_step v (runs_at p 1 (v\<lparr>deferred := ps\<rparr>))"

inductive_cases task_step_cases: "task_step v w"

text \<open>What the refinement needs of the clock readings.\<close>

definition clock_ok :: "'t loop_state \<Rightarrow> bool" where
  "clock_ok s \<longleftrightarrow> 0 \<le> sint (loop_clock s) \<and> sint (recent_time s) \<le> sint (loop_clock s)"

lemma tasks_of_simps [simp]:
  "arriving (tasks_of s) = incoming_queue s" "waiting_work (tasks_of s) = work_queue s"
  "delayed (tasks_of s) = delayed_work_queue s" "deferred (tasks_of s) = deferred_queue s"
  "started (tasks_of s) = started_log s" "posted (tasks_of s) = posted_log s" "now (tasks_of s) = loop_clock s"
  by (simp_all add: tasks_of_def)

lemma same_tasks:
  "tasks_of (set_top f s) = tasks_of s" "tasks_of (ScheduleDelayedWork t s) = tasks_of s"
  "tasks_of (ScheduleWork s) = tasks_of s" "tasks_of (Pump_Quit s) = tasks_of s" "tasks_of (pump_break s) = tasks_of s"
  "tasks_of (DoWork_begin d q s) = tasks_of s" "tasks_of (SetNestableTasksAllowed b s) = tasks_of s"
  "tasks_of (pump_wait d q s) = tasks_of s"
  by (simp_all add: tasks_of_def set_top_def ScheduleDelayedWork_def ScheduleWork_def Pump_Quit_def pump_break_def
    DoWork_begin_def SetNestableTasksAllowed_def pump_wait_def Let_def)

lemma same_clock:
  "clock_ok (set_top f s) = clock_ok s" "clock_ok (ScheduleDelayedWork t s) = clock_ok s"
  "clock_ok (ScheduleWork s) = clock_ok s" "clock_ok (Pump_Quit s) = clock_ok s" "clock_ok (pump_break s) = clock_ok s"
  "clock_ok (DoWork_begin d q s) = clock_ok s" "clock_ok (SetNestableTasksAllowed b s) = clock_ok s"
  "clock_ok (pump_wait d q s) = clock_ok s" "clock_ok (ReloadWorkQueue s) = clock_ok s"
  "clock_ok (AddToDelayedWorkQueue p s) = clock_ok s"
  by (simp_all add: clock_ok_def set_top_def ScheduleDelayedWork_def ScheduleWork_def Pump_Quit_def pump_break_def
    DoWork_begin_def SetNestableTasksAllowed_def pump_wait_def Let_def ReloadWorkQueue_def AddToDelayedWorkQueue_def)

section \<open>The refinement\<close>

lemma RunTask_tasks:
  assumes "RunTask at p s = Some s'" "loop_stack s = Pumping d q at0 # fs"
  shows "tasks_of s' = runs_at p d (tasks_of s)" "clock_ok s' = clock_ok s"
  using assms by (auto simp: RunTask_def tasks_of_def runs_at_def clock_ok_def split: if_splits)

lemma Defer_tasks:
  assumes "DeferOrRunPendingTask at p s = Some (was_run, s')" "loop_stack s = Pumping d q at0 # fs"
  shows "clock_ok s' = clock_ok s"
    and "was_run \<and> (nestable p \<or> d = 1) \<and> tasks_of s' = runs_at p d (tasks_of s) \<or>
      \<not> was_run \<and> \<not> nestable p \<and> tasks_of s' = (tasks_of s)\<lparr>deferred := deferred (tasks_of s) @ [p]\<rparr>"
  using assms RunTask_tasks [of at p s _ d q at0 fs]
  by (auto simp: DeferOrRunPendingTask_def run_depth_def clock_ok_def tasks_of_def split: if_splits)

lemma reload_tasks: "task_step\<^sup>*\<^sup>* (tasks_of s) (tasks_of (ReloadWorkQueue s))"
proof (cases "work_queue s = [] \<and> incoming_queue s \<noteq> []")
  case True
  then have "tasks_of (ReloadWorkQueue s) = (tasks_of s)\<lparr>waiting_work := arriving (tasks_of s), arriving := []\<rparr>"
    by (simp add: ReloadWorkQueue_def tasks_of_def)
  with task_step.reload [of "tasks_of s"] True show ?thesis by (simp add: r_into_rtranclp)
next
  case False
  then have "ReloadWorkQueue s = s" by (auto simp: ReloadWorkQueue_def)
  then show ?thesis by simp
qed

lemma round_tasks:
  assumes "DoWork_round d q s = Some s'" "loop_stack s = Pumping d q at # fs"
  shows "clock_ok s' = clock_ok s \<and> task_step\<^sup>*\<^sup>* (tasks_of s) (tasks_of s')"
proof -
  define s1 where "s1 = ReloadWorkQueue s"
  have st: "loop_stack s1 = Pumping d q at # fs" using assms(2) by (simp add: s1_def ReloadWorkQueue_def)
  have c: "clock_ok s1 = clock_ok s" by (simp add: s1_def same_clock)
  have "clock_ok s' = clock_ok s1 \<and> task_step\<^sup>*\<^sup>* (tasks_of s1) (tasks_of s')"
  proof (cases "work_queue s1")
    case Nil
    with assms(1) show ?thesis by (auto simp: DoWork_round_def same_tasks same_clock simp flip: s1_def)
  next
    case (Cons p ps)
    define s2 where "s2 = s1\<lparr>work_queue := ps\<rparr>"
    have c2: "clock_ok s2 = clock_ok s1" by (simp add: s2_def clock_ok_def)
    have v2: "tasks_of s2 = (tasks_of s1)\<lparr>waiting_work := ps\<rparr>" by (simp add: s2_def tasks_of_def)
    show ?thesis
    proof (cases "delayed_run_time p = 0")
      case True
      with assms(1) Cons obtain was_run where was_run: "DeferOrRunPendingTask (AfterWork True) p s2 = Some (was_run, s')"
        by (auto simp: DoWork_round_def s2_def is_null_def simp flip: s1_def)
      have st2: "loop_stack s2 = Pumping d q at # fs" using st by (simp add: s2_def)
      have "task_step (tasks_of s1) (tasks_of s')"
        using Defer_tasks(2) [OF was_run st2] Cons True run_work [of "tasks_of s1" p ps d] defer_work [of "tasks_of s1" p ps]
        by (auto simp: v2)
      with Defer_tasks(1) [OF was_run st2] show ?thesis by (auto simp: c2)
    next
      case False
      with assms(1) Cons have s': "tasks_of s' = tasks_of (AddToDelayedWorkQueue p s2)" "clock_ok s' = clock_ok s2"
        by (auto simp: DoWork_round_def s2_def is_null_def same_tasks same_clock Let_def simp flip: s1_def split: if_splits)
      have "tasks_of (AddToDelayedWorkQueue p s2) = (tasks_of s1)\<lparr>waiting_work := ps,
          delayed := delayed (tasks_of s1) @ [p\<lparr>sequence_num := next_sequence_num s2\<rparr>]\<rparr>"
        by (simp add: tasks_of_def AddToDelayedWorkQueue_def s2_def)
      with task_step.delay [of "tasks_of s1" p ps "next_sequence_num s2"] Cons False
      show ?thesis by (auto simp: s' c2)
    qed
  qed
  with reload_tasks [of s] show ?thesis by (auto simp: c simp flip: s1_def)
qed

lemma delayed_tasks:
  assumes "DoDelayedWork d q did s = Some s'" "loop_stack s = Pumping d q at # fs" "clock_ok s"
  shows "clock_ok s' \<and> task_step\<^sup>*\<^sup>* (tasks_of s) (tasks_of s')"
proof (cases "\<not> nestable_allowed s \<or> delayed_work_queue s = []")
  case True
  with assms show ?thesis
    by (auto simp: DoDelayedWork_def clock_ok_def tasks_of_def set_top_def)
next
  case False
  define p where "p = queue_top (delayed_work_queue s)"
  define s1 where "s1 = (if sint (delayed_run_time p) > sint (recent_time s) then s\<lparr>recent_time := loop_clock s\<rparr> else s)"
  have v1: "tasks_of s1 = tasks_of s" "clock_ok s1" "loop_stack s1 = loop_stack s" "delayed_work_queue s1 = delayed_work_queue s"
    using assms(3) by (auto simp: s1_def tasks_of_def clock_ok_def)
  show ?thesis
  proof (cases "sint (delayed_run_time p) > sint (recent_time s1)")
    case True
    with False assms(1) have "tasks_of s' = tasks_of s1" "clock_ok s' = clock_ok s1"
      by (auto simp: DoDelayedWork_def Let_def clock_ok_def tasks_of_def set_top_def simp flip: p_def s1_def)
    with v1 show ?thesis by simp
  next
    case ready: False
    define s3 where "s3 = (let s2 = s1\<lparr>delayed_work_queue := queue_pop (delayed_work_queue s1)\<rparr> in
      if delayed_work_queue s2 \<noteq> [] then s2\<lparr>delayed_work_time := delayed_run_time (queue_top (delayed_work_queue s2))\<rparr> else s2)"
    have v3: "tasks_of s3 = (tasks_of s)\<lparr>delayed := queue_pop (delayed (tasks_of s))\<rparr>" "clock_ok s3" "loop_stack s3 = Pumping d q at # fs"
      using v1 assms(2) by (auto simp: s3_def Let_def tasks_of_def clock_ok_def)
    have "Option.bind (DeferOrRunPendingTask (AfterDelayed True) p s3) (\<lambda>(was_run, s4).
        Some (if was_run then s4 else set_top (Pumping d q (AfterDelayed did)) s4)) = Some s'"
      using False ready assms(1) by (auto simp: DoDelayedWork_def v1(4) Let_def s3_def simp flip: p_def s1_def)
    then obtain x where x: "DeferOrRunPendingTask (AfterDelayed True) p s3 = Some x"
      "s' = (if fst x then snd x else set_top (Pumping d q (AfterDelayed did)) (snd x))"
      unfolding bind_eq_Some_conv by (auto simp: split_beta)
    obtain was_run s4 where r: "DeferOrRunPendingTask (AfterDelayed True) p s3 = Some (was_run, s4)"
      "s' = (if was_run then s4 else set_top (Pumping d q (AfterDelayed did)) s4)"
      using x by (cases x) simp
    have "due (loop_clock s) p" using ready v1(2) by (auto simp: due_def clock_ok_def s1_def split: if_splits)
    then have "task_step (tasks_of s) (tasks_of s')"
      using False Defer_tasks(2) [OF r(1) v3(3)] run_delayed [of "tasks_of s" p d] defer_delayed [of "tasks_of s" p]
      by (auto simp: r(2) v3(1) same_tasks p_def)
    with Defer_tasks(1) [OF r(1) v3(3)] v3(2) show ?thesis by (auto simp: r(2) same_clock)
  qed
qed

lemma idle_tasks:
  assumes "DoIdleWork d q s = Some s'" "loop_stack s = Pumping d q at # fs"
  shows "clock_ok s' = clock_ok s \<and> task_step\<^sup>*\<^sup>* (tasks_of s) (tasks_of s')"
proof (cases "d = 1 \<and> deferred_queue s \<noteq> []")
  case True
  then obtain p ps where p: "deferred_queue s = p # ps" by (cases "deferred_queue s") auto
  define s1 where "s1 = s\<lparr>deferred_queue := ps\<rparr>"
  have s1: "loop_stack s1 = Pumping 1 q at # fs" "tasks_of s1 = (tasks_of s)\<lparr>deferred := ps\<rparr>" "clock_ok s1 = clock_ok s"
    using assms(2) True by (simp_all add: s1_def tasks_of_def clock_ok_def)
  have "RunTask (AfterIdle True) p s1 = Some s'"
    using assms True p by (auto simp: DoIdleWork_def ProcessNextDelayedNonNestableTask_def run_depth_def s1_def bind_eq_Some_conv)
  from RunTask_tasks [OF this s1(1)] s1 run_deferred [of "tasks_of s" p ps] p show ?thesis by auto
next
  case False
  with assms show ?thesis
    by (auto simp: DoIdleWork_def ProcessNextDelayedNonNestableTask_def run_depth_def same_tasks same_clock split: list.splits if_splits)
qed

lemma pump_tasks:
  assumes "pump_step s = Some s'" "clock_ok s"
  shows "clock_ok s' \<and> task_step\<^sup>*\<^sup>* (tasks_of s) (tasks_of s')"
proof -
  from assms(1) obtain d q at fs where st: "loop_stack s = Pumping d q at # fs"
    by (auto simp: pump_step_def split: list.splits call_frame.splits)
  show ?thesis
  proof (cases at)
    case InWork
    with assms st round_tasks [of d q s s' at fs] show ?thesis by (simp add: pump_step_def)
  next
    case (AfterWork did)
    with assms st delayed_tasks [of d q did s s' at fs] show ?thesis
      by (auto simp: pump_step_def same_tasks same_clock split: if_splits)
  next
    case (AfterDelayed did)
    with assms st idle_tasks [of d q s s' at fs] show ?thesis
      by (auto simp: pump_step_def same_tasks same_clock split: if_splits)
  next
    case (Blocked t)
    with assms st show ?thesis
      by (auto simp: pump_step_def pump_woken_def tasks_of_def clock_ok_def set_top_def split: if_splits)
  qed (use assms st in \<open>auto simp: pump_step_def same_tasks same_clock split: if_splits\<close>)
qed

lemma start_tasks:
  "AutoRunState quit s = Some s' \<Longrightarrow> tasks_of s' = tasks_of s \<and> clock_ok s' = clock_ok s"
  by (auto simp: AutoRunState_def tasks_of_def clock_ok_def Let_def split: if_splits)

lemma call_tasks:
  assumes "message_loop_step e s = Some s'" "\<And>t delay nest. e \<noteq> Post t delay nest" "\<And>t. e \<noteq> Tick t" "e \<noteq> PumpStep"
  shows "tasks_of s' = tasks_of s \<and> clock_ok s' = clock_ok s"
proof (cases e)
  case CallRun
  with assms(1) show ?thesis by (auto simp: message_loop_step_def Run_def start_tasks split: if_splits)
next
  case CallRunAllPending
  with assms(1) show ?thesis by (auto simp: message_loop_step_def RunAllPending_def start_tasks split: if_splits)
qed (use assms in \<open>auto simp: message_loop_step_def finish_post_def Quit_def QuitNow_def end_task_def same_tasks
  same_clock tasks_of_def clock_ok_def set_top_def ScheduleWork_def Pump_Quit_def SetNestableTasksAllowed_def Let_def
  split: if_splits list.splits call_frame.splits pump_at.splits option.splits\<close>)

lemma step_tasks:
  assumes "message_loop_step e s = Some s'" "clock_ok s"
  shows "clock_ok s' \<and> task_step\<^sup>*\<^sup>* (tasks_of s) (tasks_of s')"
proof (cases e)
  case (Post t delay nest)
  define p where "p = \<lparr>the_task = t, delayed_run_time =
    if delay > 0 then loop_clock s + word_of_int (delay * 1000) else 0, sequence_num = 0, nestable = nest\<rparr>"
  from Post assms have "sequence_num p = 0" "clock_ok s'"
    "tasks_of s' = (tasks_of s)\<lparr>arriving := arriving (tasks_of s) @ [p], posted := posted (tasks_of s) @ [p]\<rparr>"
    by (auto simp: message_loop_step_def PostDelayedTask_def PostNonNestableDelayedTask_def PostTask_Helper_def Let_def tasks_of_def clock_ok_def p_def split: if_splits)
  with task_step.post [of p "tasks_of s"] show ?thesis by auto
next
  case (Tick t)
  with assms have "clock_ok s'" "tasks_of s' = (tasks_of s)\<lparr>now := t\<rparr>" "sint (now (tasks_of s)) \<le> sint t"
    by (auto simp: message_loop_step_def tasks_of_def clock_ok_def split: if_splits)
  with task_step.tick [of "tasks_of s" t] show ?thesis by auto
next
  case PumpStep
  with assms pump_tasks show ?thesis by (simp add: message_loop_step_def)
qed (use assms call_tasks [OF assms(1)] in simp_all)

section \<open>Every posted task\<close>

definition strip :: "'t pending_task \<Rightarrow> 't pending_task" where
  "strip p = p\<lparr>sequence_num := 0\<rparr>"

definition immediate :: "'t pending_task \<Rightarrow> bool" where
  "immediate p \<longleftrightarrow> nestable p \<and> delayed_run_time p = 0"

definition accounted :: "'t tasks \<Rightarrow> bool" where
  "accounted v \<longleftrightarrow> mset (map strip (posted v)) = mset (map (\<lambda>x. strip (start_of x)) (started v)) +
     mset (map strip (arriving v @ waiting_work v @ delayed v @ deferred v))"

definition in_order :: "'t tasks \<Rightarrow> bool" where
  "in_order v \<longleftrightarrow> filter immediate (posted v) =
     filter immediate (map start_of (started v)) @ filter immediate (waiting_work v) @ filter immediate (arriving v) \<and>
   (\<forall>p \<in> set (delayed v). delayed_run_time p \<noteq> 0) \<and> (\<forall>p \<in> set (deferred v). \<not> nestable p)"

definition timely :: "'t tasks \<Rightarrow> bool" where
  "timely v \<longleftrightarrow> (\<forall>x \<in> set (started v). (delayed_run_time (start_of x) \<noteq> 0 \<longrightarrow> due (start_clock x) (start_of x)) \<and>
     (\<not> nestable (start_of x) \<longrightarrow> start_depth x = 1)) \<and>
   (\<forall>p \<in> set (deferred v). \<not> nestable p \<and> (delayed_run_time p \<noteq> 0 \<longrightarrow> due (now v) p))"

lemma strip_sequence [simp]: "strip (p\<lparr>sequence_num := n\<rparr>) = strip p"
  by (simp add: strip_def)

lemma mset_queue_pop:
  assumes "ps \<noteq> []"
  shows "image_mset strip (mset ps) = add_mset (strip (queue_top ps)) (image_mset strip (mset (queue_pop ps)))"
proof -
  have "mset ps = add_mset (queue_top ps) (mset (queue_pop ps))"
    using queue_top_in [OF assms] by (simp add: queue_pop_def)
  then show ?thesis by (metis image_mset_add_mset)
qed

lemma accounted_step: "task_step v w \<Longrightarrow> accounted v \<Longrightarrow> accounted w"
  by (induction rule: task_step.induct) (auto simp: accounted_def runs_at_def mset_queue_pop)

lemma in_order_step:
  assumes "task_step v w" "in_order v"
  shows "in_order w"
  using assms
proof (induction rule: task_step.induct)
  case (run_delayed v p d)
  then have "delayed_run_time p \<noteq> 0" using queue_top_in by (auto simp: in_order_def)
  with run_delayed show ?case
    by (auto simp: in_order_def runs_at_def immediate_def queue_pop_def dest: set_remove1_subset [THEN subsetD])
next
  case (defer_delayed v p)
  then show ?case by (auto simp: in_order_def queue_pop_def dest: set_remove1_subset [THEN subsetD])
qed (auto simp: in_order_def runs_at_def immediate_def)

lemma timely_step: "task_step v w \<Longrightarrow> timely v \<Longrightarrow> timely w"
  by (induction rule: task_step.induct) (force simp: timely_def runs_at_def due_def)+

lemma steps_keep:
  assumes "task_step\<^sup>*\<^sup>* v w" "accounted v \<and> in_order v \<and> timely v"
  shows "accounted w \<and> in_order w \<and> timely w"
  using assms by (induction rule: rtranclp_induct) (blast intro: accounted_step in_order_step timely_step)+

lemma run_tasks:
  assumes "message_loop_run es MessageLoop_new = Some s"
  shows "clock_ok s" "accounted (tasks_of s)" "in_order (tasks_of s)" "timely (tasks_of s)"
proof -
  have "clock_ok s \<and> task_step\<^sup>*\<^sup>* (tasks_of (MessageLoop_new :: 'a loop_state)) (tasks_of s)"
    by (rule loop.run_simulated [OF step_tasks assms]) (simp_all add: clock_ok_def MessageLoop_new_def)
  moreover have "accounted (tasks_of MessageLoop_new) \<and> in_order (tasks_of MessageLoop_new) \<and> timely (tasks_of MessageLoop_new)"
    by (simp add: accounted_def in_order_def timely_def MessageLoop_new_def)
  ultimately show "clock_ok s" "accounted (tasks_of s)" "in_order (tasks_of s)" "timely (tasks_of s)"
    using steps_keep by blast+
qed

section \<open>The pump\<close>

definition resumes :: "pump_at \<Rightarrow> bool" where
  "resumes at \<longleftrightarrow> at = AfterWork True \<or> at = AfterDelayed True \<or> at = AfterIdle True"

fun stack_fine :: "'t call_frame list \<Rightarrow> bool" where
  "stack_fine [] = True"
| "stack_fine [Pumping d q at] = (d = 1)"
| "stack_fine (Pumping d q at # InTask t # Pumping d' q' at' # fs) =
     (d = d' + 1 \<and> resumes at' \<and> stack_fine (Pumping d' q' at' # fs))"
| "stack_fine (InTask t # Pumping d q at # fs) = (resumes at \<and> stack_fine (Pumping d q at # fs))"
| "stack_fine _ = False"

text \<open>The pump is going to look at the queue of posted tasks before it sleeps.\<close>

definition looks :: "pump_at \<Rightarrow> bool" where
  "looks at = (case at of BeforeWork \<Rightarrow> True | InWork \<Rightarrow> True | AfterWork did \<Rightarrow> did | AfterDelayed did \<Rightarrow> did
     | AfterIdle did \<Rightarrow> did | _ \<Rightarrow> False)"

definition next_time :: "'t loop_state \<Rightarrow> u64" where
  "next_time s = delayed_run_time (queue_top (delayed_work_queue s))"

text \<open>What the pump has made sure of on its way to sleep.\<close>

definition idle_at :: "int \<Rightarrow> pump_at \<Rightarrow> 't loop_state \<Rightarrow> bool" where
  "idle_at d at s =
     (let sleeps = (delayed_work_queue s = [] \<or> delayed_work_time s = next_time s);
          none_deferred = (d = 1 \<longrightarrow> deferred_queue s = []) in
      case at of
        AfterWork did \<Rightarrow> \<not> did \<longrightarrow> work_queue s = []
      | AfterDelayed did \<Rightarrow> \<not> did \<longrightarrow> work_queue s = [] \<and> sleeps
      | AfterIdle did \<Rightarrow> \<not> did \<longrightarrow> work_queue s = [] \<and> sleeps \<and> none_deferred
      | BeforeWait \<Rightarrow> work_queue s = [] \<and> sleeps \<and> none_deferred
      | Blocked t \<Rightarrow> work_queue s = [] \<and> (delayed_work_queue s = [] \<or> t = Some (next_time s)) \<and> none_deferred
      | _ \<Rightarrow> True)"

definition pump_ok :: "'t loop_state \<Rightarrow> bool" where
  "pump_ok s \<longleftrightarrow> stack_fine (loop_stack s) \<and> (\<forall>p \<in> set (delayed_work_queue s). delayed_run_time p \<noteq> 0) \<and>
     (case loop_stack s of
        [] \<Rightarrow> nestable_allowed s
      | Pumping d q at # fs \<Rightarrow> (d = 1 \<longrightarrow> nestable_allowed s) \<and> (at = InWork \<longrightarrow> nestable_allowed s) \<and>
          (nestable_allowed s \<longrightarrow> idle_at d at s \<and>
            (incoming_queue s = [] \<or> wake_event s \<or> 0 < scheduling s \<or> looks at))
      | InTask t # fs \<Rightarrow> True)"

lemma stack_depth: "stack_fine (Pumping d q at # fs) \<Longrightarrow> 1 \<le> d"
proof (induction "Pumping d q at # fs" arbitrary: d q at fs rule: stack_fine.induct)
qed force+

lemma stack_below:
  "stack_fine (Pumping d q at # fs) \<Longrightarrow> stack_fine (Pumping d q' at' # fs)"
  "stack_fine (Pumping d q at # fs) \<Longrightarrow> stack_fine fs"
  "stack_fine (Pumping d q at # fs) \<Longrightarrow> fs = [] \<or> (\<exists>t gs. fs = InTask t # gs)"
  "stack_fine (Pumping d q at # fs) \<Longrightarrow> resumes at' \<Longrightarrow> stack_fine (InTask t # Pumping d q at' # fs)"
  by (cases "Pumping d q at # fs" rule: stack_fine.cases; force)+

lemma stack_task:
  assumes "stack_fine (InTask t # fs)"
  obtains d q at gs where "fs = Pumping d q at # gs" "resumes at" "stack_fine fs"
  using assms by (cases "InTask t # fs" rule: stack_fine.cases) auto

lemma resumes_looks: "resumes at \<Longrightarrow> looks at" "resumes at \<Longrightarrow> idle_at d at s" "resumes at \<Longrightarrow> at \<noteq> InWork"
  by (auto simp: resumes_def looks_def idle_at_def)

lemma resumes_simps [simp]: "resumes (AfterWork True)" "resumes (AfterDelayed True)" "resumes (AfterIdle True)"
  by (simp_all add: resumes_def)

text \<open>Two ways for the state to be fine again: a task is on the stack, or the pump has moved.\<close>

lemma pump_ok_task:
  assumes "pump_ok s" "loop_stack s = Pumping d q at # fs" "loop_stack s' = InTask t # Pumping d q at' # fs" "resumes at'"
    "\<forall>p \<in> set (delayed_work_queue s'). delayed_run_time p \<noteq> 0"
  shows "pump_ok s'"
proof -
  have "stack_fine (InTask t # Pumping d q at' # fs)"
    by (rule stack_below(4) [of d q at, OF _ assms(4)]) (use assms(1,2) in \<open>simp add: pump_ok_def\<close>)
  with assms(3,5) show ?thesis by (simp add: pump_ok_def)
qed

lemma pump_ok_move:
  assumes "pump_ok s" "loop_stack s = Pumping d q at # fs" "loop_stack s' = Pumping d q' at' # fs"
    "\<forall>p \<in> set (delayed_work_queue s'). delayed_run_time p \<noteq> 0" "nestable_allowed s' = nestable_allowed s"
    "at' = InWork \<Longrightarrow> nestable_allowed s"
    "nestable_allowed s \<Longrightarrow> idle_at d at' s'"
    "nestable_allowed s \<Longrightarrow> incoming_queue s' = [] \<or> wake_event s' \<or> 0 < scheduling s' \<or> looks at'"
  shows "pump_ok s'"
proof -
  have "stack_fine (Pumping d q' at' # fs)"
    by (rule stack_below(1) [of d q at]) (use assms(1,2) in \<open>simp add: pump_ok_def\<close>)
  with assms show ?thesis by (simp add: pump_ok_def)
qed

lemma pump_ok_run:
  assumes "RunTask at' p s1 = Some s'" "loop_stack s1 = Pumping d q at0 # fs" "resumes at'" "stack_fine (loop_stack s1)"
    "\<forall>p \<in> set (delayed_work_queue s1). delayed_run_time p \<noteq> 0"
  shows "pump_ok s'"
proof -
  from assms(1,2) have s': "loop_stack s' = InTask (the_task p) # Pumping d q at' # fs" "delayed_work_queue s' = delayed_work_queue s1"
    by (auto simp: RunTask_def split: if_splits)
  have "stack_fine (InTask (the_task p) # Pumping d q at' # fs)"
    by (rule stack_below(4) [of d q at0, OF _ assms(3)]) (use assms(2,4) in simp)
  with s' assms(5) show ?thesis by (simp add: pump_ok_def)
qed

text \<open>The pump's own calls.\<close>

lemma round_pump:
  assumes "DoWork_round d q s = Some s'" "loop_stack s = Pumping d q InWork # fs" "pump_ok s"
  shows "pump_ok s'"
proof -
  define s1 where "s1 = ReloadWorkQueue s"
  have al: "nestable_allowed s" using assms(2,3) by (simp add: pump_ok_def)
  have s1: "loop_stack s1 = loop_stack s" "delayed_work_queue s1 = delayed_work_queue s" "nestable_allowed s1"
    "work_queue s1 = [] \<longrightarrow> incoming_queue s1 = []" "work_queue s1 \<noteq> [] \<longrightarrow> incoming_queue s1 = [] \<or> work_queue s \<noteq> [] \<and> s1 = s"
    using al by (auto simp: s1_def ReloadWorkQueue_def)
  have fine: "stack_fine (loop_stack s)" "\<forall>p \<in> set (delayed_work_queue s). delayed_run_time p \<noteq> 0"
    using assms(3) by (simp_all add: pump_ok_def)
  show ?thesis
  proof (cases "work_queue s1")
    case Nil
    with assms(1) have "s' = set_top (Pumping d q (AfterWork False)) s1"
      by (simp add: DoWork_round_def flip: s1_def)
    then show ?thesis
      using s1 Nil assms(2) fine al by (intro pump_ok_move [OF assms(3,2)]) (auto simp: set_top_def idle_at_def)
  next
    case (Cons p ps)
    show ?thesis
    proof (cases "delayed_run_time p = 0")
      case False
      define s3 where "s3 = AddToDelayedWorkQueue p (s1\<lparr>work_queue := ps\<rparr>)"
      from assms(1) Cons False have "s' = (if the_task (queue_top (delayed_work_queue s3)) = the_task p
          then ScheduleDelayedWork (delayed_run_time p) s3 else s3)"
        by (auto simp: DoWork_round_def is_null_def Let_def s3_def simp flip: s1_def)
      then show ?thesis using s1 assms(2) fine al False
        by (intro pump_ok_move [OF assms(3,2), of _ q InWork])
          (auto simp: s3_def AddToDelayedWorkQueue_def ScheduleDelayedWork_def idle_at_def looks_def)
    next
      case True
      define s2 where "s2 = s1\<lparr>work_queue := ps\<rparr>"
      from assms(1) Cons True obtain r where "DeferOrRunPendingTask (AfterWork True) p s2 = Some (r, s')"
        by (auto simp: DoWork_round_def is_null_def Let_def s2_def simp flip: s1_def)
      then consider "RunTask (AfterWork True) p s2 = Some s'" | "s' = s2\<lparr>deferred_queue := deferred_queue s2 @ [p]\<rparr>"
        by (auto simp: DeferOrRunPendingTask_def split: if_splits)
      then show ?thesis
      proof cases
        case 1
        show ?thesis by (rule pump_ok_run [OF 1]) (use s1 fine assms(2) in \<open>simp_all add: s2_def\<close>)
      next
        case 2
        then show ?thesis using s1 assms(2) fine al
          by (intro pump_ok_move [OF assms(3,2), of _ q InWork]) (auto simp: s2_def idle_at_def looks_def)
      qed
    qed
  qed
qed

lemma queue_pop_subset: "p \<in> set (queue_pop ps) \<Longrightarrow> p \<in> set ps"
  by (auto simp: queue_pop_def dest: set_remove1_subset [THEN subsetD])

text \<open>The three ways of \<open>DoDelayedWork\<close>: nothing to do, not yet, or a task is taken.\<close>

lemma DoDelayedWork_cases:
  assumes "DoDelayedWork d q did s = Some s'"
  obtains (none) "\<not> nestable_allowed s \<or> delayed_work_queue s = []"
      "s' = set_top (Pumping d q (AfterDelayed did)) (s\<lparr>recent_time := 0, delayed_work_time := 0\<rparr>)"
  | (later) r where "nestable_allowed s" "delayed_work_queue s \<noteq> []"
      "s' = set_top (Pumping d q (AfterDelayed did)) (s\<lparr>recent_time := r, delayed_work_time := next_time s\<rparr>)"
  | (taken) r t s1 was_run s2 where "nestable_allowed s" "delayed_work_queue s \<noteq> []"
      "s1 = s\<lparr>recent_time := r, delayed_work_queue := queue_pop (delayed_work_queue s), delayed_work_time := t\<rparr>"
      "queue_pop (delayed_work_queue s) \<noteq> [] \<longrightarrow> t = next_time s1" "sint (next_time s) \<le> sint r"
      "r = recent_time s \<or> r = loop_clock s"
      "DeferOrRunPendingTask (AfterDelayed True) (queue_top (delayed_work_queue s)) s1 = Some (was_run, s2)"
      "s' = (if was_run then s2 else set_top (Pumping d q (AfterDelayed did)) s2)"
proof (cases "\<not> nestable_allowed s \<or> delayed_work_queue s = []")
  case True
  with assms show thesis by (intro none) (auto simp: DoDelayedWork_def)
next
  case False
  define r where "r = (if sint (next_time s) > sint (recent_time s) then loop_clock s else recent_time s)"
  have s1: "(if sint (next_time s) > sint (recent_time s) then s\<lparr>recent_time := loop_clock s\<rparr> else s) = s\<lparr>recent_time := r\<rparr>"
    by (simp add: r_def)
  show thesis
  proof (cases "sint (next_time s) > sint r")
    case True
    with assms False show thesis
      by (intro later [of r]) (auto simp: DoDelayedWork_def s1 Let_def simp flip: next_time_def)
  next
    case ready: False
    define t where "t = (if queue_pop (delayed_work_queue s) \<noteq> [] then delayed_run_time (queue_top (queue_pop (delayed_work_queue s)))
      else delayed_work_time s)"
    define s2 where "s2 = s\<lparr>recent_time := r, delayed_work_queue := queue_pop (delayed_work_queue s), delayed_work_time := t\<rparr>"
    have "Option.bind (DeferOrRunPendingTask (AfterDelayed True) (queue_top (delayed_work_queue s)) s2) (\<lambda>(was_run, s4).
        Some (if was_run then s4 else set_top (Pumping d q (AfterDelayed did)) s4)) = Some s'"
      using False ready assms by (auto simp: DoDelayedWork_def s1 s2_def t_def Let_def simp flip: next_time_def)
    then obtain x where "DeferOrRunPendingTask (AfterDelayed True) (queue_top (delayed_work_queue s)) s2 = Some x"
      "s' = (if fst x then snd x else set_top (Pumping d q (AfterDelayed did)) (snd x))"
      unfolding bind_eq_Some_conv by (auto simp: split_beta)
    then show thesis
      by (intro taken [where r = r and t = t and ?s1.0 = s2 and was_run = "fst x" and ?s2.0 = "snd x"])
        (use False ready in \<open>auto simp: s2_def t_def next_time_def r_def\<close>)
  qed
qed

lemma delayed_pump:
  assumes "DoDelayedWork d q did s = Some s'" "loop_stack s = Pumping d q (AfterWork did) # fs" "pump_ok s"
  shows "pump_ok s'"
proof -
  have fine: "stack_fine (loop_stack s)" "\<forall>p \<in> set (delayed_work_queue s). delayed_run_time p \<noteq> 0"
    and idle: "nestable_allowed s \<Longrightarrow> \<not> did \<Longrightarrow> work_queue s = []"
    and wake: "nestable_allowed s \<Longrightarrow> incoming_queue s = [] \<or> wake_event s \<or> 0 < scheduling s \<or> did"
    using assms(2,3) by (simp_all add: pump_ok_def idle_at_def looks_def)
  show ?thesis
    using assms(1)
  proof (cases rule: DoDelayedWork_cases)
    case none
    then show ?thesis using assms(2) fine idle wake
      by (intro pump_ok_move [OF assms(3,2), of _ q "AfterDelayed did"]) (auto simp: set_top_def idle_at_def looks_def)
  next
    case (later r)
    then show ?thesis using assms(2) fine idle wake
      by (intro pump_ok_move [OF assms(3,2), of _ q "AfterDelayed did"])
        (auto simp: set_top_def idle_at_def looks_def next_time_def)
  next
    case (taken r t s1 was_run s2)
    have d1: "\<forall>p \<in> set (delayed_work_queue s1). delayed_run_time p \<noteq> 0"
      using fine(2) taken(3) by (auto dest: queue_pop_subset)
    from taken(7,8) consider "RunTask (AfterDelayed True) (queue_top (delayed_work_queue s)) s1 = Some s'"
      | "s' = set_top (Pumping d q (AfterDelayed did)) (s1\<lparr>deferred_queue := deferred_queue s1 @ [queue_top (delayed_work_queue s)]\<rparr>)"
      by (auto simp: DeferOrRunPendingTask_def split: if_splits)
    then show ?thesis
    proof cases
      case 1
      show ?thesis by (rule pump_ok_run [OF 1]) (use taken(3) fine d1 assms(2) in simp_all)
    next
      case 2
      then show ?thesis using assms(2) fine idle wake taken(3,4) d1
        by (intro pump_ok_move [OF assms(3,2), of _ q "AfterDelayed did"])
          (auto simp: set_top_def idle_at_def looks_def next_time_def)
    qed
  qed
qed

lemma idle_pump:
  assumes "DoIdleWork d q s = Some s'" "loop_stack s = Pumping d q (AfterDelayed False) # fs" "pump_ok s"
  shows "pump_ok s'"
proof -
  have fine: "stack_fine (loop_stack s)" "\<forall>p \<in> set (delayed_work_queue s). delayed_run_time p \<noteq> 0"
    and idle: "nestable_allowed s \<Longrightarrow> work_queue s = [] \<and> (delayed_work_queue s = [] \<or> delayed_work_time s = next_time s)"
    and wake: "nestable_allowed s \<Longrightarrow> incoming_queue s = [] \<or> wake_event s \<or> 0 < scheduling s"
    using assms(2,3) by (simp_all add: pump_ok_def idle_at_def looks_def)
  show ?thesis
  proof (cases "d = 1 \<and> deferred_queue s \<noteq> []")
    case True
    then obtain p ps where p: "deferred_queue s = p # ps" by (cases "deferred_queue s") auto
    with True assms(1,2) have "RunTask (AfterIdle True) p (s\<lparr>deferred_queue := ps\<rparr>) = Some s'"
      by (auto simp: DoIdleWork_def ProcessNextDelayedNonNestableTask_def run_depth_def bind_eq_Some_conv)
    then show ?thesis by (rule pump_ok_run) (use fine assms(2) in simp_all)
  next
    case False
    with assms(1,2) have "s' = set_top (Pumping d q (AfterIdle False)) (if q then Pump_Quit s else s)"
      by (auto simp: DoIdleWork_def ProcessNextDelayedNonNestableTask_def run_depth_def split: list.splits)
    with False show ?thesis using assms(2) fine idle wake
      by (intro pump_ok_move [OF assms(3,2), of _ q "AfterIdle False"])
        (auto simp: set_top_def Pump_Quit_def idle_at_def looks_def next_time_def)
  qed
qed

lemma break_pump:
  assumes "loop_stack s = Pumping d q at # fs" "pump_ok s"
  shows "pump_ok (pump_break s)"
proof -
  have fine: "stack_fine (Pumping d q at # fs)" "\<forall>p \<in> set (delayed_work_queue s). delayed_run_time p \<noteq> 0"
    "d = 1 \<Longrightarrow> nestable_allowed s" using assms by (simp_all add: pump_ok_def)
  from stack_below(3) [OF fine(1)] show ?thesis
  proof
    assume "fs = []"
    with fine assms(1) show ?thesis by (simp add: pump_ok_def pump_break_def)
  next
    assume "\<exists>t gs. fs = InTask t # gs"
    with fine stack_below(2) [OF fine(1)] assms(1) show ?thesis by (auto simp: pump_ok_def pump_break_def)
  qed
qed

lemma pump_step_ok:
  assumes "pump_step s = Some s'" "pump_ok s"
  shows "pump_ok s'"
proof -
  from assms(1) obtain d q at fs where st: "loop_stack s = Pumping d q at # fs"
    by (auto simp: pump_step_def split: list.splits call_frame.splits)
  note ok = assms(2) [unfolded pump_ok_def, simplified st list.case call_frame.case]
  note move = pump_ok_move [OF assms(2) st, of s' q]
  show ?thesis
  proof (cases at)
    case BeforeWork
    with assms(1) st have "s' = DoWork_begin d q s" by (simp add: pump_step_def)
    then show ?thesis using ok st by (intro move) (auto simp: DoWork_begin_def set_top_def idle_at_def looks_def split: if_splits)
  next
    case InWork
    with assms st show ?thesis by (intro round_pump [of d q s s' fs]) (simp_all add: pump_step_def)
  next
    case (AfterWork did)
    with assms st show ?thesis
      by (auto simp: pump_step_def intro: break_pump delayed_pump split: if_splits)
  next
    case (AfterDelayed did)
    with assms(1) st consider "s' = pump_break s" | "did" "s' = set_top (Pumping d q BeforeWork) s"
      | "\<not> did" "DoIdleWork d q s = Some s'" by (auto simp: pump_step_def split: if_splits)
    then show ?thesis
    proof cases
      case 2
      then show ?thesis using ok st by (intro move) (auto simp: set_top_def idle_at_def looks_def)
    qed (use assms(2) st AfterDelayed in \<open>auto intro: break_pump idle_pump\<close>)
  next
    case (AfterIdle did)
    with assms(1) st consider "s' = pump_break s" | "did" "s' = set_top (Pumping d q BeforeWork) s"
      | "\<not> did" "s' = set_top (Pumping d q BeforeWait) s" by (auto simp: pump_step_def split: if_splits)
    then show ?thesis
    proof cases
      case 1
      then show ?thesis using assms(2) st by (auto intro: break_pump)
    next
      case 2
      then show ?thesis using ok st by (intro move [of BeforeWork]) (auto simp: set_top_def idle_at_def looks_def)
    next
      case 3
      then show ?thesis using ok st AfterIdle
        by (intro move [of BeforeWait]) (auto simp: set_top_def idle_at_def looks_def next_time_def)
    qed
  next
    case BeforeWait
    have nz: "delayed_work_queue s \<noteq> [] \<Longrightarrow> next_time s \<noteq> 0" using ok queue_top_in by (auto simp: next_time_def)
    from BeforeWait assms(1) st have "s' = pump_wait d q s" by (simp add: pump_step_def)
    then consider "delayed_work_time s = 0" "s' = set_top (Pumping d q (Blocked None)) s"
      | "s' = set_top (Pumping d q (Blocked (Some (delayed_work_time s)))) s"
      | "s' = set_top (Pumping d q BeforeWork) (s\<lparr>delayed_work_time := 0\<rparr>)"
      by (auto simp: pump_wait_def is_null_def split: if_splits)
    then show ?thesis
    proof cases
      case 1
      with nz ok st BeforeWait show ?thesis
        by (intro move [of "Blocked None"]) (auto simp: set_top_def idle_at_def looks_def)
    next
      case 2
      then show ?thesis using ok st BeforeWait
        by (intro move [of "Blocked (Some (delayed_work_time s))"]) (auto simp: set_top_def idle_at_def looks_def next_time_def)
    next
      case 3
      then show ?thesis using ok st by (intro move [of BeforeWork]) (auto simp: set_top_def idle_at_def looks_def)
    qed
  next
    case (Blocked t)
    with assms(1) st have "s' = set_top (Pumping d q BeforeWork) (s\<lparr>wake_event := False\<rparr>)"
      by (auto simp: pump_step_def pump_woken_def split: if_splits)
    then show ?thesis using ok st by (intro move) (auto simp: set_top_def idle_at_def looks_def)
  qed
qed

lemma pump_ok_same:
  assumes "pump_ok s" "loop_stack s' = loop_stack s" "delayed_work_queue s' = delayed_work_queue s"
    "work_queue s' = work_queue s" "deferred_queue s' = deferred_queue s" "delayed_work_time s' = delayed_work_time s"
    "nestable_allowed s' = nestable_allowed s"
    "incoming_queue s = [] \<or> wake_event s \<or> 0 < scheduling s \<longrightarrow> incoming_queue s' = [] \<or> wake_event s' \<or> 0 < scheduling s'"
  shows "pump_ok s'"
proof -
  have "idle_at d at s' = idle_at d at s" for d at
    unfolding idle_at_def next_time_def assms(3-6) ..
  with assms show ?thesis by (auto simp: pump_ok_def split: list.splits call_frame.splits)
qed

lemma start_pump_ok:
  assumes "AutoRunState quit s = Some s'" "pump_ok s" "loop_stack s = [] \<or> in_task s"
  shows "pump_ok s'"
proof (cases "loop_stack s")
  case Nil
  with assms show ?thesis by (auto simp: AutoRunState_def pump_ok_def idle_at_def looks_def split: if_splits)
next
  case (Cons f fs)
  with assms(3) obtain t where f: "f = InTask t" by (cases f) (auto simp: in_task_def)
  have fine: "stack_fine (InTask t # fs)" using assms(2) Cons f by (simp add: pump_ok_def)
  then obtain d q at gs where fs: "fs = Pumping d q at # gs" "resumes at" "stack_fine fs" by (rule stack_task)
  with stack_depth [of d q at gs] have "d + 1 \<noteq> 1" by simp
  with assms(1,2) Cons f fs show ?thesis
    by (auto simp: AutoRunState_def pump_ok_def idle_at_def looks_def split: if_splits)
qed

lemma end_pump_ok:
  assumes "end_task s = Some s'" "pump_ok s"
  shows "pump_ok s'"
proof -
  from assms(1) obtain t fs where st: "loop_stack s = InTask t # fs" "s' = s\<lparr>nestable_allowed := True, loop_stack := fs\<rparr>"
    by (auto simp: end_task_def split: list.splits call_frame.splits)
  with assms(2) have "stack_fine (InTask t # fs)" by (simp add: pump_ok_def)
  then obtain d q at gs where fs: "fs = Pumping d q at # gs" "resumes at" "stack_fine fs" by (rule stack_task)
  with assms(2) st resumes_looks [OF fs(2)] show ?thesis by (simp add: pump_ok_def)
qed

lemma message_loop_ok:
  assumes "message_loop_step e s = Some s'" "pump_ok s"
  shows "pump_ok s'"
proof (cases e)
  case (Post t delay nest)
  with assms(1) obtain q l n where "s' = s\<lparr>incoming_queue := q, posted_log := l, scheduling := n\<rparr>"
    "n = (if incoming_queue s = [] then scheduling s + 1 else scheduling s)"
    by (auto simp: message_loop_step_def PostDelayedTask_def PostNonNestableDelayedTask_def PostTask_Helper_def Let_def split: if_splits)
  then show ?thesis by (intro pump_ok_same [OF assms(2)]) auto
next
  case PostSignals
  with assms show ?thesis
    by (intro pump_ok_same [OF assms(2)]) (auto simp: message_loop_step_def finish_post_def ScheduleWork_def split: if_splits)
next
  case (Tick t)
  with assms show ?thesis
    by (intro pump_ok_same [OF assms(2)]) (auto simp: message_loop_step_def split: if_splits)
next
  case PumpStep
  with assms pump_step_ok show ?thesis by (simp add: message_loop_step_def)
next
  case TimedOut
  with assms(1) obtain d q t fs where st: "loop_stack s = Pumping d q (Blocked (Some t)) # fs"
    "s' = set_top (Pumping d q BeforeWork) s"
    by (auto simp: message_loop_step_def split: list.splits call_frame.splits pump_at.splits option.splits)
  from assms(2) st show ?thesis
    by (intro pump_ok_move [OF assms(2) st(1), of _ q BeforeWork]) (auto simp: set_top_def idle_at_def looks_def pump_ok_def)
next
  case CallRun
  with assms show ?thesis by (auto simp: message_loop_step_def Run_def intro: start_pump_ok split: if_splits)
next
  case CallRunAllPending
  with assms show ?thesis by (auto simp: message_loop_step_def RunAllPending_def intro: start_pump_ok split: if_splits)
next
  case TaskReturns
  with assms show ?thesis by (auto simp: message_loop_step_def intro: end_pump_ok)
next
  case (CallAllow b)
  with assms show ?thesis
    by (auto simp: message_loop_step_def in_task_def SetNestableTasksAllowed_def ScheduleWork_def pump_ok_def Let_def
      split: if_splits list.splits call_frame.splits)
next
  case CallQuitNow
  with assms show ?thesis
    by (auto simp: message_loop_step_def QuitNow_def Pump_Quit_def pump_ok_def split: list.splits call_frame.splits)
next
  case CallQuit
  with assms(1) obtain t d q at fs where st: "loop_stack s = InTask t # Pumping d q at # fs"
    "s' = s\<lparr>loop_stack := InTask t # Pumping d True at # fs\<rparr>"
    by (auto simp: message_loop_step_def Quit_def split: list.splits call_frame.splits)
  have fine: "resumes at" "stack_fine (Pumping d q at # fs)" using assms(2) st(1) by (simp_all add: pump_ok_def)
  have "stack_fine (Pumping d True at # fs)" by (rule stack_below(1) [OF fine(2)])
  with assms(2) st fine(1) show ?thesis by (simp add: pump_ok_def)
qed

lemma run_pump_ok: "message_loop_run es MessageLoop_new = Some s \<Longrightarrow> pump_ok s"
  by (rule loop.run_invariant [of pump_ok]) (blast intro: message_loop_ok, assumption, simp add: pump_ok_def MessageLoop_new_def)

section \<open>The earliest task first\<close>

lemma task_less_time: "\<not> task_less p q \<Longrightarrow> sint (delayed_run_time p) \<le> sint (delayed_run_time q)"
  by (auto simp: task_less_def split: if_splits)

lemma task_less_later: "task_less p q \<Longrightarrow> sint (delayed_run_time q) \<le> sint (delayed_run_time p)"
  by (auto simp: task_less_def split: if_splits)

lemma queue_top_earliest: "p \<in> set ps \<Longrightarrow> sint (delayed_run_time (queue_top ps)) \<le> sint (delayed_run_time p)"
proof (induction ps arbitrary: p rule: queue_top.induct)
  case (3 a b ps)
  define c where "c = (if task_less a b then b else a)"
  have c: "sint (delayed_run_time c) \<le> sint (delayed_run_time a)" "sint (delayed_run_time c) \<le> sint (delayed_run_time b)"
    using task_less_time [of a b] task_less_later [of a b] by (auto simp: c_def)
  have ih: "p \<in> set (c # ps) \<Longrightarrow> sint (delayed_run_time (queue_top (c # ps))) \<le> sint (delayed_run_time p)" for p
    using "3.IH" by (auto simp: c_def)
  have top: "queue_top (a # b # ps) = queue_top (c # ps)" by (simp add: c_def)
  from "3.prems" consider "p = a" | "p = b" | "p \<in> set (c # ps)" by auto
  then show ?case using ih [of c] ih [of p] c unfolding top by cases auto
qed auto

text \<open>Sequence numbers that are less than half their range behind the next one are in the order they were given.\<close>

definition age :: "u32 \<Rightarrow> 't pending_task \<Rightarrow> nat" where
  "age n p = unat (n - sequence_num p)"

lemma sequence_order:
  assumes "age n p < 2 ^ 31" "age n q < 2 ^ 31"
  shows "sint (sequence_num p - sequence_num q) > 0 \<longleftrightarrow> age n p < age n q"
proof -
  have "sequence_num p - sequence_num q = word_of_int (int (age n q) - int (age n p))"
    by (simp add: age_def)
  moreover have "sint (word_of_int (int (age n q) - int (age n p)) :: u32) = int (age n q) - int (age n p)"
    by (rule sint_of_bounded) (use assms in auto)
  ultimately show ?thesis by simp
qed

lemma queue_top_oldest:
  assumes "\<forall>p \<in> set ps. age n p < 2 ^ 31" "p \<in> set ps" "delayed_run_time p = delayed_run_time (queue_top ps)"
  shows "age n p \<le> age n (queue_top ps)"
  using assms
proof (induction ps arbitrary: p rule: queue_top.induct)
  case (3 a b ps)
  define c where "c = (if task_less a b then b else a)"
  have top: "queue_top (a # b # ps) = queue_top (c # ps)" by (simp add: c_def)
  have in_c: "\<forall>p \<in> set (c # ps). age n p < 2 ^ 31" using "3.prems"(1) by (auto simp: c_def)
  have ih: "p \<in> set (c # ps) \<Longrightarrow> delayed_run_time p = delayed_run_time (queue_top (c # ps)) \<Longrightarrow> age n p \<le> age n (queue_top (c # ps))" for p
    using "3.IH" [of p] in_c by (auto simp: c_def)
  have tc: "sint (delayed_run_time (queue_top (c # ps))) \<le> sint (delayed_run_time c)" by (rule queue_top_earliest) simp
  have weq: "y = z \<longleftrightarrow> sint y = sint z" for y z :: u64 by (auto intro: signed_word_eqI)
  have both: "age n a < 2 ^ 31" "age n b < 2 ^ 31" using "3.prems"(1) by simp_all
  have c: "x = a \<or> x = b \<Longrightarrow> delayed_run_time x = delayed_run_time (queue_top (c # ps)) \<Longrightarrow>
      delayed_run_time c = delayed_run_time x \<and> age n x \<le> age n c" for x
    using tc task_less_time [of a b] task_less_later [of a b] sequence_order [OF both] both
    by (auto simp: c_def task_less_def weq split: if_splits)
  from "3.prems"(2) consider "p = a \<or> p = b" | "p \<in> set (c # ps)" by auto
  then show ?case
  proof cases
    case 1
    with c [OF 1] ih [of c] "3.prems"(3) show ?thesis unfolding top by force
  next
    case 2
    with ih [OF 2] "3.prems"(3) show ?thesis unfolding top by simp
  qed
qed auto

lemma pump_goes:
  assumes "pump_ok s" "loop_stack s = Pumping d q at # fs" "wake_event s \<or> (\<forall>t. at \<noteq> Blocked t)"
  shows "pump_step s \<noteq> None"
proof -
  note ok = assms(1) [unfolded pump_ok_def, simplified assms(2) list.case call_frame.case]
  have runs: "RunTask at' p s1 \<noteq> None" if "loop_stack s1 = loop_stack s" "nestable_allowed s1" for at' p and s1 :: "'a loop_state"
    using that assms(2) by (simp add: RunTask_def)
  have defers: "DeferOrRunPendingTask at' p s1 \<noteq> None" if "loop_stack s1 = loop_stack s" "nestable_allowed s1"
    for at' p and s1 :: "'a loop_state"
    using runs [OF that] by (auto simp: DeferOrRunPendingTask_def)
  show ?thesis
  proof (cases at)
    case InWork
    then have "nestable_allowed s" using ok by simp
    then have "DeferOrRunPendingTask at' p ((ReloadWorkQueue s)\<lparr>work_queue := ps\<rparr>) \<noteq> None" for at' p ps
      by (intro defers) (simp_all add: ReloadWorkQueue_def)
    then show ?thesis using assms(2) InWork
      by (auto simp: pump_step_def DoWork_round_def Let_def split: list.splits) blast
  next
    case (AfterWork did)
    have binds: "Option.bind (DeferOrRunPendingTask at' p s1) (\<lambda>(a, b). Some (f a b)) \<noteq> None"
      if "loop_stack s1 = loop_stack s" "nestable_allowed s1" for at' p f and s1 :: "'a loop_state"
      using defers [OF that, of at' p] by auto
    have "DoDelayedWork d q did s \<noteq> None"
      by (simp add: DoDelayedWork_def Let_def binds del: not_None_eq)
    then show ?thesis using assms(2) AfterWork by (simp add: pump_step_def)
  next
    case (AfterDelayed did)
    have "DoIdleWork d q s \<noteq> None"
    proof (cases "d = 1 \<and> deferred_queue s \<noteq> []")
      case True
      then obtain p ps where p: "deferred_queue s = p # ps" by (cases "deferred_queue s") auto
      have "nestable_allowed s" using True ok by simp
      then obtain y where "RunTask (AfterIdle True) p (s\<lparr>deferred_queue := ps\<rparr>) = Some y"
        using runs [of "s\<lparr>deferred_queue := ps\<rparr>" "AfterIdle True" p] by auto
      with True p assms(2) show ?thesis
        by (simp add: DoIdleWork_def ProcessNextDelayedNonNestableTask_def run_depth_def)
    qed (use assms(2) in \<open>auto simp: DoIdleWork_def ProcessNextDelayedNonNestableTask_def run_depth_def split: list.splits\<close>)
    then show ?thesis using assms(2) AfterDelayed by (simp add: pump_step_def)
  qed (use assms in \<open>auto simp: pump_step_def pump_woken_def\<close>)
qed

section \<open>What the message loop promises\<close>

text \<open>
  C34: in every interleaving of the loop with the threads that post, the immediate nestable tasks have
  been run in the order they were posted, each once, and those not yet run are in the two work queues in
  that order; and no task of any kind is lost or run twice: the tasks posted are the tasks run and the
  tasks in the four queues.
\<close>

theorem tasks_run_once_in_order:
  assumes "message_loop_run es MessageLoop_new = Some s"
  shows "filter immediate (posted_log s) = filter immediate (map start_of (started_log s)) @
      filter immediate (work_queue s) @ filter immediate (incoming_queue s) \<and>
    mset (map strip (posted_log s)) = mset (map (\<lambda>x. strip (start_of x)) (started_log s)) +
      mset (map strip (incoming_queue s @ work_queue s @ delayed_work_queue s @ deferred_queue s))"
  using run_tasks(2,3) [OF assms] by (simp add: in_order_def accounted_def)

text \<open>
  C36: in every interleaving a delayed task is not run before its time by the clock, and a task that is
  not nestable is run only by the outermost run of the loop.
\<close>

theorem tasks_run_when_allowed:
  assumes "message_loop_run es MessageLoop_new = Some s" "x \<in> set (started_log s)"
  shows "(delayed_run_time (start_of x) \<noteq> 0 \<longrightarrow> sint (delayed_run_time (start_of x)) \<le> sint (start_clock x)) \<and>
    (\<not> nestable (start_of x) \<longrightarrow> start_depth x = 1)"
  using run_tasks(4) [OF assms(1)] assms(2) by (simp add: timely_def due_def)

text \<open>
  C35: when the pump sleeps, tasks may run and nobody has woken it or is about to, there is nothing to run:
  no immediate task in any queue, no deferred task if this is the outermost loop, and it sleeps no
  longer than until the time of the earliest delayed task.
\<close>

theorem pump_sleeps_only_when_idle:
  assumes "message_loop_run es MessageLoop_new = Some s" "loop_stack s = Pumping d q (Blocked t) # fs"
    "nestable_allowed s" "\<not> wake_event s" "scheduling s = 0"
  shows "incoming_queue s = [] \<and> work_queue s = [] \<and> (d = 1 \<longrightarrow> deferred_queue s = []) \<and>
    (case t of None \<Rightarrow> delayed_work_queue s = []
     | Some u \<Rightarrow> \<forall>p \<in> set (delayed_work_queue s). sint u \<le> sint (delayed_run_time p))"
  using run_pump_ok [OF assms(1)] assms(2-5)
  by (auto simp: pump_ok_def idle_at_def looks_def next_time_def queue_top_earliest split: option.splits)


text \<open>
  of the delayed tasks \<open>DoDelayedWork\<close> takes the one with the earliest time, and among those the one
  that was put in the queue first, as long as fewer than half of the sequence numbers are in use; what it
  leaves in the queue is due no earlier.
\<close>

theorem earliest_delayed_task_first:
  assumes "DoDelayedWork d q did s = Some s'" "delayed_work_queue s' \<noteq> delayed_work_queue s"
  defines "p \<equiv> queue_top (delayed_work_queue s)"
  shows "delayed_work_queue s' = remove1 p (delayed_work_queue s) \<and>
    (p \<in> set (deferred_queue s') \<or> p = start_of (last (started_log s'))) \<and>
    (\<forall>r \<in> set (delayed_work_queue s). sint (delayed_run_time p) \<le> sint (delayed_run_time r)) \<and>
    ((\<forall>r \<in> set (delayed_work_queue s). age n r < 2 ^ 31) \<longrightarrow>
      (\<forall>r \<in> set (delayed_work_queue s). delayed_run_time r = delayed_run_time p \<longrightarrow> age n r \<le> age n p))"
proof -
  have "delayed_work_queue s' = remove1 p (delayed_work_queue s) \<and>
      (p \<in> set (deferred_queue s') \<or> p = start_of (last (started_log s')))"
    using assms(1)
  proof (cases rule: DoDelayedWork_cases)
    case (taken r t s1 was_run s2)
    then show ?thesis
      by (auto simp: DeferOrRunPendingTask_def RunTask_def set_top_def queue_pop_def p_def split: if_splits list.splits call_frame.splits)
  qed (use assms(2) in \<open>auto simp: set_top_def\<close>)
  then show ?thesis using queue_top_earliest [of _ "delayed_work_queue s"] queue_top_oldest [of "delayed_work_queue s" n]
    by (auto simp: p_def)
qed

lemma DoWork_round_progress:
  assumes "DoWork_round d q s = Some s'" "loop_stack s = Pumping d q InWork # fs"
  shows "(\<forall>d q fs. loop_stack s' \<noteq> Pumping d q InWork # fs) \<or> loop_stack s' = loop_stack s \<and>
    length (work_queue s') + length (incoming_queue s') < length (work_queue s) + length (incoming_queue s)"
proof -
  define s1 where "s1 = ReloadWorkQueue s"
  have s1: "length (work_queue s1) + length (incoming_queue s1) = length (work_queue s) + length (incoming_queue s)"
    "loop_stack s1 = loop_stack s" by (auto simp: s1_def ReloadWorkQueue_def)
  with assms show ?thesis
    by (auto simp: DoWork_round_def Let_def DeferOrRunPendingTask_def RunTask_def AddToDelayedWorkQueue_def
      ScheduleDelayedWork_def set_top_def simp flip: s1_def split: list.splits if_splits)
qed

text \<open>
  C38: \<open>DoWork\<close> returns: from any state in which it is in its loop, and without further posts, after at
  most one round for every task in the two work queues and one more, it has started a task or left the loop.
\<close>

theorem DoWork_returns:
  assumes "message_loop_run es MessageLoop_new = Some s" "loop_stack s = Pumping d q InWork # fs"
  shows "\<exists>n s'. n \<le> Suc (length (work_queue s) + length (incoming_queue s)) \<and>
    message_loop_run (replicate n PumpStep) s = Some s' \<and> (\<forall>d q fs. loop_stack s' \<noteq> Pumping d q InWork # fs)"
  using assms
proof (induction "length (work_queue s) + length (incoming_queue s)" arbitrary: s es rule: less_induct)
  case less
  have "pump_step s \<noteq> None" by (rule pump_goes [OF run_pump_ok [OF less.prems(1)] less.prems(2)]) simp
  then obtain s1 where s1: "message_loop_step PumpStep s = Some s1" "DoWork_round d q s = Some s1"
    using less.prems(2) by (auto simp: message_loop_step_def pump_step_def)
  have run1: "message_loop_run (es @ [PumpStep]) MessageLoop_new = Some s1"
    using less.prems(1) s1(1) by (simp add: loop.run_append)
  show ?case
  proof (cases "\<forall>d q fs. loop_stack s1 \<noteq> Pumping d q InWork # fs")
    case True
    then show ?thesis using s1(1) by (intro exI [of _ "Suc 0"] exI [of _ s1]) simp
  next
    case False
    with DoWork_round_progress [OF s1(2) less.prems(2)]
    have st: "loop_stack s1 = loop_stack s" and lt: "length (work_queue s1) + length (incoming_queue s1)
      < length (work_queue s) + length (incoming_queue s)" by blast+
    from less.hyps [OF lt run1] st less.prems(2) obtain n s' where
      "n \<le> Suc (length (work_queue s1) + length (incoming_queue s1))"
      "message_loop_run (replicate n PumpStep) s1 = Some s'" "\<forall>d q fs. loop_stack s' \<noteq> Pumping d q InWork # fs" by auto
    with s1(1) lt show ?thesis by (intro exI [of _ "Suc n"] exI [of _ s']) simp
  qed
qed

end
