(* ===== verification/MessageLoopRuns.thy ===== *)
theory MessageLoopRuns imports MessageLoopProps begin

text \<open>
  Concrete runs of a message loop: a nested loop with immediate, delayed and deferred tasks at which the
  general theorems are applied, and the run in which a task that is not nestable is overtaken.
\<close>

text \<open>Task 1 starts a nested loop, in which 2 and 4 wait for their times, 3 is deferred, and the pump goes to sleep.\<close>

definition nested_run :: "nat loop_event list" where
  "nested_run = [Post 1 0 True, PostSignals, Post 2 5 True, Post 3 0 False, Post 4 7 True, CallRun,
     PumpStep, PumpStep, CallAllow True, CallRun] @ replicate 16 PumpStep"

definition nested_end :: "nat loop_state" where
  "nested_end = the (message_loop_run nested_run MessageLoop_new)"

text \<open>The time of 2 has come; the next call is \<open>DoDelayedWork\<close>.\<close>

definition later_run :: "nat loop_event list" where
  "later_run = nested_run @ [Tick 6000, TimedOut, PumpStep, PumpStep]"

definition later_end :: "nat loop_state" where
  "later_end = the (message_loop_run later_run MessageLoop_new)"

definition delayed_end :: "nat loop_state" where
  "delayed_end = the (message_loop_run (later_run @ [PumpStep]) MessageLoop_new)"

definition working_run :: "nat loop_event list" where
  "working_run = [Post 1 3 True, Post 2 0 True, CallRun, PumpStep]"

definition working_end :: "nat loop_state" where
  "working_end = the (message_loop_run working_run MessageLoop_new)"

lemma runs_end:
  "message_loop_run nested_run MessageLoop_new = Some nested_end"
  "message_loop_run later_run MessageLoop_new = Some later_end"
  "message_loop_run (later_run @ [PumpStep]) MessageLoop_new = Some delayed_end"
  "message_loop_run working_run MessageLoop_new = Some working_end"
proof -
  have "\<not> Option.is_none (message_loop_run nested_run MessageLoop_new)" "\<not> Option.is_none (message_loop_run later_run MessageLoop_new)"
    "\<not> Option.is_none (message_loop_run (later_run @ [PumpStep]) MessageLoop_new)"
    "\<not> Option.is_none (message_loop_run working_run MessageLoop_new)"
    by code_simp+
  then show "message_loop_run nested_run MessageLoop_new = Some nested_end"
    "message_loop_run later_run MessageLoop_new = Some later_end"
    "message_loop_run (later_run @ [PumpStep]) MessageLoop_new = Some delayed_end"
    "message_loop_run working_run MessageLoop_new = Some working_end"
    by (auto simp: nested_end_def later_end_def delayed_end_def working_end_def Option.is_none_def)
qed

lemma nested_facts:
  "loop_stack nested_end = [Pumping 2 False (Blocked (Some 5000)), InTask 1, Pumping 1 False (AfterWork True)]"
  "nestable_allowed nested_end" "\<not> wake_event nested_end" "scheduling nested_end = 0"
  "map the_task (filter immediate (posted_log nested_end)) = [1]" "map the_task (deferred_queue nested_end) = [3]"
  "map the_task (delayed_work_queue nested_end) = [2, 4]"
  by code_simp+

lemma later_facts:
  "loop_stack later_end = [Pumping 2 False (AfterWork False), InTask 1, Pumping 1 False (AfterWork True)]"
  "map (\<lambda>x. (the_task (start_of x), start_depth x)) (started_log delayed_end) = [(1, 1), (2, 2)]"
  by code_simp+

lemma working_facts:
  "loop_stack working_end = [Pumping 1 False InWork]" "length (incoming_queue working_end) = 2" "work_queue working_end = []"
  by code_simp+

theorem tasks_run_once_in_order_witness:
  "map the_task (filter immediate (posted_log nested_end)) = [1] \<and>
   map the_task (map start_of (started_log nested_end) @ deferred_queue nested_end) = [1, 3] \<and>
   filter immediate (posted_log nested_end) = filter immediate (map start_of (started_log nested_end)) @
      filter immediate (work_queue nested_end) @ filter immediate (incoming_queue nested_end)"
  using tasks_run_once_in_order [OF runs_end(1)] nested_facts(5) by (intro conjI) (simp, code_simp, simp)

theorem tasks_run_when_allowed_witness:
  "the_task (start_of (last (started_log delayed_end))) = 2 \<and> delayed_run_time (start_of (last (started_log delayed_end))) \<noteq> 0 \<and>
   sint (delayed_run_time (start_of (last (started_log delayed_end)))) \<le> sint (start_clock (last (started_log delayed_end)))"
proof -
  have "the_task (start_of (last (started_log delayed_end))) = 2" "delayed_run_time (start_of (last (started_log delayed_end))) \<noteq> 0"
    "started_log delayed_end \<noteq> []" by code_simp+
  with tasks_run_when_allowed [OF runs_end(3) last_in_set] show ?thesis by blast
qed

theorem pump_sleeps_only_when_idle_witness:
  "map the_task (delayed_work_queue nested_end) = [2, 4] \<and> incoming_queue nested_end = [] \<and>
   list_all (\<lambda>p. sint (5000 :: u64) \<le> sint (delayed_run_time p)) (delayed_work_queue nested_end)"
  using pump_sleeps_only_when_idle [OF runs_end(1) nested_facts(1,2,3,4)] nested_facts(7) by (simp add: list_all_iff)


theorem earliest_delayed_task_first_witness:
  "the_task (queue_top (delayed_work_queue later_end)) = 2 \<and>
   list_all (\<lambda>r. sint (delayed_run_time (queue_top (delayed_work_queue later_end))) \<le> sint (delayed_run_time r)) (delayed_work_queue later_end)"
proof -
  have "the_task (queue_top (delayed_work_queue later_end)) = 2" by code_simp
  moreover have "map_option (\<lambda>s. length (delayed_work_queue s)) (DoDelayedWork 2 False False later_end) = Some 1"
    "length (delayed_work_queue later_end) = 2" by code_simp+
  then obtain s' where s': "DoDelayedWork 2 False False later_end = Some s'" "length (delayed_work_queue s') = 1" by auto
  moreover have "delayed_work_queue s' \<noteq> delayed_work_queue later_end"
    using s'(2) \<open>length (delayed_work_queue later_end) = 2\<close> by auto
  ultimately show ?thesis using earliest_delayed_task_first [of 2 False False later_end s'] by (simp only: list_all_iff) blast
qed

theorem DoWork_returns_witness:
  "\<exists>n s'. n \<le> 3 \<and> message_loop_run (replicate n PumpStep) working_end = Some s' \<and>
    (\<forall>d q fs. loop_stack s' \<noteq> Pumping d q InWork # fs)"
  using DoWork_returns [OF runs_end(4) working_facts(1)] working_facts(2,3) by (simp add: numeral_3_eq_3 numeral_2_eq_2)

text \<open>
  A task that is not nestable and was deferred in a nested loop is overtaken by one posted later: back in
  the outermost loop the work queue comes first, and the deferred task has to wait until it is idle.
\<close>

lemma non_nestable_task_overtaken:
  "map_option (\<lambda>s. (map the_task (posted_log s), map (\<lambda>x. the_task (start_of x)) (started_log s), map the_task (deferred_queue s)))
     (message_loop_run ([Post 1 0 True, CallRun, PumpStep, PumpStep, Post 2 0 False, CallAllow True, CallRunAllPending] @
       replicate 6 PumpStep @ [Post 3 0 False, TaskReturns] @ replicate 4 PumpStep) MessageLoop_new) =
   Some ([1 :: nat, 2, 3], [1, 3], [2])"
  by code_simp

end
