(* ===== verification/Utf.thy ===== *)
theory Utf imports Prelude begin

text \<open>
  \<open>base/utf_string_conversions.cc\<close>, \<open>base/utf_string_conversion_utils.h\<close> and \<open>.cc\<close>, with the macros and the
  decoder of \<open>base/third_party/icu/icu_utf.h\<close> and \<open>.cc\<close> and \<open>IsStringUTF8\<close> of \<open>base/string_util.cc\<close>: text in
  the three Unicode encodings. A \<open>std::string\<close> is a list of bytes, a \<open>string16\<close> of 16-bit units, a
  \<open>std::wstring\<close> of 32-bit units (\<open>WCHAR_T_IS_UTF32\<close>). Strings are shorter than 2 GB, so the indices, which
  the code keeps as \<open>int32\<close>, are naturals. \<open>None\<close> is a read outside the string. The functions that append
  to an output string give what they append.
\<close>

section \<open>Code points\<close>

definition IsValidCodepoint :: "u32 \<Rightarrow> bool" where
  "IsValidCodepoint code_point \<longleftrightarrow> code_point < 0xD800 \<or> code_point \<ge> 0xE000 \<and> code_point \<le> 0x10FFFF"

definition IsValidCharacter :: "u32 \<Rightarrow> bool" where
  "IsValidCharacter code_point \<longleftrightarrow> code_point < 0xD800 \<or> code_point \<ge> 0xE000 \<and> code_point < 0xFDD0 \<or>
     code_point > 0xFDEF \<and> code_point \<le> 0x10FFFF \<and> code_point AND 0xFFFE \<noteq> 0xFFFE"

definition CBU_SENTINEL :: u32 where
  "CBU_SENTINEL = - 1"

definition CBU_IS_SURROGATE :: "u32 \<Rightarrow> bool" where
  "CBU_IS_SURROGATE c \<longleftrightarrow> c AND 0xfffff800 = 0xd800"

definition CBU_IS_UNICODE_NONCHAR :: "u32 \<Rightarrow> bool" where
  "CBU_IS_UNICODE_NONCHAR c \<longleftrightarrow> c \<ge> 0xfdd0 \<and> (c \<le> 0xfdef \<or> c AND 0xfffe = 0xfffe) \<and> c \<le> 0x10ffff"

section \<open>The decoder of UTF-8\<close>

definition CBU8_IS_LEAD :: "u32 \<Rightarrow> bool" where
  "CBU8_IS_LEAD c \<longleftrightarrow> (ucast (c - 0xc0) :: u8) < 0x3e"

definition CBU8_IS_TRAIL :: "u8 \<Rightarrow> bool" where
  "CBU8_IS_TRAIL c \<longleftrightarrow> c AND 0xc0 = 0x80"

definition utf8_countTrailBytes :: "nat list" where
  "utf8_countTrailBytes = replicate 192 0 @ replicate 32 1 @ replicate 16 2 @ replicate 8 3 @ replicate 4 4 @
     [5, 5, 0, 0]"

definition utf8_minLegal :: "u32 list" where
  "utf8_minLegal = [0, 0x80, 0x800, 0x10000]"

definition utf8_errorValue :: "u32 list" where
  "utf8_errorValue = [0x15, 0x9f, 0xffff, 0x10ffff, 0x3ffffff, 0x7fffffff]"

definition unit_at :: "'c list \<Rightarrow> nat \<Rightarrow> 'c option" where
  "unit_at s i = (if i < length s then Some (s ! i) else None)"

text \<open>The body of the branches of the switch: one more trail byte.\<close>

definition read_trail :: "u8 list \<Rightarrow> nat \<times> u32 \<times> u8 \<Rightarrow> (nat \<times> u32 \<times> u8) option" where
  "read_trail s x = (case x of (i, c, illegal) \<Rightarrow> do {
     trail \<leftarrow> unit_at s i;
     Some (i + 1, push_bit 6 c OR ucast (trail AND 0x3f), illegal OR ((trail AND 0xc0) XOR 0x80)) })"

text \<open>
  The switch on the number of trail bytes, with its fall-throughs. The masked lead byte and what is
  shifted into it stay below \<open>2 ^ 21\<close>, so comparing them as unsigned numbers is comparing them as signed ones.
\<close>

definition read_trails :: "u8 list \<Rightarrow> nat \<Rightarrow> nat \<times> u32 \<times> u8 \<Rightarrow> (nat \<times> u32 \<times> u8) option" where
  "read_trails s count x =
     (if count \<ge> 4 then Some (fst x, fst (snd x), 1)
      else if count = 3 then do {
        (i, c, illegal) \<leftarrow> read_trail s x;
        if c < 0x110 then do { y \<leftarrow> read_trail s (i, c, illegal); read_trail s y }
        else Some (i, c, 1) }
      else if count = 2 then do { y \<leftarrow> read_trail s x; read_trail s y }
      else read_trail s x)"

text \<open>The loops of the error handling.\<close>

fun skip_trails :: "u8 list \<Rightarrow> nat \<Rightarrow> nat \<Rightarrow> (nat \<times> nat) option" where
  "skip_trails s i 0 = Some (i, 0)"
| "skip_trails s i (Suc count) = do {
     b \<leftarrow> unit_at s i;
     if CBU8_IS_TRAIL b then skip_trails s (i + 1) count else Some (i, Suc count) }"

function skip_to_end :: "u8 list \<Rightarrow> nat \<Rightarrow> nat \<Rightarrow> nat option" where
  "skip_to_end s i len = (if i < len then do {
     b \<leftarrow> unit_at s i;
     if CBU8_IS_TRAIL b then skip_to_end s (i + 1) len else Some i } else Some i)"
  by pat_completeness auto
termination by (relation "measure (\<lambda>(s, i, len). len - i)") auto

declare skip_to_end.simps [simp del]

definition utf8_nextCharSafeBody :: "u8 list \<Rightarrow> nat \<Rightarrow> nat \<Rightarrow> u32 \<Rightarrow> int \<Rightarrow> (nat \<times> u32) option" where
  "utf8_nextCharSafeBody s pi len c strict =
     (let count = utf8_countTrailBytes ! unat (ucast c :: u8) in
      if pi + count \<le> len
      then (if count = 0 then Some (pi, if strict \<ge> 0 then 0x15 else CBU_SENTINEL)
        else do {
          (i, c1, illegal) \<leftarrow> read_trails s count (pi, c AND (push_bit (6 - count) 1 - 1), 0);
          if illegal \<noteq> 0 \<or> c1 < utf8_minLegal ! count \<or> CBU_IS_SURROGATE c1 \<and> strict \<noteq> - 2
          then do {
            (i1, left_over) \<leftarrow> skip_trails s pi count;
            Some (i1, if strict \<ge> 0 then utf8_errorValue ! (count - left_over) else CBU_SENTINEL) }
          else if strict > 0 \<and> CBU_IS_UNICODE_NONCHAR c1 then Some (i, utf8_errorValue ! count)
          else Some (i, c1) })
      else do {
        i \<leftarrow> skip_to_end s pi len;
        Some (i, if strict \<ge> 0 then utf8_errorValue ! (i - pi) else CBU_SENTINEL) })"

text \<open>A \<open>char\<close> is signed, so the byte is sign-extended to the \<open>int32\<close> before it is tested and masked.\<close>

definition CBU8_NEXT :: "u8 list \<Rightarrow> nat \<Rightarrow> nat \<Rightarrow> (nat \<times> u32) option" where
  "CBU8_NEXT s i len = do {
     b \<leftarrow> unit_at s i;
     let c = (scast b :: u32);
     if (ucast c :: u8) \<ge> 0x80
     then (if CBU8_IS_LEAD c then utf8_nextCharSafeBody s (i + 1) len c (- 1) else Some (i + 1, CBU_SENTINEL))
     else Some (i + 1, c) }"

section \<open>Reading and writing one character\<close>

text \<open>
  The index returned is that of the last unit consumed; \<open>None\<close> in place of a code point is the result false.
\<close>

definition ReadUnicodeCharacter8 :: "u8 list \<Rightarrow> nat \<Rightarrow> nat \<Rightarrow> (nat \<times> u32 option) option" where
  "ReadUnicodeCharacter8 src src_len char_index = do {
     (next, code_point) \<leftarrow> CBU8_NEXT src char_index src_len;
     Some (next - 1, if IsValidCodepoint code_point then Some code_point else None) }"

definition CBU16_IS_SURROGATE_LEAD :: "u16 \<Rightarrow> bool" where
  "CBU16_IS_SURROGATE_LEAD c \<longleftrightarrow> c AND 0x400 = 0"

definition CBU16_IS_TRAIL :: "u16 \<Rightarrow> bool" where
  "CBU16_IS_TRAIL c \<longleftrightarrow> (ucast c :: u32) AND 0xfffffc00 = 0xdc00"

definition CBU16_GET_SUPPLEMENTARY :: "u16 \<Rightarrow> u16 \<Rightarrow> u32" where
  "CBU16_GET_SUPPLEMENTARY lead trail = push_bit 10 (ucast lead) + ucast trail - (push_bit 10 0xd800 + 0xdc00 - 0x10000)"

definition ReadUnicodeCharacter16 :: "u16 list \<Rightarrow> nat \<Rightarrow> nat \<Rightarrow> (nat \<times> u32 option) option" where
  "ReadUnicodeCharacter16 src src_len char_index = do {
     unit \<leftarrow> unit_at src char_index;
     if CBU_IS_SURROGATE (ucast unit)
     then (if \<not> CBU16_IS_SURROGATE_LEAD unit \<or> char_index + 1 \<ge> src_len then Some (char_index, None)
       else do {
         trail \<leftarrow> unit_at src (char_index + 1);
         if \<not> CBU16_IS_TRAIL trail then Some (char_index, None)
         else let code_point = CBU16_GET_SUPPLEMENTARY unit trail in
           Some (char_index + 1, if IsValidCodepoint code_point then Some code_point else None) })
     else Some (char_index, if IsValidCodepoint (ucast unit) then Some (ucast unit) else None) }"

definition ReadUnicodeCharacter32 :: "u32 list \<Rightarrow> nat \<Rightarrow> nat \<Rightarrow> (nat \<times> u32 option) option" where
  "ReadUnicodeCharacter32 src src_len char_index = do {
     code_point \<leftarrow> unit_at src char_index;
     Some (char_index, if IsValidCodepoint code_point then Some code_point else None) }"

definition CBU8_APPEND_UNSAFE :: "u32 \<Rightarrow> u8 list" where
  "CBU8_APPEND_UNSAFE c =
     (if c \<le> 0x7f then [ucast c]
      else (if c \<le> 0x7ff then [ucast (drop_bit 6 c OR 0xc0)]
         else (if c \<le> 0xffff then [ucast (drop_bit 12 c OR 0xe0)]
            else [ucast (drop_bit 18 c OR 0xf0), ucast ((drop_bit 12 c AND 0x3f) OR 0x80)]) @
           [ucast ((drop_bit 6 c AND 0x3f) OR 0x80)]) @
        [ucast ((c AND 0x3f) OR 0x80)])"

definition WriteUnicodeCharacter8 :: "u32 \<Rightarrow> u8 list" where
  "WriteUnicodeCharacter8 code_point = (if code_point \<le> 0x7f then [ucast code_point] else CBU8_APPEND_UNSAFE code_point)"

definition CBU16_LENGTH :: "u32 \<Rightarrow> nat" where
  "CBU16_LENGTH c = (if c \<le> 0xffff then 1 else 2)"

definition CBU16_APPEND_UNSAFE :: "u32 \<Rightarrow> u16 list" where
  "CBU16_APPEND_UNSAFE c = (if c \<le> 0xffff then [ucast c]
     else [ucast (drop_bit 10 c + 0xd7c0), ucast ((c AND 0x3ff) OR 0xdc00)])"

definition WriteUnicodeCharacter16 :: "u32 \<Rightarrow> u16 list" where
  "WriteUnicodeCharacter16 code_point =
     (if CBU16_LENGTH code_point = 1 then [ucast code_point] else CBU16_APPEND_UNSAFE code_point)"

definition WriteUnicodeCharacter32 :: "u32 \<Rightarrow> u32 list" where
  "WriteUnicodeCharacter32 code_point = [code_point]"

section \<open>Conversions\<close>

text \<open>The loop of the converter; every round reads at least one unit, so one round more than there are units is enough.\<close>

fun convert_loop :: "nat \<Rightarrow> (nat \<Rightarrow> (nat \<times> u32 option) option) \<Rightarrow> (u32 \<Rightarrow> 'd list) \<Rightarrow> nat \<Rightarrow> nat \<Rightarrow>
    bool \<Rightarrow> 'd list \<Rightarrow> (bool \<times> 'd list) option" where
  "convert_loop 0 read write len i success out = None"
| "convert_loop (Suc n) read write len i success out =
     (if i < len then do {
        (j, r) \<leftarrow> read i;
        case r of
          Some code_point \<Rightarrow> convert_loop n read write len (j + 1) success (out @ write code_point)
        | None \<Rightarrow> convert_loop n read write len (j + 1) False (out @ write 0xFFFD) }
      else Some (success, out))"

definition ConvertUnicode :: "('c list \<Rightarrow> nat \<Rightarrow> nat \<Rightarrow> (nat \<times> u32 option) option) \<Rightarrow> (u32 \<Rightarrow> 'd list) \<Rightarrow>
    'c list \<Rightarrow> (bool \<times> 'd list) option" where
  "ConvertUnicode read write src =
     convert_loop (Suc (length src)) (read src (length src)) write (length src) 0 True []"

definition WideToUTF8 :: "u32 list \<Rightarrow> (bool \<times> u8 list) option" where
  "WideToUTF8 src = ConvertUnicode ReadUnicodeCharacter32 WriteUnicodeCharacter8 src"
definition UTF8ToWide :: "u8 list \<Rightarrow> (bool \<times> u32 list) option" where
  "UTF8ToWide src = ConvertUnicode ReadUnicodeCharacter8 WriteUnicodeCharacter32 src"
definition WideToUTF16 :: "u32 list \<Rightarrow> (bool \<times> u16 list) option" where
  "WideToUTF16 src = ConvertUnicode ReadUnicodeCharacter32 WriteUnicodeCharacter16 src"
definition UTF16ToWide :: "u16 list \<Rightarrow> (bool \<times> u32 list) option" where
  "UTF16ToWide src = ConvertUnicode ReadUnicodeCharacter16 WriteUnicodeCharacter32 src"
definition UTF8ToUTF16 :: "u8 list \<Rightarrow> (bool \<times> u16 list) option" where
  "UTF8ToUTF16 src = ConvertUnicode ReadUnicodeCharacter8 WriteUnicodeCharacter16 src"
definition UTF16ToUTF8 :: "u16 list \<Rightarrow> (bool \<times> u8 list) option" where
  "UTF16ToUTF8 src = ConvertUnicode ReadUnicodeCharacter16 WriteUnicodeCharacter8 src"

fun IsStringUTF8_loop :: "nat \<Rightarrow> u8 list \<Rightarrow> nat \<Rightarrow> nat \<Rightarrow> bool option" where
  "IsStringUTF8_loop 0 src src_len char_index = None"
| "IsStringUTF8_loop (Suc n) src src_len char_index =
     (if char_index < src_len then do {
        (next, code_point) \<leftarrow> CBU8_NEXT src char_index src_len;
        if \<not> IsValidCharacter code_point then Some False
        else IsStringUTF8_loop n src src_len next }
      else Some True)"

definition IsStringUTF8 :: "u8 list \<Rightarrow> bool option" where
  "IsStringUTF8 str = IsStringUTF8_loop (Suc (length str)) str (length str) 0"

end
