(* ===== verification/NumberConv.thy ===== *)
theory NumberConv imports Prelude "HOL-Library.Signed_Division" begin

text \<open>
  \<open>base/string_number_conversions.h\<close> and \<open>.cc\<close>: integers as text and back, and hexadecimal bytes. The
  templates are polymorphic functions: \<open>'v word\<close> is the integer type and \<open>'c word\<close> the character type,
  so one definition is \<open>std::string\<close> for \<open>u8\<close> and \<open>string16\<close> for \<open>u16\<close>. A signed type is read with \<open>sint\<close>;
  where the code multiplies or adds past its range the word wraps around. White space is that of the
  C locale. The conversion of doubles belongs to a third-party library and is a parameter.
\<close>

section \<open>Integers to text\<close>

definition ToUnsigned :: "bool \<Rightarrow> 'v :: len word \<Rightarrow> 'v word" where
  "ToUnsigned NEG value = (if NEG \<and> sint value < 0 then - value else value)"

definition TestNeg :: "bool \<Rightarrow> 'v :: len word \<Rightarrow> bool" where
  "TestNeg NEG value \<longleftrightarrow> NEG \<and> sint value < 0"

text \<open>
  The loop that fills the buffer from its end; \<open>it\<close> is the index the iterator stands at. \<open>None\<close> is a
  failed check that the iterator has not reached the beginning.
\<close>

function write_digits :: "bool \<Rightarrow> nat \<Rightarrow> 'c :: len word list \<Rightarrow> 'v :: len word \<Rightarrow> 'c word list option" where
  "write_digits is_neg it outbuf res =
     (if it \<le> 1 then None
      else let out1 = outbuf[it - 1 := word_of_nat (unat (res mod 10) + 48)]; res1 = res div 10
        in if res1 = 0
           then (if is_neg
             then (if it \<le> 2 then None else Some (drop (it - 2) (out1[it - 2 := 45])))
             else Some (drop (it - 1) out1))
           else write_digits is_neg (it - 1) out1 res1)"
  by pat_completeness auto
termination by (relation "measure (\<lambda>(is_neg, it, outbuf, res). it)") auto

declare write_digits.simps [simp del]

definition IntToStringT :: "bool \<Rightarrow> 'v :: len word \<Rightarrow> 'c :: len word list option" where
  "IntToStringT NEG value = (let kOutputBufSize = 3 * (LENGTH('v) div 8) + 1 in
     write_digits (TestNeg NEG value) kOutputBufSize (replicate kOutputBufSize 0) (ToUnsigned NEG value))"

definition IntToString :: "u32 \<Rightarrow> u8 list option" where
  "IntToString value = IntToStringT True value"
definition IntToString16 :: "u32 \<Rightarrow> u16 list option" where
  "IntToString16 value = IntToStringT True value"
definition UintToString :: "u32 \<Rightarrow> u8 list option" where
  "UintToString value = IntToStringT False value"
definition UintToString16 :: "u32 \<Rightarrow> u16 list option" where
  "UintToString16 value = IntToStringT False value"
definition Int64ToString :: "u64 \<Rightarrow> u8 list option" where
  "Int64ToString value = IntToStringT True value"
definition Int64ToString16 :: "u64 \<Rightarrow> u16 list option" where
  "Int64ToString16 value = IntToStringT True value"
definition Uint64ToString :: "u64 \<Rightarrow> u8 list option" where
  "Uint64ToString value = IntToStringT False value"
definition Uint64ToString16 :: "u64 \<Rightarrow> u16 list option" where
  "Uint64ToString16 value = IntToStringT False value"

section \<open>Text to integers\<close>

definition digit_to_10 :: "nat \<Rightarrow> 'c :: len word \<Rightarrow> u8 option" where
  "digit_to_10 BASE c = (if 48 \<le> unat c \<and> unat c < 48 + BASE then Some (word_of_nat (unat c - 48)) else None)"

definition digit_above_10 :: "nat \<Rightarrow> 'c :: len word \<Rightarrow> u8 option" where
  "digit_above_10 BASE c =
     (if 48 \<le> unat c \<and> unat c \<le> 57 then Some (word_of_nat (unat c - 48))
      else if 97 \<le> unat c \<and> unat c < 97 + BASE - 10 then Some (word_of_nat (unat c - 97 + 10))
      else if 65 \<le> unat c \<and> unat c < 65 + BASE - 10 then Some (word_of_nat (unat c - 65 + 10))
      else None)"

definition CharToDigit :: "nat \<Rightarrow> 'c :: len word \<Rightarrow> u8 option" where
  "CharToDigit BASE c = (if BASE \<le> 10 then digit_to_10 BASE c else digit_above_10 BASE c)"

definition LocalIsWhitespace :: "'c :: len word \<Rightarrow> bool" where
  "LocalIsWhitespace c \<longleftrightarrow> unat c = 32 \<or> 9 \<le> unat c \<and> unat c \<le> 13"

text \<open>
  The traits of a conversion. The maximum of the hexadecimal one has the unsigned type, so it is kept
  as a word and divided as one, which for the others, whose maximum is not negative, is the same.
\<close>

record (overloaded) 'v traits =
  traits_min :: "'v word"
  traits_max :: "'v word"
  kBase :: nat

text \<open>\<open>CheckBounds\<close> gives the value the output is set to when the next digit does not fit.\<close>

definition Positive_CheckBounds :: "('v :: len) traits \<Rightarrow> 'v word \<Rightarrow> u8 \<Rightarrow> 'v word option" where
  "Positive_CheckBounds T output new_digit =
     (let q = traits_max T div word_of_nat (kBase T); r = traits_max T mod word_of_nat (kBase T) in
      if sint output > sint q \<or> output = q \<and> unat new_digit > unat r then Some (traits_max T) else None)"

definition Negative_CheckBounds :: "('v :: len) traits \<Rightarrow> 'v word \<Rightarrow> u8 \<Rightarrow> 'v word option" where
  "Negative_CheckBounds T output new_digit =
     (let q = sint (traits_min T) sdiv int (kBase T); r = sint (traits_min T) smod int (kBase T) in
      if sint output < q \<or> sint output = q \<and> uint new_digit > 0 - r then Some (traits_min T) else None)"

definition CheckBounds :: "bool \<Rightarrow> ('v :: len) traits \<Rightarrow> 'v word \<Rightarrow> u8 \<Rightarrow> 'v word option" where
  "CheckBounds neg T = (if neg then Negative_CheckBounds T else Positive_CheckBounds T)"

definition Increment :: "bool \<Rightarrow> u8 \<Rightarrow> 'v :: len word \<Rightarrow> 'v word" where
  "Increment neg increment output = (if neg then output - ucast increment else output + ucast increment)"

text \<open>The loop over the digits; \<open>first\<close> says that \<open>current\<close> is still \<open>begin\<close>.\<close>

fun parse_digits :: "bool \<Rightarrow> ('v :: len) traits \<Rightarrow> bool \<Rightarrow> 'c :: len word list \<Rightarrow> 'v word \<Rightarrow> bool \<times> 'v word" where
  "parse_digits neg T first [] output = (True, output)"
| "parse_digits neg T first (c # cs) output = (case CharToDigit (kBase T) c of
     None \<Rightarrow> (False, output)
   | Some new_digit \<Rightarrow>
       (if first then parse_digits neg T False cs (Increment neg new_digit output)
        else case CheckBounds neg T output new_digit of
          Some saturated \<Rightarrow> (False, saturated)
        | None \<Rightarrow> parse_digits neg T False cs (Increment neg new_digit (output * word_of_nat (kBase T)))))"

definition skip_prefix :: "nat \<Rightarrow> 'c :: len word list \<Rightarrow> 'c word list" where
  "skip_prefix base s = (if base = 16 \<and> length s \<ge> 2 \<and> s ! 0 = 48 \<and> (s ! 1 = 120 \<or> s ! 1 = 88)
     then drop 2 s else s)"

definition Base_Invoke :: "bool \<Rightarrow> ('v :: len) traits \<Rightarrow> 'c :: len word list \<Rightarrow> bool \<times> 'v word" where
  "Base_Invoke neg T s = (if s = [] then (False, 0)
     else parse_digits neg T True (skip_prefix (kBase T) s) 0)"

fun skip_whitespace :: "bool \<Rightarrow> 'c :: len word list \<Rightarrow> bool \<times> 'c word list" where
  "skip_whitespace valid [] = (valid, [])"
| "skip_whitespace valid (c # cs) = (if LocalIsWhitespace c then skip_whitespace False cs else (valid, c # cs))"

definition IteratorRangeToNumber :: "('v :: len) traits \<Rightarrow> 'c :: len word list \<Rightarrow> bool \<times> 'v word" where
  "IteratorRangeToNumber T s = (let (valid, s1) = skip_whitespace True s in
     if s1 \<noteq> [] \<and> hd s1 = 45
     then (let (ok, output) = Base_Invoke True T (tl s1) in (valid \<and> ok, output))
     else (let s2 = (if s1 \<noteq> [] \<and> hd s1 = 43 then tl s1 else s1);
               (ok, output) = Base_Invoke False T s2 in (valid \<and> ok, output)))"

text \<open>The limits of a signed type of the width of the word.\<close>

definition signed_traits :: "nat \<Rightarrow> ('v :: len) traits" where
  "signed_traits BASE = \<lparr>traits_min = word_of_int (- (2 ^ (LENGTH('v) - 1))),
     traits_max = word_of_int (2 ^ (LENGTH('v) - 1) - 1), kBase = BASE\<rparr>"

definition hex_traits :: "32 traits" where
  "hex_traits = (signed_traits 16)\<lparr>traits_max := - 1\<rparr>"

definition StringToInt :: "u8 list \<Rightarrow> bool \<times> u32" where
  "StringToInt input = IteratorRangeToNumber (signed_traits 10) input"
definition StringToInt_wide :: "u16 list \<Rightarrow> bool \<times> u32" where
  "StringToInt_wide input = IteratorRangeToNumber (signed_traits 10) input"
definition StringToInt64 :: "u8 list \<Rightarrow> bool \<times> u64" where
  "StringToInt64 input = IteratorRangeToNumber (signed_traits 10) input"
definition StringToInt64_wide :: "u16 list \<Rightarrow> bool \<times> u64" where
  "StringToInt64_wide input = IteratorRangeToNumber (signed_traits 10) input"
definition HexStringToInt :: "u8 list \<Rightarrow> bool \<times> u32" where
  "HexStringToInt input = IteratorRangeToNumber hex_traits input"

text \<open>
  \<open>strtod\<close> is given the characters up to the first NUL, and returns the bits of the number, how many
  characters it read, and whether it left \<open>errno\<close> at zero.
\<close>

definition StringToDouble :: "(u8 list \<Rightarrow> u64 \<times> nat \<times> bool) \<Rightarrow> u8 list \<Rightarrow> bool \<times> u64" where
  "StringToDouble strtod input = (case strtod (takeWhile (\<lambda>c. c \<noteq> 0) input) of (d, endptr, no_error) \<Rightarrow>
     (no_error \<and> input \<noteq> [] \<and> length input = endptr \<and> \<not> LocalIsWhitespace (input ! 0), d))"

definition DoubleToString :: "(u64 \<Rightarrow> u8 list) \<Rightarrow> u64 \<Rightarrow> u8 list" where
  "DoubleToString g_fmt d = takeWhile (\<lambda>c. c \<noteq> 0) (g_fmt d)"

section \<open>Hexadecimal bytes\<close>

definition kHexChars :: "u8 list" where
  "kHexChars = [48, 49, 50, 51, 52, 53, 54, 55, 56, 57, 65, 66, 67, 68, 69, 70]"

fun HexEncode :: "u8 list \<Rightarrow> u8 list" where
  "HexEncode [] = []"
| "HexEncode (b # bs) = kHexChars ! unat (drop_bit 4 b AND 15) # kHexChars ! unat (b AND 15) # HexEncode bs"

text \<open>The bytes pushed so far are kept when a character is not a digit.\<close>

fun hex_bytes :: "'c :: len word list \<Rightarrow> u8 list \<Rightarrow> bool \<times> u8 list" where
  "hex_bytes (a # b # s) output = (case (CharToDigit 16 a, CharToDigit 16 b) of
     (Some msb, Some lsb) \<Rightarrow> hex_bytes s (output @ [push_bit 4 msb OR lsb])
   | _ \<Rightarrow> (False, output))"
| "hex_bytes _ output = (True, output)"

definition HexStringToBytes :: "u8 list \<Rightarrow> bool \<times> u8 list" where
  "HexStringToBytes input = (if length input = 0 \<or> length input mod 2 \<noteq> 0 then (False, [])
     else hex_bytes input [])"

end
