(* ===== verification/NumberProps.thy ===== *)
theory NumberProps imports NumberConv begin

text \<open>
  Integers as text and back. The reference is decimal notation over unbounded integers: what is written
  is that notation and fits the buffer, what is read is the number of the longest run of digits, kept
  within the limits of the type. Both directions together are the round trip.
\<close>

section \<open>Decimal notation\<close>

fun decimal :: "nat \<Rightarrow> nat list" where
  "decimal n = (if n < 10 then [n] else decimal (n div 10) @ [n mod 10])"

declare decimal.simps [simp del]

definition digit_char :: "nat \<Rightarrow> 'c :: len word" where
  "digit_char d = word_of_nat (d + 48)"

definition numeral_of :: "int \<Rightarrow> 'c :: len word list" where
  "numeral_of k = (if k < 0 then [45] else []) @ map digit_char (decimal (nat \<bar>k\<bar>))"

definition horner :: "int \<Rightarrow> nat list \<Rightarrow> int" where
  "horner a ds = foldl (\<lambda>a d. a * 10 + int d) a ds"

lemma horner_simps [simp]:
  "horner a [] = a" "horner a (d # ds) = horner (a * 10 + int d) ds" "horner a (ds @ es) = horner (horner a ds) es"
  by (simp_all add: horner_def)

lemma horner_decimal: "horner 0 (decimal n) = int n"
proof (induction n rule: decimal.induct)
  case (1 n)
  moreover have "int (n div 10) * 10 + int (n mod 10) = int n" by presburger
  ultimately show ?case by (subst decimal.simps) auto
qed

lemma decimal_nonempty [simp]: "decimal n \<noteq> []"
  by (subst decimal.simps) simp

lemma decimal_digits: "\<forall>d \<in> set (decimal n). d < 10"
proof (induction n rule: decimal.induct)
  case (1 n)
  then show ?case by (subst decimal.simps) auto
qed

lemma decimal_length: "0 < k \<Longrightarrow> n < 10 ^ k \<Longrightarrow> length (decimal n) \<le> k"
proof (induction k arbitrary: n)
  case (Suc k)
  show ?case
  proof (cases "n < 10")
    case False
    with Suc.prems have "0 < k" "n div 10 < 10 ^ k" by (cases k; auto)+
    with Suc.IH [of "n div 10"] False show ?thesis by (subst decimal.simps) simp
  qed (subst decimal.simps, simp)
qed simp

section \<open>Writing\<close>

lemma take_bit_10 [simp]: "4 \<le> LENGTH('v :: len) \<Longrightarrow> take_bit LENGTH('v) 10 = (10 :: nat)"
proof -
  assume a: "4 \<le> LENGTH('v)"
  have "(16 :: nat) \<le> 2 ^ LENGTH('v)" using power_increasing [OF a, of "2 :: nat"] by simp
  then show ?thesis by (simp add: take_bit_nat_eq_self)
qed

lemma write_digits_decimal:
  fixes res :: "'v :: len word"
  assumes "4 \<le> LENGTH('v)" "length (decimal (unat res)) + (if is_neg then 1 else 0) < it" "it \<le> length outbuf"
  shows "write_digits is_neg it outbuf res =
    Some ((if is_neg then [45] else []) @ map digit_char (decimal (unat res)) @ drop it outbuf)"
  using assms
proof (induction is_neg it outbuf res rule: write_digits.induct)
  case (1 is_neg it outbuf res)
  obtain k where k: "length (decimal (unat res)) = Suc k" by (cases "decimal (unat res)") auto
  with "1.prems" have it: "1 < it" and it2: "is_neg \<Longrightarrow> 2 < it" by (auto split: if_splits)
  define out1 where "out1 = outbuf[it - 1 := word_of_nat (unat (res mod 10) + 48)]"
  have d1: "drop (it - 1) out1 = digit_char (unat res mod 10) # drop it outbuf"
    using it "1.prems" unfolding out1_def
    by (simp add: drop_update_swap Cons_nth_drop_Suc [symmetric] digit_char_def unat_mod)
  have d2: "drop (it - 2) (out1[it - 2 := 45]) = 45 # drop (it - 1) out1" if is_neg
    using it2 [OF that] "1.prems" unfolding out1_def
    by (simp add: drop_update_swap Cons_nth_drop_Suc [symmetric] numeral_2_eq_2 Suc_diff_Suc)
  have z: "res div 10 = 0 \<longleftrightarrow> unat res < 10"
    using "1.prems" by (simp add: unat_eq_0 [symmetric] unat_div div_eq_0_iff)
  show ?case
  proof (cases "unat res < 10")
    case True
    with it it2 d1 d2 z show ?thesis
      by (subst write_digits.simps, subst decimal.simps) (auto simp: out1_def Let_def)
  next
    case False
    have dec: "decimal (unat res) = decimal (unat res div 10) @ [unat res mod 10]"
      using False by (subst decimal.simps) simp
    from "1.IH" [OF _ out1_def refl] False it z "1.prems" dec
    have "write_digits is_neg (it - 1) out1 (res div 10) = Some ((if is_neg then [45] else []) @
        map digit_char (decimal (unat res div 10)) @ drop (it - 1) out1)"
      by (auto simp: unat_div out1_def)
    with False it z d1 dec show ?thesis
      by (subst write_digits.simps) (auto simp: out1_def Let_def)
  qed
qed

lemma uint_of_bounded: "0 \<le> k \<Longrightarrow> k \<le> 2 ^ (LENGTH('v) - 1) \<Longrightarrow> uint (word_of_int k :: 'v :: len word) = k"
proof -
  assume k: "0 \<le> k" "k \<le> 2 ^ (LENGTH('v) - 1)"
  have "(2 :: int) ^ (LENGTH('v) - 1) < 2 ^ LENGTH('v)" by simp
  with k(2) have "k < 2 ^ LENGTH('v)" by (rule le_less_trans)
  with k(1) have "take_bit LENGTH('v) k = k" by (rule take_bit_int_eq_self)
  then show ?thesis by (simp only: uint_word_of_int_eq)
qed

lemma unat_ToUnsigned:
  fixes v :: "'v :: len word"
  shows "unat (ToUnsigned neg v) = nat \<bar>if neg then sint v else uint v\<bar>"
proof -
  have lim: "- (2 ^ (LENGTH('v) - 1)) \<le> sint v" "sint v < 2 ^ (LENGTH('v) - 1)" by (rule sint_ge, rule sint_lt)
  have neg: "uint (- v) = - sint v" if "sint v < 0"
    using uint_of_bounded [where 'v='v, of "- sint v"] that lim by simp
  have pos: "uint v = sint v" if "0 \<le> sint v"
    using uint_of_bounded [where 'v='v, of "sint v"] that lim by simp
  show ?thesis
  proof (cases neg)
    case True
    have "nat (uint (ToUnsigned True v)) = nat \<bar>sint v\<bar>"
      using neg pos by (cases "sint v < 0") (simp_all add: ToUnsigned_def del: nat_uint_eq)
    with True show ?thesis by (simp only: unat_eq_nat_uint if_True)
  next
    case False
    then show ?thesis by (simp only: ToUnsigned_def unat_eq_nat_uint if_False simp_thms) simp
  qed
qed

lemma write_value:
  fixes v :: "'v :: len word"
  assumes "4 \<le> LENGTH('v)" "length (decimal (unat (ToUnsigned neg v))) + 1 < 3 * (LENGTH('v) div 8) + 1"
  shows "IntToStringT neg v = Some (numeral_of (if neg then sint v else uint v))"
proof -
  define k where "k = (if neg then sint v else uint v)"
  have sign: "TestNeg neg v \<longleftrightarrow> k < 0" by (auto simp: TestNeg_def k_def)
  have n: "unat (ToUnsigned neg v) = nat \<bar>k\<bar>" by (simp add: unat_ToUnsigned k_def)
  have "write_digits (k < 0) (3 * (LENGTH('v) div 8) + 1) (replicate (3 * (LENGTH('v) div 8) + 1) 0) (ToUnsigned neg v) =
    Some ((if k < 0 then [45] else []) @ map digit_char (decimal (unat (ToUnsigned neg v))) @
      drop (3 * (LENGTH('v) div 8) + 1) (replicate (3 * (LENGTH('v) div 8) + 1) 0))"
    by (rule write_digits_decimal) (use assms in auto)
  then show ?thesis by (simp add: IntToStringT_def Let_def sign n numeral_of_def k_def [symmetric] del: replicate_Suc)
qed

section \<open>Reading\<close>

definition is_digit :: "'c :: len word \<Rightarrow> bool" where
  "is_digit c \<longleftrightarrow> 48 \<le> unat c \<and> unat c \<le> 57"

definition leading :: "'c :: len word list \<Rightarrow> nat list" where
  "leading s = map (\<lambda>c. unat c - 48) (takeWhile is_digit s)"

definition clamp :: "int \<Rightarrow> int \<Rightarrow> int \<Rightarrow> int" where
  "clamp lo hi k = max lo (min hi k)"

text \<open>What a text stands for: whether it is exactly a number within the limits, and the nearest one.\<close>

definition read_number :: "int \<Rightarrow> int \<Rightarrow> 'c :: len word list \<Rightarrow> bool \<times> int" where
  "read_number lo hi s = (let
     t = dropWhile LocalIsWhitespace s;
     u = (if t \<noteq> [] \<and> (hd t = 45 \<or> hd t = 43) then tl t else t);
     n = horner 0 (leading u);
     k = (if t \<noteq> [] \<and> hd t = 45 then - n else n)
   in (t = s \<and> u \<noteq> [] \<and> list_all is_digit u \<and> lo \<le> k \<and> k \<le> hi, clamp lo hi k))"

lemma leading_simps [simp]:
  "leading [] = []"
  "is_digit c \<Longrightarrow> leading (c # cs) = (unat c - 48) # leading cs"
  "\<not> is_digit c \<Longrightarrow> leading (c # cs) = []"
  by (simp_all add: leading_def)

lemma CharToDigit_10:
  "CharToDigit 10 c = (if is_digit c then Some (word_of_nat (unat c - 48)) else None)"
  by (auto simp: CharToDigit_def digit_to_10_def is_digit_def)

lemma digit_value:
  assumes "is_digit c"
  shows "unat (word_of_nat (unat c - 48) :: u8) = unat c - 48" "unat c - 48 < 10"
proof -
  show "unat c - 48 < 10" using assms by (auto simp: is_digit_def)
  then show "unat (word_of_nat (unat c - 48) :: u8) = unat c - 48"
    by (simp add: unat_of_nat take_bit_nat_eq_self)
qed

lemma horner_mono: "0 \<le> a \<Longrightarrow> a \<le> horner a ds"
proof (induction ds arbitrary: a)
  case (Cons d ds)
  from Cons.IH [of "a * 10 + int d"] Cons.prems show ?case by simp
qed simp

text \<open>The checks before a digit, as comparisons of the number it would make with the limits.\<close>

lemma digit_order: "0 \<le> r \<Longrightarrow> r < 10 \<Longrightarrow> 0 \<le> d \<Longrightarrow> d < 10 \<Longrightarrow> q < v \<or> v = q \<and> r < d \<longleftrightarrow> q * 10 + r < v * 10 + (d :: int)"
  by linarith

lemma over_limit: "0 \<le> v \<Longrightarrow> 0 \<le> d \<Longrightarrow> d < 10 \<Longrightarrow> M div 10 < v \<or> v = M div 10 \<and> M mod 10 < d \<longleftrightarrow> M < v * 10 + (d :: int)"
  using digit_order [of "M mod 10" d "M div 10" v] by simp

lemma kBase_signed [simp]: "kBase (signed_traits b) = b"
  by (simp add: signed_traits_def)

lemma pos_step:
  fixes out :: "'v :: len word"
  assumes L: "8 \<le> LENGTH('v)" and out: "0 \<le> sint out" and d: "uint d < 10"
  defines "M \<equiv> 2 ^ (LENGTH('v) - 1) - 1" and "k \<equiv> sint out * 10 + uint d"
  shows "CheckBounds False (signed_traits 10) out d = (if k \<le> M then None else Some (word_of_int M))"
proof -
  have M: "0 \<le> M" by (simp add: M_def)
  have uM: "uint (word_of_int M :: 'v word) = M" by (rule uint_of_bounded) (use M in \<open>simp_all add: M_def\<close>)
  have ten: "uint (10 :: 'v word) = 10" using take_bit_10 [where 'v='v] L by (simp add: uint_nat flip: unat_numeral)
  have q: "uint (word_of_int M div 10 :: 'v word) = M div 10"
    and r: "uint (word_of_int M mod 10 :: 'v word) = M mod 10"
    by (simp_all only: uint_div uint_mod uM ten)
  have "M div 10 \<le> M" using M by presburger
  moreover have "word_of_int M div 10 = (word_of_int (M div 10) :: 'v word)" using q by (metis word_of_int_uint)
  moreover have "- (2 ^ (LENGTH('v) - 1)) \<le> M div 10" using M by (simp add: pos_imp_zdiv_nonneg_iff order_trans [of _ 0])
  ultimately have sq: "sint (word_of_int M div 10 :: 'v word) = M div 10"
    by (metis M_def sint_of_bounded zle_diff1_eq)
  have eq: "out = word_of_int M div 10 \<longleftrightarrow> sint out = M div 10"
    using sq by (metis signed_word_eqI)
  have lt: "unat (word_of_int M mod 10 :: 'v word) < unat d \<longleftrightarrow> M mod 10 < uint d"
    by (simp only: r [symmetric] uint_nat of_nat_less_iff)
  have "CheckBounds False (signed_traits 10) out d =
      (if M div 10 < sint out \<or> sint out = M div 10 \<and> M mod 10 < uint d then Some (word_of_int M) else None)"
    unfolding CheckBounds_def Positive_CheckBounds_def signed_traits_def M_def [symmetric]
    by (simp only: if_False Let_def traits.select_convs of_nat_numeral eq sq lt)
  also have "M div 10 < sint out \<or> sint out = M div 10 \<and> M mod 10 < uint d \<longleftrightarrow> M < k"
    unfolding k_def by (rule over_limit) (use out d in auto)
  finally show ?thesis by auto
qed

lemma under_limit: "0 \<le> M \<Longrightarrow> v \<le> 0 \<Longrightarrow> 0 \<le> d \<Longrightarrow> d < 10 \<Longrightarrow>
    v < - (M div 10) \<or> v = - (M div 10) \<and> M mod 10 < d \<longleftrightarrow> v * 10 - d < - (M :: int)"
  using digit_order [of "M mod 10" d "M div 10" "- v"] by auto

lemma neg_step:
  fixes out :: "'v :: len word"
  assumes out: "sint out \<le> 0" and d: "uint d < 10"
  defines "M \<equiv> 2 ^ (LENGTH('v) - 1)" and "k \<equiv> sint out * 10 - uint d"
  shows "CheckBounds True (signed_traits 10) out d = (if - M \<le> k then None else Some (word_of_int (- M)))"
proof -
  have M: "0 < M" by (simp add: M_def)
  have m: "sint (word_of_int (- M) :: 'v word) = - M" by (rule sint_of_bounded) (use M in \<open>simp_all add: M_def\<close>)
  have "CheckBounds True (signed_traits 10) out d =
      (if sint out < - (M div 10) \<or> sint out = - (M div 10) \<and> M mod 10 < uint d then Some (word_of_int (- M)) else None)"
    using M unfolding CheckBounds_def Negative_CheckBounds_def signed_traits_def M_def [symmetric]
    by (simp only: if_True Let_def traits.select_convs m) (auto simp: signed_divide_int_def signed_modulo_int_def)
  also have "sint out < - (M div 10) \<or> sint out = - (M div 10) \<and> M mod 10 < uint d \<longleftrightarrow> k < - M"
    unfolding k_def by (rule under_limit) (use M out d in auto)
  finally show ?thesis by auto
qed

text \<open>Both signs at once: \<open>s\<close> is \<open>1\<close> or \<open>-1\<close>.\<close>

definition sgn_of :: "bool \<Rightarrow> int" where
  "sgn_of neg = (if neg then - 1 else 1)"

definition low :: "nat \<Rightarrow> int" where
  "low n = - (2 ^ (n - 1))"

definition high :: "nat \<Rightarrow> int" where
  "high n = 2 ^ (n - 1) - 1"

lemma limits: "8 \<le> n \<Longrightarrow> low n \<le> - 128" "8 \<le> n \<Longrightarrow> 127 \<le> high n"
proof -
  assume "8 \<le> n"
  then have "(2 :: int) ^ 7 \<le> 2 ^ (n - 1)" by (intro power_increasing) auto
  then show "low n \<le> - 128" "127 \<le> high n" by (simp_all add: low_def high_def)
qed

lemma clamp_simps:
  "lo \<le> k \<Longrightarrow> k \<le> hi \<Longrightarrow> clamp lo hi k = k"
  "lo \<le> hi \<Longrightarrow> \<not> k \<le> hi \<Longrightarrow> clamp lo hi k = hi"
  "lo \<le> hi \<Longrightarrow> \<not> lo \<le> k \<Longrightarrow> clamp lo hi k = lo"
  by (simp_all add: clamp_def)

lemma digit_step:
  fixes out :: "'v :: len word"
  assumes L: "8 \<le> LENGTH('v)" and out: "0 \<le> sgn_of neg * sint out" and d: "uint d < 10"
  defines "k \<equiv> sint out * 10 + sgn_of neg * uint d"
  shows "CheckBounds neg (signed_traits 10) out d = (if low LENGTH('v) \<le> k \<and> k \<le> high LENGTH('v) then None
      else Some (word_of_int (clamp (low LENGTH('v)) (high LENGTH('v)) k)))"
    and "low LENGTH('v) \<le> k \<Longrightarrow> k \<le> high LENGTH('v) \<Longrightarrow> sint (Increment neg d (out * 10)) = k"
proof -
  note lim = limits [OF L]
  show "CheckBounds neg (signed_traits 10) out d = (if low LENGTH('v) \<le> k \<and> k \<le> high LENGTH('v) then None
      else Some (word_of_int (clamp (low LENGTH('v)) (high LENGTH('v)) k)))"
  proof (cases neg)
    case True
    with out have "sint out \<le> 0" by (simp add: sgn_of_def)
    with True have "k \<le> 0" using unsigned_greater_eq [of d, where 'a=int] by (auto simp: sgn_of_def k_def intro: order_trans [of _ 0])
    with True lim \<open>sint out \<le> 0\<close> show ?thesis
      by (simp add: neg_step [OF _ d] sgn_of_def k_def low_def high_def clamp_def)
  next
    case False
    with out have "0 \<le> sint out" "0 \<le> k" by (simp_all add: sgn_of_def k_def)
    with lim have "low LENGTH('v) \<le> k" by linarith
    have kk: "sint out * 10 + uint d = k" using False by (simp add: k_def sgn_of_def)
    have "CheckBounds False (signed_traits 10) out d =
        (if k \<le> high LENGTH('v) then None else Some (word_of_int (high LENGTH('v))))"
      using pos_step [OF L \<open>0 \<le> sint out\<close> d, folded high_def] by (simp only: kk)
    moreover have "low LENGTH('v) \<le> high LENGTH('v)" using lim by linarith
    ultimately show ?thesis using False \<open>low LENGTH('v) \<le> k\<close>
      by (cases "k \<le> high LENGTH('v)") (simp_all only: clamp_simps if_True if_False simp_thms)
  qed
  have "Increment neg d (out * 10) = word_of_int k"
    by (simp add: Increment_def sgn_of_def k_def)
  then show "low LENGTH('v) \<le> k \<Longrightarrow> k \<le> high LENGTH('v) \<Longrightarrow> sint (Increment neg d (out * 10)) = k"
    by (simp add: sint_of_bounded low_def high_def)
qed

lemma horner_out:
  fixes ds :: "nat list"
  assumes "0 \<le> sgn_of neg * k" "\<not> (lo \<le> k \<and> k \<le> hi)" "lo \<le> 0" "0 \<le> hi"
  defines "v \<equiv> sgn_of neg * horner (sgn_of neg * k) ds"
  shows "clamp lo hi v = clamp lo hi k \<and> \<not> (lo \<le> v \<and> v \<le> hi)"
  using assms(1-4) horner_mono [of "sgn_of neg * k" ds]
  by (auto simp: v_def sgn_of_def clamp_def split: if_splits)

lemma parse_rest:
  fixes out :: "'v :: len word"
  assumes L: "8 \<le> LENGTH('v)" and out: "0 \<le> sgn_of neg * sint out"
  defines "lo \<equiv> low LENGTH('v)" and "hi \<equiv> high LENGTH('v)"
  shows "parse_digits neg (signed_traits 10) False cs out =
    (let v = sgn_of neg * horner (sgn_of neg * sint out) (leading cs) in
      (list_all is_digit cs \<and> lo \<le> v \<and> v \<le> hi, word_of_int (clamp lo hi v)))"
  using out
proof (induction cs arbitrary: out)
  case Nil
  have "lo \<le> sint out" "sint out \<le> hi"
    using sint_ge [of out] sint_lt [of out] by (simp_all add: lo_def hi_def low_def high_def)
  then show ?case by (simp add: Let_def sgn_of_def clamp_def)
next
  case (Cons c cs)
  have range: "lo \<le> sint out" "sint out \<le> hi"
    using sint_ge [of out] sint_lt [of out] by (simp_all add: lo_def hi_def low_def high_def)
  show ?case
  proof (cases "is_digit c")
    case True
    define d :: u8 where "d = word_of_nat (unat c - 48)"
    have d1: "uint d = int (unat c - 48)" by (simp only: d_def uint_nat digit_value(1) [OF True])
    with digit_value(2) [OF True] have d: "uint d = int (unat c - 48)" "uint d < 10" by simp_all
    define k where "k = sint out * 10 + sgn_of neg * uint d"
    note step = digit_step [OF L Cons.prems d(2), folded k_def lo_def hi_def]
    have sk: "sgn_of neg * sint out * 10 + int (unat c - 48) = sgn_of neg * k"
      by (simp add: k_def d(1) [symmetric] sgn_of_def algebra_simps)
    have sk0: "0 \<le> sgn_of neg * k" using Cons.prems by (simp flip: sk)
    show ?thesis
    proof (cases "lo \<le> k \<and> k \<le> hi")
      case in_range: True
      with step sk0 have "0 \<le> sgn_of neg * sint (Increment neg d (out * 10))" by simp
      from Cons.IH [OF this] in_range step True show ?thesis
        by (simp add: CharToDigit_10 Let_def sk flip: d_def)
    next
      case False
      have "lo \<le> 0" "0 \<le> hi" using limits [OF L] by (simp_all add: lo_def hi_def)
      from horner_out [OF sk0 False this, of "leading cs"] False step True show ?thesis
        by (auto simp add: CharToDigit_10 Let_def sk simp flip: d_def)
    qed
  next
    case False
    with range show ?thesis by (simp add: CharToDigit_10 Let_def sgn_of_def clamp_def)
  qed
qed

lemma parse_first:
  assumes "8 \<le> LENGTH('v :: len)"
  shows "parse_digits neg (signed_traits 10) True cs 0 = parse_digits neg (signed_traits 10 :: 'v traits) False cs 0"
proof (cases cs)
  case (Cons c cs')
  show ?thesis
  proof (cases "is_digit c")
    case True
    define d :: u8 where "d = word_of_nat (unat c - 48)"
    have d1: "uint d = int (unat c - 48)" by (simp only: d_def uint_nat digit_value(1) [OF True])
    with digit_value(2) [OF True] have d: "uint d < 10" by simp
    have "0 \<le> uint d" by simp
    with d limits [OF assms] have "low LENGTH('v) \<le> sgn_of neg * uint d" "sgn_of neg * uint d \<le> high LENGTH('v)"
      by (cases neg; simp only: sgn_of_def if_True if_False; linarith)+
    with digit_step(1) [OF assms _ d, of neg "0 :: 'v word"] True Cons show ?thesis
      by (simp add: CharToDigit_10 flip: d_def)
  qed (simp add: Cons CharToDigit_10)
qed simp

lemma parse_number:
  fixes cs :: "'c :: len word list"
  assumes L: "8 \<le> LENGTH('v :: len)"
  shows "Base_Invoke neg (signed_traits 10 :: 'v traits) cs =
    (let v = sgn_of neg * horner 0 (leading cs) in
      (cs \<noteq> [] \<and> list_all is_digit cs \<and> low LENGTH('v) \<le> v \<and> v \<le> high LENGTH('v),
       word_of_int (clamp (low LENGTH('v)) (high LENGTH('v)) v)))"
  using parse_first [OF L, of neg cs] parse_rest [OF L, of neg 0 cs] limits [OF L]
  by (auto simp: Base_Invoke_def skip_prefix_def Let_def clamp_def)

lemma skip_whitespace_spec:
  "skip_whitespace valid s = (valid \<and> dropWhile LocalIsWhitespace s = s, dropWhile LocalIsWhitespace s)"
proof (induction s arbitrary: valid)
  case (Cons c s)
  have "dropWhile LocalIsWhitespace s \<noteq> c # s"
    using length_dropWhile_le [of LocalIsWhitespace s] by (metis impossible_Cons)
  with Cons.IH show ?case by simp
qed simp

lemma reads_number:
  fixes s :: "'c :: len word list"
  assumes "8 \<le> LENGTH('v :: len)"
  shows "IteratorRangeToNumber (signed_traits 10 :: 'v traits) s =
    map_prod id word_of_int (read_number (low LENGTH('v)) (high LENGTH('v)) s)"
  by (auto simp: IteratorRangeToNumber_def read_number_def skip_whitespace_spec parse_number [OF assms] Let_def
    sgn_of_def)

section \<open>Round trip\<close>

lemma digit_char_digit:
  assumes "d < 10" "8 \<le> LENGTH('c :: len)"
  shows "unat (digit_char d :: 'c word) = d + 48"
proof -
  have "(256 :: nat) \<le> 2 ^ LENGTH('c)" using power_increasing [OF assms(2), of "2 :: nat"] by simp
  with assms(1) show ?thesis by (simp only: digit_char_def unat_of_nat) simp
qed

lemma leading_digits:
  assumes "\<forall>d \<in> set ds. d < 10" "8 \<le> LENGTH('c :: len)"
  shows "leading (map digit_char ds :: 'c word list) = ds" "list_all is_digit (map digit_char ds :: 'c word list)"
  using assms(1) by (induction ds) (simp_all add: digit_char_digit [OF _ assms(2)] is_digit_def leading_def)

lemma read_numeral:
  assumes L: "8 \<le> LENGTH('c :: len)" and k: "lo \<le> k" "k \<le> hi"
  shows "read_number lo hi (numeral_of k :: 'c word list) = (True, k)"
proof -
  define ds :: "'c word list" where "ds = map digit_char (decimal (nat \<bar>k\<bar>))"
  note dig = leading_digits [OF decimal_digits L, of "nat \<bar>k\<bar>", folded ds_def]
  obtain c cs where ds: "ds = c # cs" by (cases ds) (auto simp: ds_def)
  with dig(2) have "48 \<le> unat c" "unat c \<le> 57" by (simp_all add: is_digit_def)
  moreover have "(256 :: nat) \<le> 2 ^ LENGTH('c)" using power_increasing [OF L, of "2 :: nat"] by simp
  then have signs: "unat (45 :: 'c word) = 45" "unat (43 :: 'c word) = 43" by (simp_all add: take_bit_nat_eq_self)
  ultimately have c: "\<not> LocalIsWhitespace c" "c \<noteq> 45" "c \<noteq> 43" by (auto simp: LocalIsWhitespace_def)
  have h: "horner 0 (leading ds) = \<bar>k\<bar>" by (simp add: dig(1) horner_decimal)
  have m: "\<not> LocalIsWhitespace (45 :: 'c word)" using signs by (simp add: LocalIsWhitespace_def)
  show ?thesis
  proof (cases "k < 0")
    case True
    then have "numeral_of k = (45 :: 'c word) # ds" by (simp add: numeral_of_def ds_def)
    with True h dig(2) k m show ?thesis by (simp add: read_number_def Let_def clamp_simps ds)
  next
    case False
    then have "numeral_of k = ds" by (simp add: numeral_of_def ds_def)
    with False h dig(2) k c show ?thesis by (simp add: read_number_def Let_def clamp_simps ds)
  qed
qed

lemma write_32: "IntToStringT neg (v :: u32) = Some (numeral_of (if neg then sint v else uint v))"
proof -
  have "length (decimal (unat (ToUnsigned neg v))) \<le> 10"
    by (rule decimal_length) (use unat_u32 [of "ToUnsigned neg v"] in simp_all)
  then show ?thesis by (intro write_value) simp_all
qed

lemma write_64: "IntToStringT neg (v :: u64) = Some (numeral_of (if neg then sint v else uint v))"
proof -
  have "length (decimal (unat (ToUnsigned neg v))) \<le> 20"
    by (rule decimal_length) (use unat_u64 [of "ToUnsigned neg v"] in simp_all)
  then show ?thesis by (intro write_value) simp_all
qed

lemma read_32:
  "StringToInt s = map_prod id word_of_int (read_number (- (2 ^ 31)) (2 ^ 31 - 1) s)"
  "StringToInt_wide ws = map_prod id word_of_int (read_number (- (2 ^ 31)) (2 ^ 31 - 1) ws)"
  by (simp_all add: StringToInt_def StringToInt_wide_def reads_number low_def high_def)

lemma read_64:
  "StringToInt64 s = map_prod id word_of_int (read_number (- (2 ^ 63)) (2 ^ 63 - 1) s)"
  "StringToInt64_wide ws = map_prod id word_of_int (read_number (- (2 ^ 63)) (2 ^ 63 - 1) ws)"
  by (simp_all add: StringToInt64_def StringToInt64_wide_def reads_number low_def high_def)

lemma limits_32: "- (2 ^ 31) \<le> sint (v :: u32)" "sint (v :: u32) \<le> 2 ^ 31 - 1"
  using sint_ge [of v] sint_lt [of v] by simp_all

lemma limits_64: "- (2 ^ 63) \<le> sint (v :: u64)" "sint (v :: u64) \<le> 2 ^ 63 - 1"
  using sint_ge [of v] sint_lt [of v] by simp_all

text \<open>
  The decimal text of every value of the four integer types, in both character types, fits the fixed
  buffer (the check on its beginning never fails), and is the decimal notation of the value.
\<close>

theorem integers_written:
  "IntToString v = Some (numeral_of (sint v)) \<and> IntToString16 v = Some (numeral_of (sint v)) \<and>
   UintToString v = Some (numeral_of (uint v)) \<and> UintToString16 v = Some (numeral_of (uint v)) \<and>
   Int64ToString w = Some (numeral_of (sint w)) \<and> Int64ToString16 w = Some (numeral_of (sint w)) \<and>
   Uint64ToString w = Some (numeral_of (uint w)) \<and> Uint64ToString16 w = Some (numeral_of (uint w))"
  by (simp add: IntToString_def IntToString16_def UintToString_def UintToString16_def Int64ToString_def
    Int64ToString16_def Uint64ToString_def Uint64ToString16_def write_32 write_64)

text \<open>
  C32: Reading a text gives the number of its digits, kept within the limits of the type, and reports
  success exactly for a sign at most, digits and nothing else, of a value within the limits.
\<close>

theorem integers_read:
  "StringToInt s = map_prod id word_of_int (read_number (- (2 ^ 31)) (2 ^ 31 - 1) s) \<and>
   StringToInt_wide ws = map_prod id word_of_int (read_number (- (2 ^ 31)) (2 ^ 31 - 1) ws) \<and>
   StringToInt64 s = map_prod id word_of_int (read_number (- (2 ^ 63)) (2 ^ 63 - 1) s) \<and>
   StringToInt64_wide ws = map_prod id word_of_int (read_number (- (2 ^ 63)) (2 ^ 63 - 1) ws)"
  by (simp add: read_32 read_64)

text \<open>
  C33: Every value of the integer types is read back from its text, and nothing else than success is reported.
\<close>

theorem integers_round_trip:
  "map_option StringToInt (IntToString v) = Some (True, v) \<and>
   map_option StringToInt_wide (IntToString16 v) = Some (True, v) \<and>
   map_option StringToInt64 (Int64ToString w) = Some (True, w) \<and>
   map_option StringToInt64_wide (Int64ToString16 w) = Some (True, w)"
  by (simp add: IntToString_def IntToString16_def Int64ToString_def Int64ToString16_def
    write_32 write_64 read_32 read_64 read_numeral limits_32 [simplified] limits_64 [simplified])

lemma hex_overflow_accepted:
  "HexStringToInt (map word_of_nat [56, 48, 48, 48, 48, 48, 48, 48, 48]) = (True, 0)"
  "HexStringToInt (map word_of_nat [102, 102, 102, 102, 102, 102, 102, 102, 48]) = (True, - 16)"
  "HexStringToInt (map word_of_nat [49, 48, 48, 48, 48, 48, 48, 48, 48]) = (False, - 1)"
  "HexStringToInt (map word_of_nat [48, 120]) = (True, 0)"
  by code_simp+

section \<open>Hexadecimal bytes\<close>

lemma hex_digit: "n < 16 \<Longrightarrow> CharToDigit 16 (kHexChars ! n) = Some (word_of_nat n)"
proof -
  assume "n < 16"
  then have "n \<in> set [0..<16]" by simp
  moreover have "list_all (\<lambda>n. CharToDigit 16 (kHexChars ! n) = Some (word_of_nat n)) [0..<16]" by code_simp
  ultimately show ?thesis unfolding list_all_iff by blast
qed

lemma nibbles: "push_bit 4 (drop_bit 4 b AND 15) OR (b AND 15) = (b :: u8)"
proof -
  have m: "(15 :: u8) = mask 4" by (simp add: mask_eq_exp_minus_1)
  show ?thesis unfolding m by (rule bit_word_eqI) (auto simp: bit_simps)
qed

lemma nibble_bound: "unat (w AND 15 :: u8) < 16"
proof -
  have "unat (w AND 15 :: u8) = unat w AND 15" by (simp add: unsigned_and_eq)
  also have "\<dots> = unat w mod 16" using take_bit_eq_mask [of 4 "unat w"] by (simp add: take_bit_eq_mod mask_eq_exp_minus_1)
  finally show ?thesis by simp
qed

lemma hex_bytes_encode: "hex_bytes (HexEncode bs) out = (True, out @ bs)"
  by (induction bs arbitrary: out) (simp_all add: hex_digit nibble_bound nibbles del: push_bit_and)

lemma length_HexEncode [simp]: "length (HexEncode bs) = 2 * length bs"
  by (induction bs) simp_all

lemma hex_round_trip: "HexStringToBytes (HexEncode bs) = (bs \<noteq> [], bs)"
  by (cases bs) (simp_all add: HexStringToBytes_def hex_bytes_encode del: HexEncode.simps(2))

end
