(* ===== verification/JsonWriter.thy ===== *)
theory JsonWriter imports Utf Values NumberProps begin

text \<open>
  \<open>base/json/string_escape.cc\<close> and \<open>base/json/json_writer.h\<close> and \<open>.cc\<close>: values as JSON text. The functions
  that append to an output string give what they append; \<open>None\<close> is a read outside a string or the
  \<open>NOTREACHED\<close> of a binary value. Characters are written as their ASCII codes: 34 is the quotation mark,
  92 the backslash, 44 the comma, 46 the dot, 48 the digit zero, 58 the colon, 91 and 93 the brackets, 123 and
  125 the braces. The conversion of doubles to text, a third-party function, is the parameter \<open>g_fmt\<close>.
\<close>

definition ascii :: "string \<Rightarrow> u8 list" where
  "ascii s = map of_char s"

section \<open>Quoted strings\<close>

definition JsonSingleEscapeChar :: "'c :: len word \<Rightarrow> u8 list option" where
  "JsonSingleEscapeChar c =
     (if unat c = 8 then Some [92, 98]
      else if unat c = 12 then Some [92, 102]
      else if unat c = 10 then Some [92, 110]
      else if unat c = 13 then Some [92, 114]
      else if unat c = 9 then Some [92, 116]
      else if unat c = 92 then Some [92, 92]
      else if unat c = 34 then Some [92, 34]
      else None)"

text \<open>The formats of the C library that are used: \<open>%d\<close> and \<open>%i\<close> are decimal notation of an \<open>int\<close>.\<close>

definition format_d :: "u32 \<Rightarrow> u8 list" where
  "format_d value = numeral_of (sint value)"

text \<open>The format \<open>%04X\<close>: upper-case hexadecimal digits, at least four.\<close>

fun hex_upper :: "nat \<Rightarrow> u8 list" where
  "hex_upper n = (if n < 16 then [kHexChars ! n] else hex_upper (n div 16) @ [kHexChars ! (n mod 16)])"

declare hex_upper.simps [simp del]

definition format_04X :: "nat \<Rightarrow> u8 list" where
  "format_04X n = (let ds = hex_upper n in replicate (4 - length ds) 48 @ ds)"

definition json_escape_char :: "'c :: len word \<Rightarrow> u8 list" where
  "json_escape_char c = (case JsonSingleEscapeChar c of
     Some escaped \<Rightarrow> escaped
   | None \<Rightarrow> (if unat c < 32 \<or> unat c > 126 \<or> unat c = 60 \<or> unat c = 62
       then [92, 117] @ format_04X (unat c) else [ucast c]))"

definition JsonDoubleQuoteT :: "'c :: len word list \<Rightarrow> bool \<Rightarrow> u8 list" where
  "JsonDoubleQuoteT str put_in_quotes =
     (if put_in_quotes then [34] else []) @ concat (map json_escape_char str) @ (if put_in_quotes then [34] else [])"

definition JsonDoubleQuote :: "u8 list \<Rightarrow> bool \<Rightarrow> u8 list" where
  "JsonDoubleQuote str put_in_quotes = JsonDoubleQuoteT str put_in_quotes"
definition JsonDoubleQuote16 :: "u16 list \<Rightarrow> bool \<Rightarrow> u8 list" where
  "JsonDoubleQuote16 str put_in_quotes = JsonDoubleQuoteT str put_in_quotes"
definition GetDoubleQuotedJson :: "u8 list \<Rightarrow> u8 list" where
  "GetDoubleQuotedJson str = JsonDoubleQuote str True"
definition GetDoubleQuotedJson16 :: "u16 list \<Rightarrow> u8 list" where
  "GetDoubleQuotedJson16 str = JsonDoubleQuote16 str True"

section \<open>Values\<close>

definition kPrettyPrintLineEnding :: "u8 list" where
  "kPrettyPrintLineEnding = [10]"

definition IndentLine :: "nat \<Rightarrow> u8 list" where
  "IndentLine depth = replicate (depth * 3) 32"

definition AppendQuotedString :: "str \<Rightarrow> u8 list option" where
  "AppendQuotedString s = do {
     (ok, units) \<leftarrow> UTF8ToUTF16 s;
     Some (JsonDoubleQuote16 units True) }"

text \<open>A real always has a decimal point or an exponent, and a digit before the point.\<close>

definition json_real :: "(u64 \<Rightarrow> u8 list) \<Rightarrow> u64 \<Rightarrow> u8 list" where
  "json_real g_fmt value =
     (let real = DoubleToString g_fmt value;
          real1 = (if 46 \<notin> set real \<and> 101 \<notin> set real \<and> 69 \<notin> set real then real @ [46, 48] else real)
      in if real1 ! 0 = 46 then 48 # real1
         else if length real1 > 1 \<and> real1 ! 0 = 45 \<and> real1 ! 1 = 46 then hd real1 # 48 # tl real1
         else real1)"

text \<open>
  The keys of a dictionary are distinct, so looking up the key of an entry gives its value. The argument
  \<open>first\<close> says that no element of the list or dictionary was written yet.
\<close>

fun BuildJSONString :: "(u64 \<Rightarrow> u8 list) \<Rightarrow> bool \<Rightarrow> Value \<Rightarrow> nat \<Rightarrow> bool \<Rightarrow> u8 list option"
  and BuildJSONString_items :: "(u64 \<Rightarrow> u8 list) \<Rightarrow> bool \<Rightarrow> bool \<Rightarrow> Value list \<Rightarrow> nat \<Rightarrow> bool \<Rightarrow> u8 list option"
  and BuildJSONString_entries ::
    "(u64 \<Rightarrow> u8 list) \<Rightarrow> bool \<Rightarrow> bool \<Rightarrow> (str \<times> Value) list \<Rightarrow> nat \<Rightarrow> bool \<Rightarrow> u8 list option" where
  "BuildJSONString g_fmt pretty NullValue depth escape = Some (ascii ''null'')"
| "BuildJSONString g_fmt pretty (BooleanValue value) depth escape = Some (if value then ascii ''true'' else ascii ''false'')"
| "BuildJSONString g_fmt pretty (IntegerValue value) depth escape = Some (format_d value)"
| "BuildJSONString g_fmt pretty (RealValue value) depth escape = Some (json_real g_fmt value)"
| "BuildJSONString g_fmt pretty (StringValue value) depth escape =
     (if escape then AppendQuotedString value else Some (JsonDoubleQuote value True))"
| "BuildJSONString g_fmt pretty (ListValue list) depth escape = do {
     items \<leftarrow> BuildJSONString_items g_fmt pretty True list depth escape;
     Some ([91] @ (if pretty then [32] else []) @ items @ (if pretty then [32] else []) @ [93]) }"
| "BuildJSONString g_fmt pretty (DictionaryValue dict) depth escape = do {
     entries \<leftarrow> BuildJSONString_entries g_fmt pretty True dict depth escape;
     Some ([123] @ (if pretty then kPrettyPrintLineEnding else []) @ entries @
       (if pretty then kPrettyPrintLineEnding @ IndentLine depth else []) @ [125]) }"
| "BuildJSONString g_fmt pretty (BinaryValue buffer) depth escape = None"
| "BuildJSONString_items g_fmt pretty first [] depth escape = Some []"
| "BuildJSONString_items g_fmt pretty first (value # list) depth escape = do {
     text1 \<leftarrow> BuildJSONString g_fmt pretty value depth escape;
     rest \<leftarrow> BuildJSONString_items g_fmt pretty False list depth escape;
     Some ((if first then [] else [44] @ (if pretty then [32] else [])) @ text1 @ rest) }"
| "BuildJSONString_entries g_fmt pretty first [] depth escape = Some []"
| "BuildJSONString_entries g_fmt pretty first ((key, value) # dict) depth escape = do {
     quoted \<leftarrow> AppendQuotedString key;
     text1 \<leftarrow> BuildJSONString g_fmt pretty value (depth + 1) escape;
     rest \<leftarrow> BuildJSONString_entries g_fmt pretty False dict depth escape;
     Some ((if first then [] else [44] @ (if pretty then kPrettyPrintLineEnding else [])) @
       (if pretty then IndentLine (depth + 1) else []) @ quoted @
       (if pretty then [58, 32] else [58]) @ text1 @ rest) }"

definition WriteWithOptionalEscape :: "(u64 \<Rightarrow> u8 list) \<Rightarrow> Value \<Rightarrow> bool \<Rightarrow> bool \<Rightarrow> u8 list option" where
  "WriteWithOptionalEscape g_fmt node pretty_print escape = do {
     json \<leftarrow> BuildJSONString g_fmt pretty_print node 0 escape;
     Some (json @ (if pretty_print then kPrettyPrintLineEnding else [])) }"

definition JSONWriter_Write :: "(u64 \<Rightarrow> u8 list) \<Rightarrow> Value \<Rightarrow> bool \<Rightarrow> u8 list option" where
  "JSONWriter_Write g_fmt node pretty_print = WriteWithOptionalEscape g_fmt node pretty_print True"

end
