(* ===== verification/JsonReader.thy ===== *)
theory JsonReader imports JsonWriter begin

text \<open>
  \<open>base/json/json_reader.h\<close> and \<open>.cc\<close>: JSON text to values. The text is a buffer of wide characters that
  ends in a NUL; a pointer into it is an index, and \<open>None\<close> is a read behind the NUL, a \<open>NOTREACHED\<close> or \<open>DCHECK\<close>,
  or fuel that ran out. Characters are written as their codes (see \<open>JsonWriter\<close>; 45 is the minus sign, 43 plus,
  47 the slash, 42 the asterisk, letters as in ASCII). The methods of the reader take and return its record.
  The conversion of text to doubles, a third-party function, is the parameter \<open>strtod\<close>.
\<close>

section \<open>Tokens and errors\<close>

datatype token_type = OBJECT_BEGIN | OBJECT_END | ARRAY_BEGIN | ARRAY_END | STRING | NUMBER | BOOL_TRUE | BOOL_FALSE
  | NULL_TOKEN | LIST_SEPARATOR | OBJECT_PAIR_SEPARATOR | END_OF_INPUT | INVALID_TOKEN

record token =
  tok_type :: token_type
  tok_begin :: nat
  tok_length :: nat

definition Token :: "token_type \<Rightarrow> nat \<Rightarrow> nat \<Rightarrow> token" where
  "Token t b len = \<lparr>tok_type = t, tok_begin = b, tok_length = len\<rparr>"

definition kInvalidToken :: token where
  "kInvalidToken = Token INVALID_TOKEN 0 0"

definition NextChar :: "u32 list \<Rightarrow> token \<Rightarrow> u32 option" where
  "NextChar buf token = unit_at buf (tok_begin token + tok_length token)"

definition longer :: "nat \<Rightarrow> token \<Rightarrow> token" where
  "longer n token = token\<lparr>tok_length := tok_length token + n\<rparr>"

datatype json_error = JSON_NO_ERROR | JSON_BAD_ROOT_ELEMENT_TYPE | JSON_INVALID_ESCAPE | JSON_SYNTAX_ERROR
  | JSON_TRAILING_COMMA | JSON_TOO_MUCH_NESTING | JSON_UNEXPECTED_DATA_AFTER_ROOT | JSON_UNSUPPORTED_ENCODING
  | JSON_UNQUOTED_DICTIONARY_KEY

record json_reader =
  start_pos :: nat
  json_pos :: nat
  stack_depth :: nat
  allow_trailing_comma :: bool
  error_code :: json_error
  error_line :: nat
  error_col :: nat

definition JSONReader_new :: json_reader where
  "JSONReader_new = \<lparr>start_pos = 0, json_pos = 0, stack_depth = 0, allow_trailing_comma = False,
     error_code = JSON_NO_ERROR, error_line = 0, error_col = 0\<rparr>"

definition kStackLimit :: nat where
  "kStackLimit = 100"

text \<open>The loop of \<open>SetErrorCode\<close> from the start of the text to the position of the error.\<close>

function count_lines :: "u32 list \<Rightarrow> nat \<Rightarrow> nat \<Rightarrow> nat \<Rightarrow> nat \<Rightarrow> (nat \<times> nat) option" where
  "count_lines buf pos error_pos line_number column_number =
     (if pos = error_pos then Some (line_number, column_number)
      else do {
        c \<leftarrow> unit_at buf pos;
        if c = 0 then None
        else if c = 10 then count_lines buf (pos + 1) error_pos (line_number + 1) 1
        else count_lines buf (pos + 1) error_pos line_number (column_number + 1) })"
  by pat_completeness auto
termination by (relation "measure (\<lambda>(buf, pos, e, l, c). length buf - pos)") (auto simp: unit_at_def split: if_splits)

declare count_lines.simps [simp del]

definition SetErrorCode :: "u32 list \<Rightarrow> json_error \<Rightarrow> nat \<Rightarrow> json_reader \<Rightarrow> json_reader option" where
  "SetErrorCode buf error error_pos s = do {
     (line_number, column_number) \<leftarrow> count_lines buf (start_pos s) error_pos 1 1;
     Some (s\<lparr>error_line := line_number, error_col := column_number, error_code := error\<rparr>) }"

section \<open>White space and comments\<close>

function eat_line :: "u32 list \<Rightarrow> nat \<Rightarrow> nat option" where
  "eat_line buf pos = do {
     c \<leftarrow> unit_at buf pos;
     if c = 0 then Some pos
     else if c = 10 \<or> c = 13 then Some (pos + 1)
     else eat_line buf (pos + 1) }"
  by pat_completeness auto
termination by (relation "measure (\<lambda>(buf, pos). length buf - pos)") (auto simp: unit_at_def split: if_splits)

function eat_block :: "u32 list \<Rightarrow> nat \<Rightarrow> nat option" where
  "eat_block buf pos = do {
     c \<leftarrow> unit_at buf pos;
     if c = 0 then Some pos
     else do {
       closed \<leftarrow> (if c = 42 then do { d \<leftarrow> unit_at buf (pos + 1); Some (d = 47) } else Some False);
       if closed then Some (pos + 2) else eat_block buf (pos + 1) } }"
  by pat_completeness auto
termination by (relation "measure (\<lambda>(buf, pos). length buf - pos)") (auto simp: unit_at_def split: if_splits)

declare eat_line.simps [simp del] eat_block.simps [simp del]

definition EatComment :: "u32 list \<Rightarrow> nat \<Rightarrow> (bool \<times> nat) option" where
  "EatComment buf pos = do {
     c \<leftarrow> unit_at buf pos;
     if c \<noteq> 47 then Some (False, pos)
     else do {
       next_char \<leftarrow> unit_at buf (pos + 1);
       if next_char = 47 then do { p \<leftarrow> eat_line buf (pos + 2); Some (True, p) }
       else if next_char = 42 then do { p \<leftarrow> eat_block buf (pos + 2); Some (True, p) }
       else Some (False, pos) } }"

lemma eat_line_forward: "eat_line buf pos = Some p \<Longrightarrow> pos \<le> p"
proof (induction "length buf - pos" arbitrary: pos rule: less_induct)
  case less
  have "pos < length buf \<Longrightarrow> eat_line buf (Suc pos) = Some p \<Longrightarrow> Suc pos \<le> p" by (rule less.hyps) auto
  with less.prems show ?case
    by (subst (asm) eat_line.simps) (auto simp: unit_at_def split: if_splits)
qed

lemma eat_block_forward: "eat_block buf pos = Some p \<Longrightarrow> pos \<le> p"
proof (induction "length buf - pos" arbitrary: pos rule: less_induct)
  case less
  have "pos < length buf \<Longrightarrow> eat_block buf (Suc pos) = Some p \<Longrightarrow> Suc pos \<le> p" by (rule less.hyps) auto
  with less.prems show ?case
    by (subst (asm) eat_block.simps) (auto simp: unit_at_def bind_eq_Some_conv split: if_splits)
qed

lemma EatComment_forward: "EatComment buf pos = Some (True, p) \<Longrightarrow> pos < p \<and> pos < length buf"
  by (auto simp: EatComment_def unit_at_def bind_eq_Some_conv split: if_splits dest!: eat_line_forward eat_block_forward)

function eat_space :: "u32 list \<Rightarrow> nat \<Rightarrow> nat option" where
  "eat_space buf pos = do {
     c \<leftarrow> unit_at buf pos;
     if c = 0 then Some pos
     else if c = 32 \<or> c = 10 \<or> c = 13 \<or> c = 9 then eat_space buf (pos + 1)
     else if c = 47 then do {
       (eaten, p) \<leftarrow> EatComment buf pos;
       if eaten then eat_space buf p else Some p }
     else Some pos }"
  by pat_completeness auto
termination
  by (relation "measure (\<lambda>(buf, pos). length buf - pos)")
    (auto simp: unit_at_def split: if_splits dest!: EatComment_forward)

declare eat_space.simps [simp del]

definition EatWhitespaceAndComments :: "u32 list \<Rightarrow> json_reader \<Rightarrow> json_reader option" where
  "EatWhitespaceAndComments buf s = do { p \<leftarrow> eat_space buf (json_pos s); Some (s\<lparr>json_pos := p\<rparr>) }"

fun NextStringMatch_from :: "u32 list \<Rightarrow> nat \<Rightarrow> nat \<Rightarrow> u8 list \<Rightarrow> bool option" where
  "NextStringMatch_from buf pos i [] = Some True"
| "NextStringMatch_from buf pos i (c # str) = do {
     first \<leftarrow> unit_at buf pos;
     if first = 0 then Some False
     else do {
       d \<leftarrow> unit_at buf (pos + i);
       if d \<noteq> ucast c then Some False else NextStringMatch_from buf pos (i + 1) str } }"

definition NextStringMatch :: "u32 list \<Rightarrow> json_reader \<Rightarrow> u8 list \<Rightarrow> bool option" where
  "NextStringMatch buf s str = NextStringMatch_from buf (json_pos s) 0 str"

section \<open>Numbers\<close>

definition is_dec :: "u32 \<Rightarrow> bool" where
  "is_dec c \<longleftrightarrow> 48 \<le> c \<and> c \<le> 57"

function ReadInt_loop :: "u32 list \<Rightarrow> token \<Rightarrow> nat \<Rightarrow> u32 \<Rightarrow> (token \<times> nat) option" where
  "ReadInt_loop buf token len c =
     (if c \<noteq> 0 \<and> is_dec c
      then do {
        d \<leftarrow> NextChar buf (longer 1 token);
        ReadInt_loop buf (longer 1 token) (len + 1) d }
      else Some (token, len))"
  by pat_completeness auto
termination
  by (relation "measure (\<lambda>(buf, token, len, c). length buf - (tok_begin token + tok_length token))")
    (auto simp: NextChar_def unit_at_def longer_def split: if_splits)

declare ReadInt_loop.simps [simp del]

definition ReadInt :: "u32 list \<Rightarrow> token \<Rightarrow> bool \<Rightarrow> (bool \<times> token) option" where
  "ReadInt buf token can_have_leading_zeros = do {
     first \<leftarrow> NextChar buf token;
     (token1, len) \<leftarrow> ReadInt_loop buf token 0 first;
     if len = 0 then Some (False, token1)
     else if \<not> can_have_leading_zeros \<and> len > 1 \<and> 48 = first then Some (False, token1)
     else Some (True, token1) }"

text \<open>The exponent, and the fraction before it: \<open>None\<close> inside the option is the invalid token.\<close>

definition ParseNumber_exponent :: "u32 list \<Rightarrow> token \<Rightarrow> u32 \<Rightarrow> token option" where
  "ParseNumber_exponent buf token c =
     (if c = 101 \<or> c = 69
      then do {
        let token1 = longer 1 token;
        c1 \<leftarrow> NextChar buf token1;
        let token2 = (if c1 = 45 \<or> c1 = 43 then longer 1 token1 else token1);
        (ok, token3) \<leftarrow> ReadInt buf token2 True;
        Some (if ok then token3 else kInvalidToken) }
      else Some token)"

definition ParseNumberToken :: "u32 list \<Rightarrow> json_reader \<Rightarrow> token option" where
  "ParseNumberToken buf s = do {
     let token = Token NUMBER (json_pos s) 0;
     c \<leftarrow> unit_at buf (json_pos s);
     let token1 = (if c = 45 then longer 1 token else token);
     (ok, token2) \<leftarrow> ReadInt buf token1 False;
     if \<not> ok then Some kInvalidToken
     else do {
       c2 \<leftarrow> NextChar buf token2;
       if c2 = 46
       then do {
         (ok3, token3) \<leftarrow> ReadInt buf (longer 1 token2) True;
         if \<not> ok3 then Some kInvalidToken
         else do { c3 \<leftarrow> NextChar buf token3; ParseNumber_exponent buf token3 c3 } }
       else ParseNumber_exponent buf token2 c2 } }"

text \<open>\<open>IsFinite\<close> of \<open>base/float_util.h\<close> on the bits of a double.\<close>

definition IsFinite :: "u64 \<Rightarrow> bool" where
  "IsFinite number \<longleftrightarrow> drop_bit 52 number AND 0x7FF \<noteq> 0x7FF"

definition token_text :: "u32 list \<Rightarrow> token \<Rightarrow> u32 list" where
  "token_text buf token = take (tok_length token) (drop (tok_begin token) buf)"

definition DecodeNumber :: "(u8 list \<Rightarrow> u64 \<times> nat \<times> bool) \<Rightarrow> u32 list \<Rightarrow> token \<Rightarrow> Value option option" where
  "DecodeNumber strtod buf token = do {
     (ok, num_string) \<leftarrow> WideToUTF8 (token_text buf token);
     let (is_int, num_int) = StringToInt num_string;
     if is_int then Some (Some (IntegerValue num_int))
     else let (is_double, num_double) = StringToDouble strtod num_string in
       Some (if is_double \<and> IsFinite num_double then Some (RealValue num_double) else None) }"

section \<open>Strings\<close>

definition IsHexDigit :: "u32 \<Rightarrow> bool" where
  "IsHexDigit c \<longleftrightarrow> 48 \<le> c \<and> c \<le> 57 \<or> 97 \<le> c \<and> c \<le> 102 \<or> 65 \<le> c \<and> c \<le> 70"

definition HexDigitToInt :: "u32 \<Rightarrow> u32 option" where
  "HexDigitToInt c =
     (if \<not> IsHexDigit c then None
      else if c \<ge> 48 \<and> c \<le> 57 then Some (c - 48)
      else if c \<ge> 65 \<and> c \<le> 70 then Some (c - 65 + 10)
      else if c \<ge> 97 \<and> c \<le> 102 then Some (c - 97 + 10)
      else Some 0)"

fun hex_digits_at :: "u32 list \<Rightarrow> nat \<Rightarrow> nat \<Rightarrow> bool option" where
  "hex_digits_at buf pos 0 = Some True"
| "hex_digits_at buf pos (Suc digits) = do {
     c \<leftarrow> unit_at buf pos;
     if c = 0 \<or> \<not> IsHexDigit c then Some False else hex_digits_at buf (pos + 1) digits }"

definition ReadHexDigits :: "u32 list \<Rightarrow> token \<Rightarrow> nat \<Rightarrow> (bool \<times> token) option" where
  "ReadHexDigits buf token digits = do {
     ok \<leftarrow> hex_digits_at buf (tok_begin token + tok_length token + 1) digits;
     Some (ok, if ok then longer digits token else token) }"

text \<open>
  The escape after a backslash; the token ends at the character after it. \<open>Inl\<close> is an invalid escape, with the
  token as it then is.
\<close>

definition parse_escape :: "u32 list \<Rightarrow> token \<Rightarrow> u32 \<Rightarrow> (token + token) option" where
  "parse_escape buf token c =
     (if c = 120 then do { (ok, token1) \<leftarrow> ReadHexDigits buf token 2; Some (if ok then Inr token1 else Inl token1) }
      else if c = 117 then do { (ok, token1) \<leftarrow> ReadHexDigits buf token 4; Some (if ok then Inr token1 else Inl token1) }
      else if c \<in> {92, 47, 98, 102, 110, 114, 116, 118, 34} then Some (Inr token)
      else Some (Inl token))"

text \<open>The loop over the characters; every round makes the token longer, so its fuel is the size of the buffer.\<close>

fun ParseString_loop :: "nat \<Rightarrow> u32 list \<Rightarrow> token \<Rightarrow> u32 \<Rightarrow> json_reader \<Rightarrow> (token \<times> json_reader) option" where
  "ParseString_loop 0 buf token c s = None"
| "ParseString_loop (Suc n) buf token c s =
     (if c = 0 then Some (kInvalidToken, s)
      else if c = 92 then do {
        let token1 = longer 1 token;
        c1 \<leftarrow> NextChar buf token1;
        r \<leftarrow> parse_escape buf token1 c1;
        case r of
          Inl token2 \<Rightarrow> do {
            s1 \<leftarrow> SetErrorCode buf JSON_INVALID_ESCAPE (json_pos s + tok_length token2) s;
            Some (kInvalidToken, s1) }
        | Inr token2 \<Rightarrow> do {
            let token3 = longer 1 token2;
            c3 \<leftarrow> NextChar buf token3;
            ParseString_loop n buf token3 c3 s } }
      else if c = 34 then Some (longer 1 token, s)
      else do {
        let token1 = longer 1 token;
        c1 \<leftarrow> NextChar buf token1;
        ParseString_loop n buf token1 c1 s })"

definition ParseStringToken :: "u32 list \<Rightarrow> json_reader \<Rightarrow> (token \<times> json_reader) option" where
  "ParseStringToken buf s = do {
     let token = Token STRING (json_pos s) 1;
     c \<leftarrow> NextChar buf token;
     ParseString_loop (length buf) buf token c s }"

definition hex_at :: "u32 list \<Rightarrow> nat \<Rightarrow> u32 option" where
  "hex_at buf pos = do { c \<leftarrow> unit_at buf pos; HexDigitToInt c }"

text \<open>The character that the escape with the letter \<open>c\<close> at \<open>pos\<close> stands for, and how many characters follow the letter.\<close>

definition decode_escape :: "u32 list \<Rightarrow> nat \<Rightarrow> u32 \<Rightarrow> (u32 \<times> nat) option" where
  "decode_escape buf pos c =
     (if c \<in> {34, 47, 92} then Some (c, 0)
      else if c = 98 then Some (8, 0)
      else if c = 102 then Some (12, 0)
      else if c = 110 then Some (10, 0)
      else if c = 114 then Some (13, 0)
      else if c = 116 then Some (9, 0)
      else if c = 118 then Some (11, 0)
      else if c = 120 then do {
        h1 \<leftarrow> hex_at buf (pos + 1); h2 \<leftarrow> hex_at buf (pos + 2);
        Some (push_bit 4 h1 + h2, 2) }
      else if c = 117 then do {
        h1 \<leftarrow> hex_at buf (pos + 1); h2 \<leftarrow> hex_at buf (pos + 2); h3 \<leftarrow> hex_at buf (pos + 3); h4 \<leftarrow> hex_at buf (pos + 4);
        Some (push_bit 12 h1 + push_bit 8 h2 + push_bit 4 h3 + h4, 4) }
      else None)"

function DecodeString_loop :: "u32 list \<Rightarrow> token \<Rightarrow> nat \<Rightarrow> u32 list \<Rightarrow> u32 list option" where
  "DecodeString_loop buf token i decoded_str =
     (if i + 1 < tok_length token
      then do {
        c \<leftarrow> unit_at buf (tok_begin token + i);
        if c = 92 then do {
          d \<leftarrow> unit_at buf (tok_begin token + (i + 1));
          (w, n) \<leftarrow> decode_escape buf (tok_begin token + (i + 1)) d;
          DecodeString_loop buf token (i + 1 + n + 1) (decoded_str @ [w]) }
        else DecodeString_loop buf token (i + 1) (decoded_str @ [c]) }
      else Some decoded_str)"
  by pat_completeness auto
termination by (relation "measure (\<lambda>(buf, token, i, d). tok_length token - i)") auto

declare DecodeString_loop.simps [simp del]

text \<open>The string value is made from UTF-16, which its constructor converts to UTF-8.\<close>

definition DecodeString :: "u32 list \<Rightarrow> token \<Rightarrow> str option" where
  "DecodeString buf token = do {
     decoded_str \<leftarrow> DecodeString_loop buf token 1 [];
     (ok, utf16) \<leftarrow> WideToUTF16 decoded_str;
     (ok', utf8) \<leftarrow> UTF16ToUTF8 utf16;
     Some utf8 }"

section \<open>Tokens\<close>

definition match_word :: "u32 list \<Rightarrow> json_reader \<Rightarrow> string \<Rightarrow> token_type \<Rightarrow> (token \<times> json_reader) option" where
  "match_word buf s str t = do {
     found \<leftarrow> NextStringMatch buf s (ascii str);
     Some (if found then Token t (json_pos s) (length str) else kInvalidToken, s) }"

definition ParseToken :: "u32 list \<Rightarrow> json_reader \<Rightarrow> (token \<times> json_reader) option" where
  "ParseToken buf s0 = do {
     s \<leftarrow> EatWhitespaceAndComments buf s0;
     c \<leftarrow> unit_at buf (json_pos s);
     if c = 0 then Some (Token END_OF_INPUT 0 0, s)
     else if c = 110 then match_word buf s ''null'' NULL_TOKEN
     else if c = 116 then match_word buf s ''true'' BOOL_TRUE
     else if c = 102 then match_word buf s ''false'' BOOL_FALSE
     else if c = 91 then Some (Token ARRAY_BEGIN (json_pos s) 1, s)
     else if c = 93 then Some (Token ARRAY_END (json_pos s) 1, s)
     else if c = 44 then Some (Token LIST_SEPARATOR (json_pos s) 1, s)
     else if c = 123 then Some (Token OBJECT_BEGIN (json_pos s) 1, s)
     else if c = 125 then Some (Token OBJECT_END (json_pos s) 1, s)
     else if c = 58 then Some (Token OBJECT_PAIR_SEPARATOR (json_pos s) 1, s)
     else if is_dec c \<or> c = 45 then do { token \<leftarrow> ParseNumberToken buf s; Some (token, s) }
     else if c = 34 then ParseStringToken buf s
     else Some (kInvalidToken, s) }"

section \<open>Values\<close>

definition advance :: "token \<Rightarrow> json_reader \<Rightarrow> json_reader" where
  "advance token s = s\<lparr>json_pos := json_pos s + tok_length token\<rparr>"

definition finish_value :: "Value \<Rightarrow> token \<Rightarrow> json_reader \<Rightarrow> Value option \<times> json_reader" where
  "finish_value node token s = (Some node, (advance token s)\<lparr>stack_depth := stack_depth s - 1\<rparr>)"

definition fail_with :: "u32 list \<Rightarrow> json_error \<Rightarrow> json_reader \<Rightarrow> ('a option \<times> json_reader) option" where
  "fail_with buf error s = do { s1 \<leftarrow> SetErrorCode buf error (json_pos s) s; Some (None, s1) }"

text \<open>
  The loops of \<open>BuildValue\<close> over the elements of an array and the entries of an object. The first component of a
  result is what was built and the token at which the loop stopped, or \<open>None\<close> for \<open>return NULL\<close>. The argument
  \<open>build\<close> is the recursive call. The first argument is fuel: every round reads a value, so the size of the
  buffer is enough.
\<close>

type_synonym value_builder = "json_reader \<Rightarrow> (Value option \<times> json_reader) option"

primrec BuildValue_array :: "nat \<Rightarrow> value_builder \<Rightarrow> u32 list \<Rightarrow> token \<Rightarrow> Value list \<Rightarrow> json_reader \<Rightarrow>
    ((Value list \<times> token) option \<times> json_reader) option" where
  "BuildValue_array 0 build buf token items s = None"
| "BuildValue_array (Suc n) build buf token items s =
     (if tok_type token = ARRAY_END then Some (Some (items, token), s)
      else do {
        (array_node, s1) \<leftarrow> build s;
        case array_node of
          None \<Rightarrow> Some (None, s1)
        | Some v \<Rightarrow> do {
            let items1 = List_Append v items;
            (token1, s2) \<leftarrow> ParseToken buf s1;
            if tok_type token1 = LIST_SEPARATOR then do {
              (token2, s3) \<leftarrow> ParseToken buf (advance token1 s2);
              if tok_type token2 = ARRAY_END
              then (if \<not> allow_trailing_comma s3 then fail_with buf JSON_TRAILING_COMMA s3
                else Some (Some (items1, token2), s3))
              else BuildValue_array n build buf token2 items1 s3 }
            else if tok_type token1 \<noteq> ARRAY_END then Some (None, s2)
            else BuildValue_array n build buf token1 items1 s2 } })"

primrec BuildValue_object :: "nat \<Rightarrow> value_builder \<Rightarrow> u32 list \<Rightarrow> token \<Rightarrow> value_map \<Rightarrow> json_reader \<Rightarrow>
    ((value_map \<times> token) option \<times> json_reader) option" where
  "BuildValue_object 0 build buf token dict s = None"
| "BuildValue_object (Suc n) build buf token dict s =
     (if tok_type token = OBJECT_END then Some (Some (dict, token), s)
      else if tok_type token \<noteq> STRING then fail_with buf JSON_UNQUOTED_DICTIONARY_KEY s
      else do {
        dict_key \<leftarrow> DecodeString buf token;
        (token1, s1) \<leftarrow> ParseToken buf (advance token s);
        if tok_type token1 \<noteq> OBJECT_PAIR_SEPARATOR then Some (None, s1)
        else do {
          (token2, s2) \<leftarrow> ParseToken buf (advance token1 s1);
          (dict_value, s3) \<leftarrow> build s2;
          case dict_value of
            None \<Rightarrow> Some (None, s3)
          | Some v \<Rightarrow> do {
              let dict1 = SetWithoutPathExpansion dict_key v dict;
              (token3, s4) \<leftarrow> ParseToken buf s3;
              if tok_type token3 = LIST_SEPARATOR then do {
                (token4, s5) \<leftarrow> ParseToken buf (advance token3 s4);
                if tok_type token4 = OBJECT_END
                then (if \<not> allow_trailing_comma s5 then fail_with buf JSON_TRAILING_COMMA s5
                  else Some (Some (dict1, token4), s5))
                else BuildValue_object n build buf token4 dict1 s5 }
              else if tok_type token3 \<noteq> OBJECT_END then Some (None, s4)
              else BuildValue_object n build buf token3 dict1 s4 } } })"

text \<open>
  \<open>BuildValue\<close> itself; \<open>None\<close> in the first component is \<open>return NULL\<close>. Its fuel goes down with the nesting, so one
  more than the limit on the stack is enough.
\<close>

primrec BuildValue :: "nat \<Rightarrow> (u8 list \<Rightarrow> u64 \<times> nat \<times> bool) \<Rightarrow> u32 list \<Rightarrow> bool \<Rightarrow> value_builder" where
  "BuildValue 0 strtod buf is_root s0 = None"
| "BuildValue (Suc n) strtod buf is_root s0 =
     (let s = s0\<lparr>stack_depth := stack_depth s0 + 1\<rparr> in
      if stack_depth s > kStackLimit then fail_with buf JSON_TOO_MUCH_NESTING s
      else do {
        (token, s1) \<leftarrow> ParseToken buf s;
        if is_root \<and> tok_type token \<noteq> OBJECT_BEGIN \<and> tok_type token \<noteq> ARRAY_BEGIN
        then fail_with buf JSON_BAD_ROOT_ELEMENT_TYPE s1
        else case tok_type token of
          NULL_TOKEN \<Rightarrow> Some (finish_value NullValue token s1)
        | BOOL_TRUE \<Rightarrow> Some (finish_value (BooleanValue True) token s1)
        | BOOL_FALSE \<Rightarrow> Some (finish_value (BooleanValue False) token s1)
        | NUMBER \<Rightarrow> do {
            node \<leftarrow> DecodeNumber strtod buf token;
            Some (case node of None \<Rightarrow> (None, s1) | Some v \<Rightarrow> finish_value v token s1) }
        | STRING \<Rightarrow> do {
            str \<leftarrow> DecodeString buf token;
            Some (finish_value (StringValue str) token s1) }
        | ARRAY_BEGIN \<Rightarrow> do {
            (token1, s2) \<leftarrow> ParseToken buf (advance token s1);
            (r, s3) \<leftarrow> BuildValue_array (length buf) (BuildValue n strtod buf False) buf token1 [] s2;
            Some (case r of None \<Rightarrow> (None, s3) | Some (items, token2) \<Rightarrow> finish_value (ListValue items) token2 s3) }
        | OBJECT_BEGIN \<Rightarrow> do {
            (token1, s2) \<leftarrow> ParseToken buf (advance token s1);
            (r, s3) \<leftarrow> BuildValue_object (length buf) (BuildValue n strtod buf False) buf token1 [] s2;
            Some (case r of None \<Rightarrow> (None, s3) | Some (dict, token2) \<Rightarrow> finish_value (DictionaryValue dict) token2 s3) }
        | _ \<Rightarrow> Some (None, s1) })"

text \<open>
  The check of the encoding is given the text up to its first NUL, the conversion all of it; parsing ends at
  the first NUL of the buffer.
\<close>

definition JsonToValue :: "(u8 list \<Rightarrow> u64 \<times> nat \<times> bool) \<Rightarrow> u8 list \<Rightarrow> bool \<Rightarrow> bool \<Rightarrow> json_reader \<Rightarrow>
    (Value option \<times> json_reader) option" where
  "JsonToValue strtod json check_root allow s0 = do {
     utf8 \<leftarrow> IsStringUTF8 (takeWhile (\<lambda>c. c \<noteq> 0) json);
     if \<not> utf8 then Some (None, s0\<lparr>error_code := JSON_UNSUPPORTED_ENCODING\<rparr>)
     else do {
       (ok, json_wide) \<leftarrow> UTF8ToWide json;
       let buf = json_wide @ [0];
       let start = (if json_wide \<noteq> [] \<and> json_wide ! 0 = 0xFEFF then 1 else 0);
       let s = s0\<lparr>start_pos := start, json_pos := start, allow_trailing_comma := allow, stack_depth := 0,
         error_code := JSON_NO_ERROR\<rparr>;
       (root, s1) \<leftarrow> BuildValue (kStackLimit + 1) strtod buf check_root s;
       (returned, s2) \<leftarrow> (case root of
           None \<Rightarrow> Some (False, s1)
         | Some v \<Rightarrow> do {
             (token, s2) \<leftarrow> ParseToken buf s1;
             if tok_type token = END_OF_INPUT then Some (True, s2)
             else do { s3 \<leftarrow> SetErrorCode buf JSON_UNEXPECTED_DATA_AFTER_ROOT (json_pos s2) s2; Some (False, s3) } });
       if returned then Some (root, s2)
       else if error_code s2 = JSON_NO_ERROR
       then do { s3 \<leftarrow> SetErrorCode buf JSON_SYNTAX_ERROR (json_pos s2) s2; Some (None, s3) }
       else Some (None, s2) } }"

fun ErrorCodeToString :: "json_error \<Rightarrow> u8 list" where
  "ErrorCodeToString JSON_NO_ERROR = []"
| "ErrorCodeToString JSON_BAD_ROOT_ELEMENT_TYPE = ascii ''Root value must be an array or object.''"
| "ErrorCodeToString JSON_INVALID_ESCAPE = ascii ''Invalid escape sequence.''"
| "ErrorCodeToString JSON_SYNTAX_ERROR = ascii ''Syntax error.''"
| "ErrorCodeToString JSON_TRAILING_COMMA = ascii ''Trailing comma not allowed.''"
| "ErrorCodeToString JSON_TOO_MUCH_NESTING = ascii ''Too much nesting.''"
| "ErrorCodeToString JSON_UNEXPECTED_DATA_AFTER_ROOT = ascii ''Unexpected data after root element.''"
| "ErrorCodeToString JSON_UNSUPPORTED_ENCODING = ascii ''Unsupported encoding. JSON must be UTF-8.''"
| "ErrorCodeToString JSON_UNQUOTED_DICTIONARY_KEY = ascii ''Dictionary keys must be quoted.''"

definition FormatErrorMessage :: "nat \<Rightarrow> nat \<Rightarrow> u8 list \<Rightarrow> u8 list" where
  "FormatErrorMessage line column description =
     (if line \<noteq> 0 \<or> column \<noteq> 0
      then ascii ''Line: '' @ format_d (word_of_nat line) @ ascii '', column: '' @ format_d (word_of_nat column) @
        ascii '', '' @ description
      else description)"

definition GetErrorMessage :: "json_reader \<Rightarrow> u8 list" where
  "GetErrorMessage s = FormatErrorMessage (error_line s) (error_col s) (ErrorCodeToString (error_code s))"

text \<open>\<open>Inl\<close> is the error code and message, \<open>Inr\<close> the value.\<close>

definition ReadAndReturnError :: "(u8 list \<Rightarrow> u64 \<times> nat \<times> bool) \<Rightarrow> u8 list \<Rightarrow> bool \<Rightarrow>
    (json_error \<times> u8 list + Value) option" where
  "ReadAndReturnError strtod json allow = do {
     (root, reader) \<leftarrow> JsonToValue strtod json True allow JSONReader_new;
     Some (case root of Some v \<Rightarrow> Inr v | None \<Rightarrow> Inl (error_code reader, GetErrorMessage reader)) }"

definition JSONReader_Read :: "(u8 list \<Rightarrow> u64 \<times> nat \<times> bool) \<Rightarrow> u8 list \<Rightarrow> bool \<Rightarrow> Value option option" where
  "JSONReader_Read strtod json allow = do {
     r \<leftarrow> ReadAndReturnError strtod json allow;
     Some (case r of Inl e \<Rightarrow> None | Inr v \<Rightarrow> Some v) }"

end
