(* ===== verification/UtfProps.thy ===== *)
theory UtfProps imports Utf begin

text \<open>
  The Unicode conversions against the definition of the encodings. A sequence of bytes is read in unbounded
  arithmetic (\<open>seq_value\<close>, \<open>seq_legal\<close>, \<open>enc8\<close>), the decoder of UTF-8 is shown to compute exactly that, and the
  laws that the converter needs of an encoding are the locale \<open>unicode_form\<close>, interpreted for UTF-8, UTF-16 and
  UTF-32. Conversions in opposite directions are then inverse to each other on well-formed text.
\<close>

section \<open>Words as numbers\<close>

lemma unat_take_bit: "unat (take_bit n w) = unat w mod 2 ^ n"
  by (metis unsigned_take_bit_eq take_bit_eq_mod)
lemma unat_and_63: "unat (w AND 63 :: u8) = unat w mod 64"
proof -
  have "w AND 63 = take_bit 6 w" by (simp only: take_bit_eq_mask mask_eq_exp_minus_1) simp
  then show ?thesis by (simp only: unat_take_bit) simp
qed
lemma unat_ucast_up: "unat (ucast (t :: u8) :: u32) = unat t"
  using unat_u8 [of t] by (simp add: unsigned_ucast_eq take_bit_eq_mod)
lemma unat_lead_mask: "n \<le> 8 \<Longrightarrow> unat (scast (b :: u8) AND (push_bit n 1 - 1) :: u32) = unat b mod 2 ^ n"
proof -
  assume n: "n \<le> 8"
  have "scast b AND (push_bit n 1 - 1) = (ucast (take_bit n b) :: u32)"
    unfolding push_bit_of_1 mask_eq_exp_minus_1 [symmetric]
  proof (rule bit_word_eqI)
    fix k
    show "bit (scast b AND mask n :: u32) k = bit (ucast (take_bit n b) :: u32) k" if "k < LENGTH(32)"
      using n that by (cases "k < 7"; cases "k = 7") (auto simp: bit_simps)
  qed
  then show ?thesis
    by (simp only: unat_ucast_up unat_take_bit)
qed
lemma shift_in:
  assumes "unat c < 2 ^ 20"
  shows "unat (push_bit 6 c OR ucast (t AND 0x3f) :: u32) = unat (c :: u32) * 64 + unat (t :: u8) mod 64"
proof -
  have t: "unat (ucast (t AND 0x3f) :: u32) = unat t mod 64"
    by (simp only: unat_ucast_up unat_and_63)
  have c: "unat (push_bit 6 c) = unat c * 64"
    using assms by (simp add: push_bit_eq_mult unat_word_ariths)
  have "push_bit 6 c OR ucast (t AND 0x3f) = push_bit 6 c + ucast (t AND 0x3f)"
  proof (rule disjunctive_add_eq_or [symmetric])
    have "t AND 0x3f = take_bit 6 t" by (simp only: take_bit_eq_mask mask_eq_exp_minus_1) simp
    then have "ucast (t AND 0x3f) = (take_bit 6 (ucast t) :: u32)"
      by (simp only:) (rule bit_word_eqI, auto simp: bit_simps)
    then show "push_bit 6 c AND ucast (t AND 0x3f) = 0"
      by (simp only:) (rule bit_word_eqI, auto simp: bit_simps)
  qed
  moreover have "unat t mod 64 < 64" by simp
  ultimately show ?thesis using assms by (simp add: unat_word_ariths t c)
qed
lemma xor_eq_0: "(x :: u8) XOR y = 0 \<longleftrightarrow> x = y"
  by (auto simp: bit_eq_iff bit_simps)

lemma all_u8: "list_all (\<lambda>n. P (word_of_nat n)) [0..<256] \<Longrightarrow> P (b :: u8)"
  using unat_u8 [of b] by (auto simp: list_all_iff dest!: bspec [of _ _ "unat b"])

lemma unat_or_disjoint: "x AND y = 0 \<Longrightarrow> unat (x OR y) = unat x + unat (y :: 'w :: len word)"
  by (simp add: unsigned_or_eq disjunctive_add_eq_or flip: unsigned_and_eq)

lemma or_tag: "unat x < 2 ^ m \<Longrightarrow> unat (x OR push_bit m y) = unat x + unat (push_bit m (y :: 'w :: len word))"
proof -
  assume "unat x < 2 ^ m"
  then have "take_bit m x = x" by (metis unat_take_bit mod_less unsigned_word_eqI)
  then have "x AND push_bit m y = 0"
    by (subst \<open>take_bit m x = x\<close> [symmetric]) (auto simp: bit_eq_iff bit_simps)
  then show ?thesis by (rule unat_or_disjoint)
qed

lemma surrogate_iff: "CBU_IS_SURROGATE c \<longleftrightarrow> 0xd800 \<le> unat c \<and> unat c < 0xe000"
proof -
  have "(0xfffff800 :: u32) = NOT (mask 11)" by code_simp
  then have "c AND 0xfffff800 = c AND NOT (mask 11)" by (rule arg_cong)
  also have "\<dots> = push_bit 11 (drop_bit 11 c)" by (rule bit_word_eqI) (auto simp: bit_simps)
  finally have "CBU_IS_SURROGATE c \<longleftrightarrow> unat (push_bit 11 (drop_bit 11 c)) = 0xd800"
    by (simp add: CBU_IS_SURROGATE_def word_unat_eq_iff)
  also have "unat (push_bit 11 (drop_bit 11 c)) = unat c div 2048 * 2048"
    using unat_u32 [of c] by (simp add: push_bit_eq_mult unat_word_ariths unat_drop_bit_eq drop_bit_eq_div)
  finally show ?thesis by auto
qed

lemma ucast_minus: "(ucast (x - y :: u32) :: u8) = ucast x - ucast y"
  by transfer (subst take_bit_diff [symmetric], simp add: take_bit_diff, subst (2) take_bit_diff [symmetric], simp add: take_bit_diff)

lemma ucast_scast [simp]: "(ucast (scast (b :: u8) :: u32) :: u8) = b"
  by (rule bit_word_eqI) (auto simp: bit_simps)

lemma trail_iff: "CBU8_IS_TRAIL b \<longleftrightarrow> 128 \<le> unat b \<and> unat b < 192"
proof -
  have "(0xc0 :: u8) = NOT (mask 6)" by code_simp
  then have "b AND 0xc0 = b AND NOT (mask 6)" by (rule arg_cong)
  also have "\<dots> = push_bit 6 (drop_bit 6 b)" by (rule bit_word_eqI) (auto simp: bit_simps)
  finally have "CBU8_IS_TRAIL b \<longleftrightarrow> unat (push_bit 6 (drop_bit 6 b)) = 0x80"
    by (simp add: CBU8_IS_TRAIL_def word_unat_eq_iff)
  also have "unat (push_bit 6 (drop_bit 6 b)) = unat b div 64 * 64"
    using unat_u8 [of b] by (simp add: push_bit_eq_mult unat_word_ariths unat_drop_bit_eq drop_bit_eq_div)
  finally show ?thesis by auto
qed

lemma lead_iff: "CBU8_IS_LEAD (scast b) \<longleftrightarrow> 192 \<le> unat (b :: u8) \<and> unat b < 254"
  using unat_u8 [of b] by (auto simp: CBU8_IS_LEAD_def ucast_minus word_less_nat_alt unat_sub_if')

lemma scast_ascii: "unat (b :: u8) < 128 \<Longrightarrow> scast b = (ucast b :: u32)"
proof -
  assume "unat b < 128"
  then have "take_bit 7 b = b" using unat_take_bit [of 7 b] by (simp add: word_unat_eq_iff)
  moreover have "scast (take_bit 7 b) = (ucast (take_bit 7 b) :: u32)"
    by (rule bit_word_eqI) (auto simp: bit_simps)
  ultimately show ?thesis by simp
qed

lemma count_trails: "n < 256 \<Longrightarrow> utf8_countTrailBytes ! n =
    (if n < 192 then 0 else if n < 224 then 1 else if n < 240 then 2 else if n < 248 then 3 else if n < 252 then 4
     else if n < 254 then 5 else 0)"
proof -
  assume n: "n < 256"
  have rest: "[5, 5, 0, 0] ! m = (if m < 2 then 5 else 0 :: nat)" if "m < 4" for m
    using that by (auto simp: less_Suc_eq eval_nat_numeral)
  consider "n < 192" | "192 \<le> n" "n < 224" | "224 \<le> n" "n < 240" | "240 \<le> n" "n < 248" | "248 \<le> n" "n < 252" | "252 \<le> n"
    by linarith
  then show ?thesis
  proof cases
    case 6
    then obtain m where m: "n = 252 + m" by (metis le_Suc_ex)
    then show ?thesis using n rest [of m] by (simp add: utf8_countTrailBytes_def nth_append)
  qed (auto simp: utf8_countTrailBytes_def nth_append dest!: le_Suc_ex)
qed

lemma lead_split: "m * q \<le> b \<Longrightarrow> b < m * q + m \<Longrightarrow> m * q + b mod m = (b :: nat)"
  by (metis add.commute add_diff_inverse_nat less_diff_conv2 mod_less mod_mult_self2 mult.commute not_less)

section \<open>The decoder\<close>

lemma read_trail_at:
  assumes "i < length s" "unat c < 2 ^ 20"
  shows "\<exists>c'. read_trail s (i, c, illegal) = Some (i + 1, c', illegal OR ((s ! i AND 0xc0) XOR 0x80)) \<and>
    unat c' = unat c * 64 + unat (s ! i) mod 64"
  using assms shift_in [of c "s ! i"] by (simp add: read_trail_def unit_at_def)

lemma illegal_step: "illegal OR ((t AND 0xc0) XOR 0x80) = 0 \<longleftrightarrow> illegal = 0 \<and> CBU8_IS_TRAIL t"
  by (simp add: or_eq_0_iff xor_eq_0 CBU8_IS_TRAIL_def)

lemma skip_trails_ok: "i + n \<le> length s \<Longrightarrow> \<exists>j l. skip_trails s i n = Some (j, l) \<and> i \<le> j \<and> j \<le> i + n"
proof (induction s i n rule: skip_trails.induct)
  case (2 s i n)
  then show ?case by (fastforce simp: unit_at_def)
qed simp

lemma skip_to_end_ok: "len \<le> length s \<Longrightarrow> i \<le> len \<Longrightarrow> \<exists>j. skip_to_end s i len = Some j \<and> i \<le> j \<and> j \<le> len"
proof (induction s i len rule: skip_to_end.induct)
  case (1 s i len)
  show ?case
  proof (cases "i < len \<and> CBU8_IS_TRAIL (s ! i)")
    case True
    with 1 have "\<exists>j. skip_to_end s (i + 1) len = Some j \<and> i + 1 \<le> j \<and> j \<le> len" by (simp add: unit_at_def)
    then show ?thesis using True 1 by (subst skip_to_end.simps) (auto simp: unit_at_def)
  next
    case False
    then show ?thesis using 1 by (subst skip_to_end.simps) (auto simp: unit_at_def)
  qed
qed

text \<open>What a lead byte and its trail bytes stand for, in unbounded arithmetic.\<close>

fun seq_value :: "nat list \<Rightarrow> nat" where
  "seq_value [b] = b"
| "seq_value [b, t] = b mod 32 * 64 + t mod 64"
| "seq_value [b, t, u] = (b mod 16 * 64 + t mod 64) * 64 + u mod 64"
| "seq_value [b, t, u, w] = ((b mod 8 * 64 + t mod 64) * 64 + u mod 64) * 64 + w mod 64"
| "seq_value _ = 0"

definition seq_legal :: "nat list \<Rightarrow> bool" where
  "seq_legal bs \<longleftrightarrow> (\<forall>t \<in> set (tl bs). 128 \<le> t \<and> t < 192) \<and>
     (let v = seq_value bs in v \<ge> [0, 0x80, 0x800, 0x10000] ! (length bs - 1) \<and> v \<le> 0x10FFFF \<and> \<not> (0xd800 \<le> v \<and> v < 0xe000))"

definition seq_length :: "nat \<Rightarrow> nat" where
  "seq_length b = (if b < 128 then 1 else if b < 192 then 0 else if b < 224 then 2 else if b < 240 then 3 else if b < 248 then 4 else 0)"

lemma body_result:
  assumes "read_trails s n (p, scast b AND (push_bit (6 - n) 1 - 1), 0) = Some (i, c, illegal)"
    and "utf8_countTrailBytes ! unat (b :: u8) = n" "0 < n" "p + n \<le> length s"
  shows "\<exists>j. utf8_nextCharSafeBody s p (length s) (scast b) (- 1) = Some
     (if illegal \<noteq> 0 \<or> c < utf8_minLegal ! n \<or> CBU_IS_SURROGATE c then (j, CBU_SENTINEL) else (i, c)) \<and>
     p \<le> j \<and> j \<le> p + n"
proof -
  from skip_trails_ok [OF assms(4)] obtain j l where j: "skip_trails s p n = Some (j, l)" "p \<le> j" "j \<le> p + n" by auto
  with assms show ?thesis by (auto simp: utf8_nextCharSafeBody_def Let_def intro!: exI [of _ j])
qed

lemma next_lead:
  assumes "i < length s" "192 \<le> unat (s ! i)" "unat (s ! i) < 254"
  shows "CBU8_NEXT s i (length s) = utf8_nextCharSafeBody s (i + 1) (length s) (scast (s ! i)) (- 1)"
  using assms by (simp add: CBU8_NEXT_def unit_at_def lead_iff word_le_nat_alt)

lemma read_trails_1:
  assumes "p < length s" "unat c < 32"
  shows "\<exists>c' ill. read_trails s 1 (p, c, 0) = Some (p + 1, c', ill) \<and>
    unat c' = unat c * 64 + unat (s ! p) mod 64 \<and> (ill = 0 \<longleftrightarrow> CBU8_IS_TRAIL (s ! p))"
proof -
  from assms obtain c' where "read_trail s (p, c, 0) = Some (p + 1, c', 0 OR ((s ! p AND 0xc0) XOR 0x80))"
    "unat c' = unat c * 64 + unat (s ! p) mod 64"
    using read_trail_at [of p s c 0] by auto
  then show ?thesis by (auto simp: read_trails_def illegal_step simp del: or.left_neutral)
qed

lemma read_trails_2:
  assumes "p + 1 < length s" "unat c < 32"
  shows "\<exists>c' ill. read_trails s 2 (p, c, 0) = Some (p + 2, c', ill) \<and>
    unat c' = (unat c * 64 + unat (s ! p) mod 64) * 64 + unat (s ! (p + 1)) mod 64 \<and>
    (ill = 0 \<longleftrightarrow> CBU8_IS_TRAIL (s ! p) \<and> CBU8_IS_TRAIL (s ! (p + 1)))"
proof -
  from assms obtain c1 where c1: "read_trail s (p, c, 0) = Some (p + 1, c1, 0 OR ((s ! p AND 0xc0) XOR 0x80))"
    "unat c1 = unat c * 64 + unat (s ! p) mod 64"
    using read_trail_at [of p s c 0] by auto
  moreover have "unat (s ! p) mod 64 < 64" by simp
  ultimately have "unat c1 < 2 ^ 20" using assms(2) by simp
  with assms obtain c2 where "read_trail s (p + 1, c1, 0 OR ((s ! p AND 0xc0) XOR 0x80)) =
      Some (p + 1 + 1, c2, (0 OR ((s ! p AND 0xc0) XOR 0x80)) OR ((s ! (p + 1) AND 0xc0) XOR 0x80))"
    "unat c2 = unat c1 * 64 + unat (s ! (p + 1)) mod 64"
    using read_trail_at [of "p + 1" s c1] by blast
  with c1 show ?thesis by (auto simp: read_trails_def illegal_step simp del: or.left_neutral)
qed

lemma read_trails_3:
  assumes "p + 2 < length s" "unat c < 8"
  defines "v \<equiv> ((unat c * 64 + unat (s ! p) mod 64) * 64 + unat (s ! (p + 1)) mod 64) * 64 + unat (s ! (p + 2)) mod 64"
  shows "\<exists>i c' ill. read_trails s 3 (p, c, 0) = Some (i, c', ill) \<and>
    (if v \<le> 0x10FFFF then i = p + 3 \<and> unat c' = v \<and>
      (ill = 0 \<longleftrightarrow> CBU8_IS_TRAIL (s ! p) \<and> CBU8_IS_TRAIL (s ! (p + 1)) \<and> CBU8_IS_TRAIL (s ! (p + 2))) else ill \<noteq> 0)"
proof -
  let ?m = "\<lambda>k. unat (s ! (p + k)) mod 64"
  have m: "?m 0 < 64" "?m 1 < 64" "?m 2 < 64" by simp_all
  from assms obtain c1 where c1: "read_trail s (p, c, 0) = Some (p + 1, c1, 0 OR ((s ! p AND 0xc0) XOR 0x80))"
    "unat c1 = unat c * 64 + ?m 0"
    using read_trail_at [of p s c 0] by auto
  have v: "v = (unat c1 * 64 + ?m 1) * 64 + ?m 2" by (simp add: v_def c1(2))
  show ?thesis
  proof (cases "c1 < 0x110")
    case False
    then have "272 \<le> unat c1" by (simp add: word_less_nat_alt)
    then have "\<not> v \<le> 0x10FFFF" using v by simp
    then show ?thesis using c1(1) False by (simp add: read_trails_def del: or.left_neutral)
  next
    case True
    then have u: "unat c1 < 272" by (simp add: word_less_nat_alt)
    then have le: "v \<le> 0x10FFFF" using v m by simp
    from u assms(1) obtain c2 where c2: "read_trail s (p + 1, c1, 0 OR ((s ! p AND 0xc0) XOR 0x80)) =
        Some (p + 1 + 1, c2, (0 OR ((s ! p AND 0xc0) XOR 0x80)) OR ((s ! (p + 1) AND 0xc0) XOR 0x80))"
      "unat c2 = unat c1 * 64 + ?m 1"
      using read_trail_at [of "p + 1" s c1] by auto
    have "unat c2 < 2 ^ 20" using u m(2) c2(2) by simp
    with assms(1) obtain c3 where "read_trail s (p + 1 + 1, c2, (0 OR ((s ! p AND 0xc0) XOR 0x80)) OR ((s ! (p + 1) AND 0xc0) XOR 0x80)) =
        Some (p + 1 + 1 + 1, c3, ((0 OR ((s ! p AND 0xc0) XOR 0x80)) OR ((s ! (p + 1) AND 0xc0) XOR 0x80)) OR
          ((s ! (p + 1 + 1) AND 0xc0) XOR 0x80))"
      "unat c3 = unat c2 * 64 + ?m 2"
      using read_trail_at [of "p + 1 + 1" s c2 "(0 OR ((s ! p AND 0xc0) XOR 0x80)) OR ((s ! (p + 1) AND 0xc0) XOR 0x80)"]
      by (auto simp del: or.left_neutral)
    with c1 c2 le True v show ?thesis
      by (auto simp: read_trails_def illegal_step numeral_2_eq_2 numeral_3_eq_3 simp del: or.left_neutral)
  qed
qed

lemma seq_bounds: "b < 256 \<Longrightarrow> seq_value [b, t] < 2048" "seq_value [b, t, u] < 65536"
proof -
  have "b mod 32 < 32" "t mod 64 < 64" "b mod 16 < 16" "u mod 64 < 64" by simp_all
  then show "seq_value [b, t] < 2048" "seq_value [b, t, u] < 65536" by (simp_all del: mod_less_divisor)
qed

text \<open>What \<open>CBU8_NEXT\<close> gives at an index: the value of a legal sequence, or the sentinel after some progress.\<close>

definition next_char :: "u8 list \<Rightarrow> nat \<Rightarrow> nat list \<Rightarrow> bool" where
  "next_char s i bs \<longleftrightarrow> (\<exists>j. CBU8_NEXT s i (length s) = Some
     (if seq_legal bs then (i + length bs, word_of_nat (seq_value bs)) else (j, CBU_SENTINEL)) \<and> i < j \<and> j \<le> length s)"

lemma next_charI:
  assumes "read_trails s n (i + 1, scast (s ! i) AND (push_bit (6 - n) 1 - 1), 0) = Some (k, c, ill)"
    and "utf8_countTrailBytes ! unat (s ! i) = n" "0 < n" "i + n < length s" "192 \<le> unat (s ! i)" "unat (s ! i) < 254"
    and "length bs = n + 1" "seq_legal bs \<longleftrightarrow> \<not> (ill \<noteq> 0 \<or> c < utf8_minLegal ! n \<or> CBU_IS_SURROGATE c)"
    and "seq_legal bs \<Longrightarrow> k = i + 1 + n \<and> unat c = seq_value bs"
  shows "next_char s i bs"
proof -
  from body_result [OF assms(1-3)] assms(4) obtain j where
    "utf8_nextCharSafeBody s (i + 1) (length s) (scast (s ! i)) (- 1) =
       Some (if seq_legal bs then (k, c) else (j, CBU_SENTINEL))" "i + 1 \<le> j" "j \<le> i + 1 + n"
    using assms(8) by (cases "seq_legal bs") auto
  moreover have "word_of_nat (seq_value bs) = c" if "seq_legal bs"
  proof -
    from assms(9) [OF that] have "seq_value bs = unat c" by simp
    then show ?thesis by simp
  qed
  ultimately show ?thesis
    using assms(4-7,9) unfolding next_char_def by (intro exI [of _ j]) (auto simp: next_lead)
qed

lemma next_two:
  assumes "i + 1 < length s" "192 \<le> unat (s ! i)" "unat (s ! i) < 224"
  shows "next_char s i [unat (s ! i), unat (s ! (i + 1))]" (is "next_char s i ?bs")
proof -
  have m: "unat (scast (s ! i) AND (push_bit (6 - 1) 1 - 1) :: u32) = unat (s ! i) mod 32" using unat_lead_mask [of 5 "s ! i"] by simp
  then have m': "unat (scast (s ! i) AND (push_bit (6 - 1) 1 - 1) :: u32) < 32" by simp
  from read_trails_1 [OF assms(1) m'] obtain c ill where
    r: "read_trails s 1 (i + 1, scast (s ! i) AND (push_bit (6 - 1) 1 - 1), 0) = Some (i + 1 + 1, c, ill)"
    "unat c = seq_value ?bs" "ill = 0 \<longleftrightarrow> CBU8_IS_TRAIL (s ! (i + 1))" unfolding m seq_value.simps by blast
  show ?thesis
  proof (rule next_charI [OF r(1)])
    show "utf8_countTrailBytes ! unat (s ! i) = 1" using assms by (simp add: count_trails)
    show "seq_legal ?bs \<longleftrightarrow> \<not> (ill \<noteq> 0 \<or> c < utf8_minLegal ! 1 \<or> CBU_IS_SURROGATE c)"
      using r(2,3) seq_bounds(1) [of "unat (s ! i)" "unat (s ! (i + 1))"] assms(3)
      by (auto simp: seq_legal_def surrogate_iff trail_iff utf8_minLegal_def word_less_nat_alt simp del: seq_value.simps)
  qed (use assms r(2) in auto)
qed

lemma next_three:
  assumes "i + 2 < length s" "224 \<le> unat (s ! i)" "unat (s ! i) < 240"
  shows "next_char s i [unat (s ! i), unat (s ! (i + 1)), unat (s ! (i + 2))]" (is "next_char s i ?bs")
proof -
  have m: "unat (scast (s ! i) AND (push_bit (6 - 2) 1 - 1) :: u32) = unat (s ! i) mod 16" using unat_lead_mask [of 4 "s ! i"] by simp
  moreover have "unat (s ! i) mod 16 < 16" by simp
  ultimately have m': "unat (scast (s ! i) AND (push_bit (6 - 2) 1 - 1) :: u32) < 32" by linarith
  have l: "i + 1 + 1 < length s" and e: "i + 1 + 1 = i + 2" using assms by simp_all
  from read_trails_2 [OF l m'] obtain c ill where
    r: "read_trails s 2 (i + 1, scast (s ! i) AND (push_bit (6 - 2) 1 - 1), 0) = Some (i + 1 + 2, c, ill)"
    and r2: "unat c = seq_value ?bs"
    and ill: "ill = 0 \<longleftrightarrow> CBU8_IS_TRAIL (s ! (i + 1)) \<and> CBU8_IS_TRAIL (s ! (i + 2))"
    unfolding m e seq_value.simps by blast
  show ?thesis
  proof (rule next_charI [OF r(1)])
    show "utf8_countTrailBytes ! unat (s ! i) = 2" using assms by (simp add: count_trails)
    show "seq_legal ?bs \<longleftrightarrow> \<not> (ill \<noteq> 0 \<or> c < utf8_minLegal ! 2 \<or> CBU_IS_SURROGATE c)"
      using r2 ill seq_bounds(2) [of "unat (s ! i)" "unat (s ! (i + 1))" "unat (s ! (i + 2))"] assms(3)
      by (auto simp: seq_legal_def surrogate_iff trail_iff utf8_minLegal_def word_less_nat_alt simp del: seq_value.simps)
  qed (use assms r2 in auto)
qed

lemma next_four:
  assumes "i + 3 < length s" "240 \<le> unat (s ! i)" "unat (s ! i) < 248"
  shows "next_char s i [unat (s ! i), unat (s ! (i + 1)), unat (s ! (i + 2)), unat (s ! (i + 3))]" (is "next_char s i ?bs")
proof -
  have m: "unat (scast (s ! i) AND (push_bit (6 - 3) 1 - 1) :: u32) = unat (s ! i) mod 8" using unat_lead_mask [of 3 "s ! i"] by simp
  then have m': "unat (scast (s ! i) AND (push_bit (6 - 3) 1 - 1) :: u32) < 8" by simp
  have l: "i + 1 + 2 < length s" and e: "i + 1 + 1 = i + 2" "i + 1 + 2 = i + 3" using assms by simp_all
  from read_trails_3 [OF l m'] obtain k c ill where
    r: "read_trails s 3 (i + 1, scast (s ! i) AND (push_bit (6 - 3) 1 - 1), 0) = Some (k, c, ill)"
    and v: "if seq_value ?bs \<le> 0x10FFFF then k = i + 1 + 3 \<and> unat c = seq_value ?bs \<and>
      (ill = 0 \<longleftrightarrow> CBU8_IS_TRAIL (s ! (i + 1)) \<and> CBU8_IS_TRAIL (s ! (i + 2)) \<and> CBU8_IS_TRAIL (s ! (i + 3)))
      else ill \<noteq> 0"
    unfolding m e seq_value.simps by blast
  show ?thesis
  proof (rule next_charI [OF r])
    show "utf8_countTrailBytes ! unat (s ! i) = 3" using assms by (simp add: count_trails)
    show "seq_legal ?bs \<longleftrightarrow> \<not> (ill \<noteq> 0 \<or> c < utf8_minLegal ! 3 \<or> CBU_IS_SURROGATE c)"
      using v by (auto simp: seq_legal_def surrogate_iff trail_iff utf8_minLegal_def word_less_nat_alt simp del: seq_value.simps split: if_splits)
    show "k = i + 1 + 3 \<and> unat c = seq_value ?bs" if "seq_legal ?bs"
      using v that by (auto simp: seq_legal_def simp del: seq_value.simps split: if_splits)
  qed (use assms in auto)
qed

section \<open>The encoder\<close>

definition enc8 :: "nat \<Rightarrow> nat list" where
  "enc8 n = (if n < 128 then [n] else if n < 2048 then [192 + n div 64, 128 + n mod 64]
     else if n < 65536 then [224 + n div 4096, 128 + n div 64 mod 64, 128 + n mod 64]
     else [240 + n div 262144, 128 + n div 4096 mod 64, 128 + n div 64 mod 64, 128 + n mod 64])"

lemma unat_ucast_down: "unat (ucast (x :: u32) :: u8) = unat x mod 256"
  by (simp add: unsigned_ucast_eq take_bit_eq_mod)

lemma unat_drop: "unat (drop_bit k (c :: u32)) = unat c div 2 ^ k"
  by (metis unat_drop_bit_eq drop_bit_eq_div)

lemma lead_byte:
  assumes "unat c div 2 ^ k < 2 ^ m" "unat (push_bit m y :: u32) = t" "t + 2 ^ m \<le> 256"
  shows "unat (ucast (drop_bit k c OR push_bit m y) :: u8) = t + unat (c :: u32) div 2 ^ k"
proof -
  have "unat (drop_bit k c OR push_bit m y) = unat c div 2 ^ k + t"
    using or_tag [of "drop_bit k c" m y] assms(1,2) by (simp only: unat_drop)
  then show ?thesis using assms(1,3) by (simp only: unat_ucast_down) simp
qed

lemma trail_byte: "unat (ucast ((x AND 0x3f) OR 0x80 :: u32) :: u8) = 128 + unat x mod 64"
proof -
  have "x AND 63 = take_bit 6 x" by (simp only: take_bit_eq_mask mask_eq_exp_minus_1) simp
  then have x: "unat (x AND 63) = unat x mod 64" by (simp only: unat_take_bit) simp
  have "(128 :: u32) = push_bit 7 1" by simp
  then have "unat ((x AND 63) OR 128) = unat x mod 64 + 128"
    using or_tag [of "x AND 63" 7 1] x by simp
  then show ?thesis by (simp only: unat_ucast_down) simp
qed

lemma write8_nat: "unat c \<le> 0x10FFFF \<Longrightarrow> map unat (WriteUnicodeCharacter8 c) = enc8 (unat c)"
proof -
  assume c: "unat c \<le> 0x10FFFF"
  have e: "(0xc0 :: u32) = push_bit 6 3" "(0xe0 :: u32) = push_bit 5 7" "(0xf0 :: u32) = push_bit 4 15" by simp_all
  have two: "unat c < 2048 \<Longrightarrow> unat (ucast (drop_bit 6 c OR 0xc0) :: u8) = 192 + unat c div 64"
    unfolding e(1) using lead_byte [of c 6 6 3 192] by simp
  have three: "unat c < 65536 \<Longrightarrow> unat (ucast (drop_bit 12 c OR 0xe0) :: u8) = 224 + unat c div 4096"
    unfolding e(2) using lead_byte [of c 12 5 7 224] by simp
  have four: "unat (ucast (drop_bit 18 c OR 0xf0) :: u8) = 240 + unat c div 262144"
    unfolding e(3) using lead_byte [of c 18 4 15 240] c by simp
  show ?thesis
  proof (cases "unat c < 128")
    case True
    then show ?thesis by (simp add: WriteUnicodeCharacter8_def enc8_def unat_ucast_down word_le_nat_alt)
  next
    case False
    then show ?thesis
      by (simp only: WriteUnicodeCharacter8_def CBU8_APPEND_UNSAFE_def enc8_def word_le_nat_alt list.map map_append
          append.simps if_distrib [of "map unat"] trail_byte unat_drop)
        (use two three four in simp)
  qed
qed

lemma enc8_seq:
  assumes "n \<le> 0x10FFFF" "\<not> (0xd800 \<le> n \<and> n < 0xe000)"
  shows "seq_legal (enc8 n)" "seq_value (enc8 n) = n" "length (enc8 n) = seq_length (hd (enc8 n))"
proof -
  show "seq_value (enc8 n) = n"
  proof -
    have split: "a div (64 * m) * 64 + a div m mod 64 = a div m" for a m :: nat by (simp add: mult.commute div_mult2_eq)
    have s1: "n div 64 * 64 + n mod 64 = n" by simp
    have s2: "n div 4096 * 64 + n div 64 mod 64 = n div 64" using split [of n 64] by simp
    have s3: "n div 262144 * 64 + n div 4096 mod 64 = n div 4096" using split [of n 4096] by simp
    have tag: "(128 + m) mod 64 = m mod 64" "(192 + m) mod 32 = m mod 32" "(224 + m) mod 16 = m mod 16"
      "(240 + m) mod 8 = m mod 8" for m :: nat
      using mod_mult_self2 [of m 64 2] mod_mult_self2 [of m 32 6] mod_mult_self2 [of m 16 14] mod_mult_self2 [of m 8 30]
      by (simp_all add: add.commute)
    consider (one) "n < 128" | (two) "128 \<le> n" "n < 2048" | (three) "2048 \<le> n" "n < 65536" | (four) "65536 \<le> n" by linarith
    then show ?thesis
    proof cases
      case one
      then show ?thesis by (simp add: enc8_def)
    next
      case two
      then have e: "enc8 n = [192 + n div 64, 128 + n mod 64]" by (simp only: enc8_def) simp
      from two have "n div 64 < 32" by (simp add: less_mult_imp_div_less)
      then show ?thesis unfolding e seq_value.simps tag using s1 by simp
    next
      case three
      then have e: "enc8 n = [224 + n div 4096, 128 + n div 64 mod 64, 128 + n mod 64]" by (simp only: enc8_def) simp
      from three have "n div 4096 < 16" by (simp add: less_mult_imp_div_less)
      then have "n div 4096 mod 16 = n div 4096" by simp
      then show ?thesis unfolding e seq_value.simps tag mod_mod_trivial using s1 s2 by (simp only:)
    next
      case four
      then have e: "enc8 n = [240 + n div 262144, 128 + n div 4096 mod 64, 128 + n div 64 mod 64, 128 + n mod 64]"
        by (simp only: enc8_def) simp
      have "n div 262144 < 8" using assms(1) by (simp add: less_mult_imp_div_less)
      then have "n div 262144 mod 8 = n div 262144" by simp
      then show ?thesis unfolding e seq_value.simps tag mod_mod_trivial using s1 s2 s3 by (simp only:)
    qed
  qed
  note v = this
  have "\<forall>t \<in> set (tl (enc8 n)). 128 \<le> t \<and> t < 192" by (simp add: enc8_def)
  moreover have "[0, 0x80, 0x800, 0x10000] ! (length (enc8 n) - 1) \<le> n" by (simp add: enc8_def)
  ultimately show "seq_legal (enc8 n)" using assms by (simp only: seq_legal_def v Let_def simp_thms)
  show "length (enc8 n) = seq_length (hd (enc8 n))" using assms by (auto simp: enc8_def seq_length_def)
qed

lemma too_short:
  assumes "i < length s" "192 \<le> unat (s ! i)" "unat (s ! i) < 254"
    "utf8_countTrailBytes ! unat (s ! i) = n" "\<not> i + 1 + n \<le> length s"
  shows "\<exists>j. CBU8_NEXT s i (length s) = Some (j, CBU_SENTINEL) \<and> i < j \<and> j \<le> length s"
  using assms skip_to_end_ok [of "length s" s "i + 1"]
  by (fastforce simp: next_lead utf8_nextCharSafeBody_def)

lemma too_long:
  assumes "i < length s" "248 \<le> unat (s ! i)" "unat (s ! i) < 254"
    "utf8_countTrailBytes ! unat (s ! i) = n" "i + 1 + n \<le> length s" "4 \<le> n"
  shows "\<exists>j. CBU8_NEXT s i (length s) = Some (j, CBU_SENTINEL) \<and> i < j \<and> j \<le> length s"
proof -
  have "read_trails s n (i + 1, scast (s ! i) AND (push_bit (6 - n) 1 - 1), 0) =
      Some (i + 1, scast (s ! i) AND (push_bit (6 - n) 1 - 1), 1)" using assms(6) by (simp add: read_trails_def)
  from body_result [OF this assms(4)] assms(5,6) obtain j where
    "utf8_nextCharSafeBody s (i + 1) (length s) (scast (s ! i)) (- 1) = Some (j, CBU_SENTINEL)" "i + 1 \<le> j" "j \<le> i + 1 + n"
    by auto
  then show ?thesis using assms by (auto simp: next_lead)
qed

lemma next_at:
  assumes "i < length s"
  defines "k \<equiv> seq_length (unat (s ! i))"
  shows "if 0 < k \<and> i + k \<le> length s then next_char s i (map unat (take k (drop i s)))
    else \<exists>j. CBU8_NEXT s i (length s) = Some (j, CBU_SENTINEL) \<and> i < j \<and> j \<le> length s"
proof -
  have bytes: "map unat (take 2 (drop i s)) = [unat (s ! i), unat (s ! (i + 1))]" if "i + 2 \<le> length s"
    using that by (simp add: take_Suc_conv_app_nth numeral_2_eq_2)
  have bytes3: "map unat (take 3 (drop i s)) = [unat (s ! i), unat (s ! (i + 1)), unat (s ! (i + 2))]" if "i + 3 \<le> length s"
    using that by (simp add: take_Suc_conv_app_nth numeral_2_eq_2 numeral_3_eq_3)
  have bytes4: "map unat (take 4 (drop i s)) = [unat (s ! i), unat (s ! (i + 1)), unat (s ! (i + 2)), unat (s ! (i + 3))]"
    if "i + 4 \<le> length s"
    using that by (simp add: take_Suc_conv_app_nth numeral_2_eq_2 numeral_3_eq_3 eval_nat_numeral)
  have b: "unat (s ! i) < 256" by (rule unat_u8)
  consider (ascii) "unat (s ! i) < 128" | (bad) "128 \<le> unat (s ! i)" "unat (s ! i) < 192 \<or> 254 \<le> unat (s ! i)"
    | (two) "192 \<le> unat (s ! i)" "unat (s ! i) < 224" | (three) "224 \<le> unat (s ! i)" "unat (s ! i) < 240"
    | (four) "240 \<le> unat (s ! i)" "unat (s ! i) < 248" | (long) "248 \<le> unat (s ! i)" "unat (s ! i) < 254" by linarith
  then show ?thesis
  proof cases
    case ascii
    then have "CBU8_NEXT s i (length s) = Some (i + 1, word_of_nat (unat (s ! i)))"
      using assms(1) by (simp add: CBU8_NEXT_def unit_at_def word_le_nat_alt scast_ascii of_nat_unat)
    moreover have "take 1 (drop i s) = [s ! i]" using assms(1) by (simp add: take_Suc_conv_app_nth)
    ultimately show ?thesis using ascii assms(1)
      by (auto simp: k_def seq_length_def next_char_def seq_legal_def intro!: exI [of _ "Suc i"])
  next
    case bad
    then have "\<not> CBU8_IS_LEAD (scast (s ! i))" by (auto simp: lead_iff)
    then show ?thesis using bad assms(1) by (auto simp: k_def seq_length_def CBU8_NEXT_def unit_at_def word_le_nat_alt)
  next
    case two
    then show ?thesis using next_two [of i s] too_short [of i s 1] assms(1) b
      by (auto simp: k_def seq_length_def bytes count_trails)
  next
    case three
    then show ?thesis using next_three [of i s] too_short [of i s 2] assms(1) b
      by (auto simp: k_def seq_length_def bytes3 count_trails)
  next
    case four
    then show ?thesis using next_four [of i s] too_short [of i s 3] assms(1) b
      by (auto simp: k_def seq_length_def bytes4 count_trails)
  next
    case long
    then obtain n where n: "utf8_countTrailBytes ! unat (s ! i) = n" "4 \<le> n" by (simp add: count_trails)
    have "k = 0" using long by (simp add: k_def seq_length_def)
    then show ?thesis using too_long [OF assms(1) long n(1) _ n(2)] too_short [OF assms(1) _ long(2) n(1)] long(1)
      by (cases "i + 1 + n \<le> length s") auto
  qed
qed

section \<open>The three forms\<close>

lemma valid_iff: "IsValidCodepoint c \<longleftrightarrow> unat c \<le> 0x10FFFF \<and> \<not> (0xd800 \<le> unat c \<and> unat c < 0xe000)"
  by (auto simp: IsValidCodepoint_def word_less_nat_alt word_le_nat_alt)

lemma digits64:
  fixes x y z w :: nat
  assumes "y < 64" "z < 64" "w < 64"
  defines "n \<equiv> ((x * 64 + y) * 64 + z) * 64 + w"
  shows "n div 262144 = x" "n div 4096 mod 64 = y" "n div 64 mod 64 = z" "n mod 64 = w"
proof -
  have d: "(k * 64 + r) div 64 = k" "(k * 64 + r) mod 64 = r" if "r < 64" for k r :: nat
    using that by simp_all
  have e: "n div 4096 = n div 64 div 64" "n div 262144 = n div 64 div 64 div 64"
    using div_mult2_eq [of n 64 64] div_mult2_eq [of n 4096 64] by simp_all
  show "n mod 64 = w" unfolding n_def by (rule d(2) [OF assms(3)])
  have 1: "n div 64 = (x * 64 + y) * 64 + z" unfolding n_def by (rule d(1) [OF assms(3)])
  show "n div 64 mod 64 = z" unfolding 1 by (rule d(2) [OF assms(2)])
  have 2: "n div 4096 = x * 64 + y" unfolding e 1 by (rule d(1) [OF assms(2)])
  show "n div 4096 mod 64 = y" unfolding 2 by (rule d(2) [OF assms(1)])
  show "n div 262144 = x" unfolding e(2) e(1) [symmetric] 2 by (rule d(1) [OF assms(1)])
qed

lemma seq_enc8:
  assumes "seq_legal bs" "length bs = seq_length (hd bs)" "bs \<noteq> []"
  shows "enc8 (seq_value bs) = bs"
proof -
  obtain b ts where bs: "bs = b # ts" using assms(3) by (cases bs) auto
  have ts: "\<forall>t \<in> set ts. 128 \<le> t \<and> t < 192" using assms(1) by (simp add: bs seq_legal_def Let_def)
  have sub: "128 + t mod 64 = t" if "128 \<le> t" "t < 192" for t :: nat using that lead_split [of 64 2 t] by simp
  have len: "length ts = seq_length b - 1" "0 < seq_length b" using assms(2) by (simp_all add: bs)
  consider "b < 128" | "192 \<le> b" "b < 224" | "224 \<le> b" "b < 240" | "240 \<le> b" "b < 248"
    using len(2) by (fastforce simp: seq_length_def split: if_splits)
  then show ?thesis
  proof cases
    case 1
    then have "bs = [b]" using len by (simp add: bs seq_length_def)
    then show ?thesis using 1 by (simp add: enc8_def)
  next
    case 2
    then obtain t where t: "bs = [b, t]" "128 \<le> t" "t < 192"
      using len ts by (auto simp: bs seq_length_def length_Suc_conv)
    have "192 + b mod 32 = b" using 2 lead_split [of 32 6 b] by simp
    moreover have "b mod 32 < 32" "t mod 64 < 64" by simp_all
    moreover have "128 \<le> b mod 32 * 64 + t mod 64" using assms(1) by (simp add: t seq_legal_def Let_def)
    ultimately show ?thesis using sub [OF t(2,3)] by (simp add: t(1) enc8_def)
  next
    case 3
    then obtain t u where t: "bs = [b, t, u]" "128 \<le> t" "t < 192" "128 \<le> u" "u < 192"
      using len ts by (auto simp: bs seq_length_def length_Suc_conv eval_nat_numeral)
    define n where "n = seq_value bs"
    have n: "n = ((0 * 64 + b mod 16) * 64 + t mod 64) * 64 + u mod 64" by (simp only: n_def t(1) seq_value.simps) simp
    have "b mod 16 < 16" "t mod 64 < 64" "u mod 64 < 64" by simp_all
    moreover have "((0 * 64 + x) * 64 + y) * 64 + z < 65536" if "x < 16" "y < 64" "z < 64" for x y z :: nat
      using that by simp
    ultimately have "n < 65536" unfolding n by blast
    moreover have "2048 \<le> n" using assms(1) by (simp add: n_def t(1) seq_legal_def Let_def del: seq_value.simps)
    ultimately have "enc8 n = [224 + n div 4096 mod 64, 128 + n div 64 mod 64, 128 + n mod 64]"
      by (simp only: enc8_def) (simp add: less_mult_imp_div_less)
    also have "\<dots> = [224 + b mod 16, 128 + t mod 64, 128 + u mod 64]"
    proof -
      have "b mod 16 < 16" by simp
      then have "b mod 16 < 64" by linarith
      then show ?thesis using digits64 [of "b mod 16" "t mod 64" "u mod 64" 0, folded n] by simp
    qed
    also have "224 + b mod 16 = b" using 3 lead_split [of 16 14 b] by simp
    also have "[b, 128 + t mod 64, 128 + u mod 64] = bs" using sub [OF t(2,3)] sub [OF t(4,5)] by (simp only: t(1))
    finally show ?thesis by (simp only: n_def)
  next
    case 4
    then obtain t u w where t: "bs = [b, t, u, w]" "128 \<le> t" "t < 192" "128 \<le> u" "u < 192" "128 \<le> w" "w < 192"
      using len ts by (auto simp: bs seq_length_def length_Suc_conv eval_nat_numeral)
    define n where "n = seq_value bs"
    have n: "n = ((b mod 8 * 64 + t mod 64) * 64 + u mod 64) * 64 + w mod 64" by (simp only: n_def t(1) seq_value.simps)
    have "65536 \<le> n" using assms(1) by (simp add: n_def t(1) seq_legal_def Let_def del: seq_value.simps)
    then have "enc8 n = [240 + n div 262144, 128 + n div 4096 mod 64, 128 + n div 64 mod 64, 128 + n mod 64]"
      by (simp only: enc8_def) simp
    also have "\<dots> = [240 + b mod 8, 128 + t mod 64, 128 + u mod 64, 128 + w mod 64]"
    proof -
      have "t mod 64 < 64" "u mod 64 < 64" "w mod 64 < 64" by simp_all
      from digits64 [OF this, of "b mod 8", folded n] show ?thesis by (simp only:)
    qed
    also have "240 + b mod 8 = b" using 4 lead_split [of 8 30 b] by simp
    also have "[b, 128 + t mod 64, 128 + u mod 64, 128 + w mod 64] = bs"
      using sub [OF t(2,3)] sub [OF t(4,5)] sub [OF t(6,7)] by (simp only: t(1))
    finally show ?thesis by (simp only: n_def)
  qed
qed

lemma read8_write8:
  assumes "IsValidCodepoint c" "drop i s = WriteUnicodeCharacter8 c @ rest"
  shows "ReadUnicodeCharacter8 s (length s) i = Some (i + length (WriteUnicodeCharacter8 c) - 1, Some c)"
proof -
  let ?w = "WriteUnicodeCharacter8 c"
  have c: "unat c \<le> 0x10FFFF" "\<not> (0xd800 \<le> unat c \<and> unat c < 0xe000)" using assms(1) by (simp_all add: valid_iff)
  have e: "map unat ?w = enc8 (unat c)" using c(1) by (rule write8_nat)
  have ne: "?w \<noteq> []" using arg_cong [OF e, of length] by (auto simp: enc8_def split: if_splits)
  have i: "i < length s" using arg_cong [OF assms(2), of length] ne by (cases "i < length s") auto
  have hd: "s ! i = hd ?w" using assms(2) ne i by (metis hd_append2 hd_drop_conv_nth)
  have "length ?w = seq_length (unat (s ! i))" using enc8_seq(3) [OF c] ne by (simp add: hd hd_map flip: e)
  moreover have "take (length ?w) (drop i s) = ?w" using assms(2) by simp
  moreover have "i + length ?w \<le> length s" using arg_cong [OF assms(2), of length] i by simp
  ultimately have "next_char s i (map unat ?w)" using next_at [OF i] length_greater_0_conv [of ?w] ne by simp
  then show ?thesis using enc8_seq [OF c] assms(1) ne
    by (auto simp: e next_char_def ReadUnicodeCharacter8_def simp flip: length_map [of unat ?w])
qed

lemma read8_ok:
  assumes "i < length s"
  shows "\<exists>j r. ReadUnicodeCharacter8 s (length s) i = Some (j, r) \<and> i \<le> j \<and> j < length s \<and>
    (case r of None \<Rightarrow> True | Some c \<Rightarrow> IsValidCodepoint c \<and> take (j + 1 - i) (drop i s) = WriteUnicodeCharacter8 c)"
proof -
  let ?k = "seq_length (unat (s ! i))" and ?bs = "map unat (take (seq_length (unat (s ! i))) (drop i s))"
  have invalid: "\<not> IsValidCodepoint CBU_SENTINEL" by code_simp
  show ?thesis
  proof (cases "0 < ?k \<and> i + ?k \<le> length s \<and> seq_legal ?bs")
    case False
    then obtain j where "CBU8_NEXT s i (length s) = Some (j, CBU_SENTINEL)" "i < j" "j \<le> length s"
      using next_at [OF assms] by (auto simp: next_char_def split: if_splits)
    then show ?thesis using invalid by (auto simp: ReadUnicodeCharacter8_def)
  next
    case True
    then have len: "length ?bs = ?k" by (auto simp: min_def)
    have "CBU8_NEXT s i (length s) = Some (i + ?k, word_of_nat (seq_value ?bs))"
      using next_at [OF assms] True len by (simp add: next_char_def del: length_map length_take)
    moreover have "IsValidCodepoint (word_of_nat (seq_value ?bs)) \<and> take ?k (drop i s) = WriteUnicodeCharacter8 (word_of_nat (seq_value ?bs))"
    proof -
      define n where "n = seq_value ?bs"
      have n: "n \<le> 0x10FFFF" "\<not> (0xd800 \<le> n \<and> n < 0xe000)" using True by (auto simp: n_def seq_legal_def Let_def)
      have u: "unat (word_of_nat n :: u32) = n" using n(1) by (simp add: unat_of_nat)
      have ne: "?bs \<noteq> []" using True len by auto
      have "hd ?bs = unat (s ! i)" using True assms by (simp add: hd_map hd_drop_conv_nth)
      with len have "enc8 n = ?bs" unfolding n_def using True ne by (intro seq_enc8) simp_all
      with write8_nat [of "word_of_nat n"] n(1) have "map unat (WriteUnicodeCharacter8 (word_of_nat n)) = ?bs" by (simp add: u)
      then have "take ?k (drop i s) = WriteUnicodeCharacter8 (word_of_nat n)"
        by (simp add: inj_map_eq_map [OF injI] unsigned_word_eqI)
      with n show ?thesis unfolding n_def [symmetric] by (simp only: valid_iff u) simp
    qed
    ultimately show ?thesis using True by (auto simp: ReadUnicodeCharacter8_def)
  qed
qed

text \<open>UTF-16 and UTF-32.\<close>

lemma read32_ok:
  assumes "i < length s"
  shows "\<exists>j r. ReadUnicodeCharacter32 s (length s) i = Some (j, r) \<and> i \<le> j \<and> j < length s \<and>
    (case r of None \<Rightarrow> True | Some c \<Rightarrow> IsValidCodepoint c \<and> take (j + 1 - i) (drop i s) = WriteUnicodeCharacter32 c)"
  using assms by (simp add: ReadUnicodeCharacter32_def unit_at_def WriteUnicodeCharacter32_def take_Suc_conv_app_nth)

lemma read32_write32:
  assumes "IsValidCodepoint c" "drop i s = WriteUnicodeCharacter32 c @ rest"
  shows "ReadUnicodeCharacter32 s (length s) i = Some (i + length (WriteUnicodeCharacter32 c) - 1, Some c)"
proof -
  have "i < length s" "s ! i = c" using assms(2)
    by (auto simp: WriteUnicodeCharacter32_def not_le [symmetric] dest: hd_drop_conv_nth [symmetric])
       (metis hd_drop_conv_nth list.sel(1) not_le drop_all list.distinct(1))
  then show ?thesis using assms(1) by (simp add: ReadUnicodeCharacter32_def unit_at_def WriteUnicodeCharacter32_def)
qed

lemma unat_ucast_16: "unat (ucast (t :: u16) :: u32) = unat t"
  using unat_u16 [of t] by (simp add: unsigned_ucast_eq take_bit_eq_mod)

lemma unat_ucast_down16: "unat (ucast (x :: u32) :: u16) = unat x mod 65536"
  by (simp add: unsigned_ucast_eq take_bit_eq_mod)

lemma unit_surrogate: "CBU_IS_SURROGATE (ucast (t :: u16)) \<longleftrightarrow> 0xd800 \<le> unat t \<and> unat t < 0xe000"
  by (simp only: surrogate_iff unat_ucast_16)

lemma unit_lead: "0xd800 \<le> unat t \<Longrightarrow> unat t < 0xe000 \<Longrightarrow> CBU16_IS_SURROGATE_LEAD t \<longleftrightarrow> unat t < 0xdc00"
proof -
  assume t: "0xd800 \<le> unat t" "unat t < 0xe000"
  have "CBU16_IS_SURROGATE_LEAD t \<longleftrightarrow> \<not> bit t 10"
    using and_exp_eq_0_iff_not_bit [of t 10] by (simp add: CBU16_IS_SURROGATE_LEAD_def)
  also have "bit t 10 \<longleftrightarrow> bit (unat t) 10" by (simp add: bit_unsigned_iff)
  also have "\<dots> \<longleftrightarrow> odd (unat t div 1024)" by (simp add: bit_iff_odd)
  finally have "CBU16_IS_SURROGATE_LEAD t \<longleftrightarrow> even (unat t div 1024)" by simp
  moreover have "unat t div 1024 = (if unat t < 0xdc00 then 54 else 55)" using t by (auto intro: div_nat_eqI)
  ultimately show ?thesis by simp
qed

lemma unit_trail: "CBU16_IS_TRAIL t \<longleftrightarrow> 0xdc00 \<le> unat t \<and> unat t < 0xe000"
proof -
  have "(0xfffffc00 :: u32) = NOT (mask 10)" by code_simp
  then have "(ucast t :: u32) AND 0xfffffc00 = ucast t AND NOT (mask 10)" by (rule arg_cong)
  also have "\<dots> = push_bit 10 (drop_bit 10 (ucast t))" by (rule bit_word_eqI) (auto simp: bit_simps)
  finally have "CBU16_IS_TRAIL t \<longleftrightarrow> unat (push_bit 10 (drop_bit 10 (ucast t)) :: u32) = 0xdc00"
    by (simp add: CBU16_IS_TRAIL_def word_unat_eq_iff)
  also have "unat (push_bit 10 (drop_bit 10 (ucast t)) :: u32) = unat t div 1024 * 1024"
    using unat_u16 [of t] by (simp only: push_bit_eq_mult unat_word_ariths unat_drop unat_ucast_16) simp
  finally show ?thesis by auto
qed

lemma supplementary:
  assumes "unat a = 0xd800 + x" "unat b = 0xdc00 + y"
  shows "CBU16_GET_SUPPLEMENTARY a b = word_of_nat (0x10000 + x * 1024 + y)"
proof -
  have "(ucast a :: u32) = word_of_nat (0xd800 + x)" "(ucast b :: u32) = word_of_nat (0xdc00 + y)"
    using assms by (simp_all flip: assms add: of_nat_unat)
  then show ?thesis by (simp add: CBU16_GET_SUPPLEMENTARY_def push_bit_eq_mult algebra_simps)
qed

lemma write16_nat:
  assumes "0x10000 \<le> unat c" "unat c \<le> 0x10FFFF"
  shows "\<exists>a b. WriteUnicodeCharacter16 c = [a, b] \<and> unat a = 0xd800 + (unat c - 0x10000) div 1024 \<and>
    unat b = 0xdc00 + unat c mod 1024"
proof -
  have d: "unat (drop_bit 10 c + 0xd7c0) = unat c div 1024 + 0xd7c0"
    using assms by (simp only: unat_word_ariths unat_drop) simp
  have a: "unat (ucast (drop_bit 10 c + 0xd7c0) :: u16) = 0xd800 + (unat c - 0x10000) div 1024"
  proof -
    obtain k where k: "unat c = 65536 + k" using assms(1) by (metis le_Suc_ex)
    then have "unat c div 1024 = 64 + k div 1024" using div_mult_self1 [of 1024 k 64] by simp
    moreover have "k div 1024 < 1024" using k assms(2) by (simp add: less_mult_imp_div_less)
    ultimately show ?thesis using d k by (simp only: unat_ucast_down16) simp
  qed
  have "c AND 0x3ff = take_bit 10 c" by (simp only: take_bit_eq_mask mask_eq_exp_minus_1) simp
  then have m: "unat (c AND 0x3ff) = unat c mod 1024" by (simp only: unat_take_bit) simp
  have "(0xdc00 :: u32) = push_bit 10 55" by simp
  then have "unat ((c AND 0x3ff) OR 0xdc00) = unat c mod 1024 + 0xdc00" using or_tag [of "c AND 0x3ff" 10 55] m by simp
  then have b: "unat (ucast ((c AND 0x3ff) OR 0xdc00) :: u16) = 0xdc00 + unat c mod 1024" by (simp only: unat_ucast_down16) simp
  have "WriteUnicodeCharacter16 c = [ucast (drop_bit 10 c + 0xd7c0), ucast ((c AND 0x3ff) OR 0xdc00)]"
    using assms by (simp add: WriteUnicodeCharacter16_def CBU16_LENGTH_def CBU16_APPEND_UNSAFE_def word_le_nat_alt)
  with a b show ?thesis by blast
qed

lemma drop_ConsD:
  assumes "drop i s = x # xs"
  shows "i < length s" "s ! i = x" "drop (Suc i) s = xs"
proof -
  show i: "i < length s" using assms by (metis drop_all list.distinct(1) not_le)
  show "s ! i = x" "drop (Suc i) s = xs" using assms Cons_nth_drop_Suc [OF i] by simp_all
qed

lemma write16_bmp: "unat c < 0x10000 \<Longrightarrow> WriteUnicodeCharacter16 c = [ucast c]"
  by (simp add: WriteUnicodeCharacter16_def CBU16_LENGTH_def word_le_nat_alt)

lemma pair16:
  assumes "unat a = 0xd800 + x" "unat b = 0xdc00 + y" "x < 1024" "y < 1024"
  defines "c \<equiv> CBU16_GET_SUPPLEMENTARY a b"
  shows "IsValidCodepoint c" "WriteUnicodeCharacter16 c = [a, b]" "unat c = 0x10000 + x * 1024 + y"
proof -
  show c: "unat c = 0x10000 + x * 1024 + y" 
    unfolding c_def supplementary [OF assms(1,2)] unat_of_nat using assms(3,4) by simp
  then show "IsValidCodepoint c" using assms(3,4) by (simp add: valid_iff)
  from c assms(3,4) obtain a' b' where w: "WriteUnicodeCharacter16 c = [a', b']"
    "unat a' = 0xd800 + (unat c - 0x10000) div 1024" "unat b' = 0xdc00 + unat c mod 1024"
    using write16_nat [of c] by auto
  have "(unat c - 0x10000) div 1024 = x" using c assms(4) by simp
  moreover have "unat c mod 1024 = (y + (64 + x) * 1024) mod 1024" using c by (simp add: algebra_simps)
  then have "unat c mod 1024 = y" using assms(4) by (simp only: mod_mult_self1 mod_less)
  ultimately have "a' = a" "b' = b" using w assms(1,2) by (simp_all add: word_unat_eq_iff)
  then show "WriteUnicodeCharacter16 c = [a, b]" using w by simp
qed

lemma read16_ok:
  assumes "i < length s"
  shows "\<exists>j r. ReadUnicodeCharacter16 s (length s) i = Some (j, r) \<and> i \<le> j \<and> j < length s \<and>
    (case r of None \<Rightarrow> True | Some c \<Rightarrow> IsValidCodepoint c \<and> take (j + 1 - i) (drop i s) = WriteUnicodeCharacter16 c)"
proof (cases "0xd800 \<le> unat (s ! i) \<and> unat (s ! i) < 0xe000")
  case False
  then have v: "IsValidCodepoint (ucast (s ! i))" using unat_u16 [of "s ! i"] by (auto simp: valid_iff unat_ucast_16)
  have "WriteUnicodeCharacter16 (ucast (s ! i)) = [ucast (ucast (s ! i) :: u32)]"
    using unat_u16 [of "s ! i"] by (intro write16_bmp) (simp only: unat_ucast_16)
  then have "WriteUnicodeCharacter16 (ucast (s ! i)) = [s ! i]"
    using unat_u16 [of "s ! i"] by (simp add: word_unat_eq_iff unat_ucast_down16 unat_ucast_16)
  then show ?thesis using False assms v
    by (auto simp: ReadUnicodeCharacter16_def unit_at_def unit_surrogate take_Suc_conv_app_nth)
next
  case True
  show ?thesis
  proof (cases "unat (s ! i) < 0xdc00 \<and> i + 1 < length s \<and> 0xdc00 \<le> unat (s ! (i + 1)) \<and> unat (s ! (i + 1)) < 0xe000")
    case False
    then show ?thesis using True assms
      by (auto simp: ReadUnicodeCharacter16_def unit_at_def unit_surrogate unit_lead unit_trail)
  next
    case pair: True
    define x y where "x = unat (s ! i) - 0xd800" and "y = unat (s ! (i + 1)) - 0xdc00"
    have p: "unat (s ! i) = 0xd800 + x" "unat (s ! (i + 1)) = 0xdc00 + y" "x < 1024" "y < 1024"
      using pair True by (auto simp: x_def y_def)
    have "take 2 (drop i s) = [s ! i, s ! (i + 1)]" using pair by (auto simp: take_Suc_conv_app_nth numeral_2_eq_2)
    with pair16 [OF p] pair True show ?thesis
      by (simp add: ReadUnicodeCharacter16_def unit_at_def unit_surrogate unit_lead unit_trail Let_def)
  qed
qed

lemma read16_write16:
  assumes "IsValidCodepoint c" "drop i s = WriteUnicodeCharacter16 c @ rest"
  shows "ReadUnicodeCharacter16 s (length s) i = Some (i + length (WriteUnicodeCharacter16 c) - 1, Some c)"
proof (cases "unat c < 0x10000")
  case True
  then have w: "WriteUnicodeCharacter16 c = [ucast c]" by (rule write16_bmp)
  then have i: "i < length s" "s ! i = ucast c" using assms(2) drop_ConsD [of i s "ucast c" rest] by simp_all
  have u: "unat (ucast c :: u16) = unat c" using True by (simp add: unat_ucast_down16)
  then have "(ucast (ucast c :: u16) :: u32) = c" by (simp add: word_unat_eq_iff unat_ucast_16)
  moreover have "\<not> CBU_IS_SURROGATE c" using assms(1) by (auto simp: surrogate_iff valid_iff)
  ultimately show ?thesis using i assms(1) w by (simp add: ReadUnicodeCharacter16_def unit_at_def)
next
  case False
  then obtain a b where w: "WriteUnicodeCharacter16 c = [a, b]" "unat a = 0xd800 + (unat c - 0x10000) div 1024"
    "unat b = 0xdc00 + unat c mod 1024" using write16_nat [of c] assms(1) by (auto simp: valid_iff)
  have xy: "(unat c - 0x10000) div 1024 < 1024" "unat c mod 1024 < 1024" using assms(1) by (auto simp: valid_iff less_mult_imp_div_less)
  obtain k where k: "unat c = 65536 + k" using False by (metis le_Suc_ex not_less)
  have "unat c mod 1024 = (k + 64 * 1024) mod 1024" by (simp add: k add.commute)
  then have "unat c mod 1024 = k mod 1024" by (simp only: mod_mult_self1)
  then have "unat (CBU16_GET_SUPPLEMENTARY a b) = unat c" using pair16(3) [OF w(2,3) xy] by (simp add: k)
  then have c: "CBU16_GET_SUPPLEMENTARY a b = c" by (simp add: word_unat_eq_iff)
  have i: "i < length s" "s ! i = a" "i + 1 < length s" "s ! (i + 1) = b"
    using assms(2) w(1) drop_ConsD [of i s a "b # rest"] drop_ConsD [of "i + 1" s b rest] by simp_all
  have "CBU_IS_SURROGATE (ucast a)" "CBU16_IS_SURROGATE_LEAD a" "CBU16_IS_TRAIL b"
    using w(2,3) xy unit_lead [of a] by (simp_all add: unit_surrogate unit_trail)
  then show ?thesis using i c w(1) assms(1) by (simp add: ReadUnicodeCharacter16_def unit_at_def)
qed

section \<open>The converter\<close>

lemma replacement_valid: "IsValidCodepoint 0xFFFD"
  by code_simp

locale unicode_form =
  fixes rd :: "'c list \<Rightarrow> nat \<Rightarrow> nat \<Rightarrow> (nat \<times> u32 option) option" and wr :: "u32 \<Rightarrow> 'c list"
  assumes read_ok: "i < length s \<Longrightarrow> \<exists>j r. rd s (length s) i = Some (j, r) \<and> i \<le> j \<and> j < length s \<and>
      (case r of None \<Rightarrow> True | Some c \<Rightarrow> IsValidCodepoint c \<and> take (j + 1 - i) (drop i s) = wr c)"
    and read_write: "IsValidCodepoint c \<Longrightarrow> drop i s = wr c @ rest \<Longrightarrow>
      rd s (length s) i = Some (i + length (wr c) - 1, Some c)"
    and write_something: "IsValidCodepoint c \<Longrightarrow> wr c \<noteq> []"
begin

definition encode :: "u32 list \<Rightarrow> 'c list" where
  "encode cs = concat (map wr cs)"

lemma convert_loop_result:
  "length s - i < n \<Longrightarrow> \<exists>ok cs. convert_loop n (rd s (length s)) w (length s) i success out =
     Some (success \<and> ok, out @ concat (map w cs)) \<and> list_all IsValidCodepoint cs \<and> (ok \<longrightarrow> drop i s = encode cs)"
proof (induction n arbitrary: i success out)
  case (Suc n)
  show ?case
  proof (cases "i < length s")
    case True
    with read_ok obtain j r where r: "rd s (length s) i = Some (j, r)" "i \<le> j" "j < length s"
      "case r of None \<Rightarrow> True | Some c \<Rightarrow> IsValidCodepoint c \<and> take (j + 1 - i) (drop i s) = wr c" by blast
    have less: "length s - (j + 1) < n" using Suc.prems True r(2,3) by linarith
    show ?thesis
    proof (cases r)
      case None
      from Suc.IH [OF less, of False "out @ w 0xFFFD"] obtain cs where
        "convert_loop n (rd s (length s)) w (length s) (j + 1) False (out @ w 0xFFFD) =
           Some (False, (out @ w 0xFFFD) @ concat (map w cs))" "list_all IsValidCodepoint cs" by auto
      then show ?thesis using True r(1) None
        by (intro exI [of _ False] exI [of _ "0xFFFD # cs"]) (simp add: replacement_valid)
    next
      case (Some c)
      from Suc.IH [OF less, of success "out @ w c"] obtain ok cs where
        "convert_loop n (rd s (length s)) w (length s) (j + 1) success (out @ w c) =
           Some (success \<and> ok, (out @ w c) @ concat (map w cs))" "list_all IsValidCodepoint cs"
        "ok \<longrightarrow> drop (j + 1) s = encode cs" by blast
      moreover have "drop i s = wr c @ drop (j + 1) s"
        using r(2-4) Some append_take_drop_id [of "j + 1 - i" "drop i s"] by simp
      ultimately show ?thesis using True r(1,4) Some
        by (intro exI [of _ ok] exI [of _ "c # cs"]) (auto simp: encode_def)
    qed
  next
    case False
    then show ?thesis by (intro exI [of _ True] exI [of _ "[]"]) (simp add: encode_def)
  qed
qed simp

lemma convert_loop_encoded:
  "list_all IsValidCodepoint cs \<Longrightarrow> drop i s = encode cs \<Longrightarrow> length s - i < n \<Longrightarrow> i \<le> length s \<Longrightarrow>
   convert_loop n (rd s (length s)) w (length s) i success out = Some (success, out @ concat (map w cs))"
proof (induction n arbitrary: i out cs)
  case (Suc n)
  show ?case
  proof (cases cs)
    case Nil
    then show ?thesis using Suc.prems by (auto simp: encode_def)
  next
    case (Cons c cs')
    have c: "IsValidCodepoint c" "drop i s = wr c @ encode cs'" using Suc.prems(1,2) Cons by (simp_all add: encode_def)
    have r: "rd s (length s) i = Some (i + length (wr c) - 1, Some c)" by (rule read_write [OF c])
    have w: "0 < length (wr c)" using write_something [OF c(1)] by simp
    have len: "length s - i = length (wr c) + length (encode cs')" using arg_cong [OF c(2), of length] by simp
    have "drop (i + length (wr c)) s = drop (length (wr c)) (drop i s)" by (simp add: add.commute)
    also have "\<dots> = encode cs'" by (simp add: c(2))
    finally have d: "drop (i + length (wr c)) s = encode cs'" .
    have "convert_loop n (rd s (length s)) w (length s) (i + length (wr c)) success (out @ w c) =
        Some (success, (out @ w c) @ concat (map w cs'))"
    proof (rule Suc.IH)
      show "length s - (i + length (wr c)) < n" using Suc.prems(3) len w by linarith
      show "i + length (wr c) \<le> length s" using Suc.prems(4) len by linarith
    qed (use Suc.prems(1) Cons d in simp_all)
    moreover have "i < length s" using len w by linarith
    ultimately show ?thesis using r w Cons by simp
  qed
qed simp

lemma convert_encoded: "list_all IsValidCodepoint cs \<Longrightarrow> ConvertUnicode rd w (encode cs) = Some (True, concat (map w cs))"
  using convert_loop_encoded [of cs 0 "encode cs" "Suc (length (encode cs))" w True "[]"]
  by (simp add: ConvertUnicode_def)

lemma convert_total: "\<exists>ok cs. ConvertUnicode rd w s = Some (ok, concat (map w cs)) \<and> list_all IsValidCodepoint cs \<and>
    (ok \<longrightarrow> s = encode cs)"
  using convert_loop_result [of s 0 "Suc (length s)" w True "[]"] by (simp add: ConvertUnicode_def)

end

lemma write8_something: "IsValidCodepoint c \<Longrightarrow> WriteUnicodeCharacter8 c \<noteq> []"
  by (auto simp: WriteUnicodeCharacter8_def CBU8_APPEND_UNSAFE_def)

lemma write16_something: "IsValidCodepoint c \<Longrightarrow> WriteUnicodeCharacter16 c \<noteq> []"
  by (auto simp: WriteUnicodeCharacter16_def CBU16_APPEND_UNSAFE_def)

lemma write32_something: "IsValidCodepoint c \<Longrightarrow> WriteUnicodeCharacter32 c \<noteq> []"
  by (simp add: WriteUnicodeCharacter32_def)

interpretation utf8: unicode_form ReadUnicodeCharacter8 WriteUnicodeCharacter8
  by unfold_locales (simp_all only: read8_ok read8_write8 write8_something not_False_eq_True)

interpretation utf16: unicode_form ReadUnicodeCharacter16 WriteUnicodeCharacter16
  by unfold_locales (simp_all only: read16_ok read16_write16 write16_something not_False_eq_True)

interpretation utf32: unicode_form ReadUnicodeCharacter32 WriteUnicodeCharacter32
  by unfold_locales (simp_all only: read32_ok read32_write32 write32_something not_False_eq_True)

text \<open>Both directions between two forms: what one accepts the other gives back.\<close>

lemma forms_inverse:
  assumes "unicode_form rd wr" "unicode_form rd' wr'"
  shows "ConvertUnicode rd wr' s = Some (True, t) \<longleftrightarrow> ConvertUnicode rd' wr t = Some (True, s)"
proof -
  have one: "ConvertUnicode rd' wr t = Some (True, s)" if "unicode_form rd wr" "unicode_form rd' wr'"
    "ConvertUnicode rd wr' s = Some (True, t)" for rd wr rd' wr' s t
  proof -
    from unicode_form.convert_total [OF that(1), of wr' s] that(3) obtain cs where
      "t = concat (map wr' cs)" "list_all IsValidCodepoint cs" "s = unicode_form.encode wr cs" by auto
    then show ?thesis using unicode_form.convert_encoded [OF that(2), of cs wr] that(1,2)
      by (simp add: unicode_form.encode_def)
  qed
  show ?thesis using one [OF assms] one [OF assms(2,1)] by blast
qed

lemma next_progress: "i < length s \<Longrightarrow> \<exists>j c. CBU8_NEXT s i (length s) = Some (j, c) \<and> i < j \<and> j \<le> length s"
  using next_at [of i s] by (auto simp: next_char_def min_def split: if_splits)

lemma IsStringUTF8_loop_total: "length s - i < n \<Longrightarrow> \<exists>b. IsStringUTF8_loop n s (length s) i = Some b"
proof (induction n arbitrary: i)
  case (Suc n)
  show ?case
  proof (cases "i < length s")
    case True
    from next_progress [OF this] obtain j c where j: "CBU8_NEXT s i (length s) = Some (j, c)" "i < j" "j \<le> length s" by blast
    then have "length s - j < n" using Suc.prems True by linarith
    with Suc.IH [of j] j(1) True show ?thesis by auto
  qed auto
qed simp

lemma IsStringUTF8_total: "\<exists>b. IsStringUTF8 s = Some b"
  using IsStringUTF8_loop_total [of s 0 "Suc (length s)"] by (simp add: IsStringUTF8_def)


end
