(* ===== verification/JsonSafe.thy ===== *)
theory JsonSafe imports JsonReader UtfProps begin

text \<open>
  The JSON reader on arbitrary bytes: no access outside the text, no \<open>NOTREACHED\<close>, no fuel that runs out, and a
  value only of the type of JSON values. A position of the reader stays where a scan from the start of the
  text can reach it without passing the terminating NUL; each function keeps that and moves forward.
\<close>

section \<open>Positions in the text\<close>

text \<open>From \<open>a\<close> the position \<open>p\<close> can be reached without passing a NUL, and it is inside the buffer.\<close>

definition text_buf :: "u32 list \<Rightarrow> bool" where
  "text_buf buf \<longleftrightarrow> buf \<noteq> [] \<and> last buf = 0"

definition reach :: "u32 list \<Rightarrow> nat \<Rightarrow> nat \<Rightarrow> bool" where
  "reach buf a p \<longleftrightarrow> a \<le> p \<and> p < length buf \<and> (\<forall>i. a \<le> i \<and> i < p \<longrightarrow> buf ! i \<noteq> 0)"

lemma reach_trans: "reach buf a b \<Longrightarrow> reach buf b c \<Longrightarrow> reach buf a c"
  unfolding reach_def by (metis le_trans not_le)

lemma reach_start: "reach buf a p \<Longrightarrow> reach buf p p"
  by (simp add: reach_def)

lemma reach_unit: "reach buf a p \<Longrightarrow> unit_at buf p = Some (buf ! p)"
  by (simp add: reach_def unit_at_def)

lemma reach_Suc: "text_buf buf \<Longrightarrow> reach buf a p \<Longrightarrow> buf ! p \<noteq> 0 \<Longrightarrow> reach buf a (Suc p)"
  unfolding reach_def text_buf_def
  by (metis Suc_lessI diff_Suc_1 last_conv_nth le_Suc_eq less_Suc_eq)

lemma reach_le: "reach buf a p \<Longrightarrow> a \<le> p"
  by (simp add: reach_def)

lemma count_lines_ok:
  "reach buf a e \<Longrightarrow> 1 \<le> l \<Longrightarrow> 1 \<le> c \<Longrightarrow> \<exists>l' c'. count_lines buf a e l c = Some (l', c') \<and> 1 \<le> l' \<and> 1 \<le> c'"
proof (induction buf a e l c rule: count_lines.induct)
  case (1 buf a e l c)
  show ?case
  proof (cases "a = e")
    case True
    then show ?thesis using 1 by (subst count_lines.simps) simp
  next
    case False
    then have a: "unit_at buf a = Some (buf ! a)" "buf ! a \<noteq> 0" "reach buf (a + 1) e"
      using 1(3) by (auto simp: reach_def unit_at_def)
    show ?thesis
      using 1(1) [OF False a(1,2) _ a(3)] 1(2) [OF False a(1,2) _ a(3)] 1(4,5) False a
      by (subst count_lines.simps) auto
  qed
qed

definition error_at :: "json_error \<Rightarrow> json_reader \<Rightarrow> json_reader \<Rightarrow> bool" where
  "error_at e s s' \<longleftrightarrow> (\<exists>l c. 1 \<le> l \<and> 1 \<le> c \<and> s' = s\<lparr>error_line := l, error_col := c, error_code := e\<rparr>)"

lemma SetErrorCode_ok: "reach buf (start_pos s) p \<Longrightarrow> \<exists>s'. SetErrorCode buf e p s = Some s' \<and> error_at e s s'"
  using count_lines_ok [of buf "start_pos s" p 1 1] by (force simp: SetErrorCode_def error_at_def)

section \<open>White space and comments\<close>

lemma eat_line_ok:
  assumes "text_buf buf" shows "reach buf a p \<Longrightarrow> \<exists>q. eat_line buf p = Some q \<and> reach buf a q \<and> p \<le> q"
proof (induction "length buf - p" arbitrary: p rule: less_induct)
  case less
  note u = reach_unit [OF less.prems]
  have ih: "\<exists>q. eat_line buf (Suc p) = Some q \<and> reach buf a q \<and> Suc p \<le> q" if "buf ! p \<noteq> 0"
    using that less.hyps [OF _ reach_Suc [OF assms less.prems that]] less.prems by (auto simp: reach_def)
  show ?case
    using ih reach_Suc [OF assms less.prems] less.prems u by (subst eat_line.simps) (auto intro: Suc_leD)
qed

lemma eat_block_ok:
  assumes "text_buf buf" shows "reach buf a p \<Longrightarrow> \<exists>q. eat_block buf p = Some q \<and> reach buf a q \<and> p \<le> q"
proof (induction "length buf - p" arbitrary: p rule: less_induct)
  case less
  note u = reach_unit [OF less.prems]
  show ?case
  proof (cases "buf ! p = 0")
    case True
    then show ?thesis using u less.prems by (subst eat_block.simps) simp
  next
    case False
    have r: "reach buf a (Suc p)" by (rule reach_Suc [OF assms less.prems False])
    have ih: "\<exists>q. eat_block buf (Suc p) = Some q \<and> reach buf a q \<and> Suc p \<le> q"
      using less.hyps [OF _ r] less.prems by (auto simp: reach_def)
    have "reach buf a (Suc (Suc p))" if "buf ! Suc p = 47" using reach_Suc [OF assms r] that by simp
    then show ?thesis
      using ih u reach_unit [OF r] False by (subst eat_block.simps) (auto intro: Suc_leD)
  qed
qed

lemma EatComment_ok:
  assumes "text_buf buf" "reach buf a p" shows "\<exists>b q. EatComment buf p = Some (b, q) \<and> reach buf a q \<and> p \<le> q"
proof (cases "buf ! p = 47")
  case True
  then have r: "reach buf a (Suc p)" using reach_Suc [OF assms] by simp
  show ?thesis
  proof (cases "buf ! Suc p = 47 \<or> buf ! Suc p = 42")
    case c: True
    then have "reach buf a (Suc (Suc p))" using reach_Suc [OF assms(1) r] by auto
    from eat_line_ok [OF assms(1) this] eat_block_ok [OF assms(1) this] c True reach_unit [OF r] reach_unit [OF assms(2)]
    show ?thesis by (auto simp: EatComment_def)
  next
    case False
    then show ?thesis using True reach_unit [OF r] reach_unit [OF assms(2)] assms(2) by (auto simp: EatComment_def)
  qed
next
  case False
  then show ?thesis using reach_unit [OF assms(2)] assms(2) by (auto simp: EatComment_def)
qed

lemma eat_space_ok:
  assumes "text_buf buf" shows "reach buf a p \<Longrightarrow> \<exists>q. eat_space buf p = Some q \<and> reach buf a q \<and> p \<le> q"
proof (induction "length buf - p" arbitrary: p rule: less_induct)
  case less
  note u = reach_unit [OF less.prems]
  from EatComment_ok [OF assms less.prems] obtain b q where e: "EatComment buf p = Some (b, q)" "reach buf a q" "p \<le> q" by auto
  have step: "\<exists>q'. eat_space buf q = Some q' \<and> reach buf a q' \<and> p \<le> q'" if b
  proof -
    have "p < q \<and> p < length buf" using EatComment_forward [of buf p q] e(1) that by simp
    then have "length buf - q < length buf - p" by linarith
    from less.hyps [OF this e(2)] e(3) show ?thesis using le_trans by blast
  qed
  have ih: "\<exists>q. eat_space buf (Suc p) = Some q \<and> reach buf a q \<and> Suc p \<le> q" if "buf ! p \<noteq> 0"
    using that less.hyps [OF _ reach_Suc [OF assms less.prems that]] less.prems by (auto simp: reach_def)
  show ?case using ih step u e less.prems by (subst eat_space.simps) (auto intro: Suc_leD)
qed

section \<open>Tokens\<close>

abbreviation tok_end :: "token \<Rightarrow> nat" where
  "tok_end t \<equiv> tok_begin t + tok_length t"

lemma longer_simps [simp]:
  "tok_begin (longer n t) = tok_begin t" "tok_type (longer n t) = tok_type t" "tok_length (longer n t) = tok_length t + n"
  by (simp_all add: longer_def)

lemma Token_simps [simp]: "tok_begin (Token t b n) = b" "tok_type (Token t b n) = t" "tok_length (Token t b n) = n"
  by (simp_all add: Token_def)

lemma NextChar_ok: "reach buf a (tok_end t) \<Longrightarrow> NextChar buf t = Some (buf ! tok_end t)"
  by (simp add: NextChar_def reach_unit)

text \<open>A token that grew from another one.\<close>

definition grown :: "u32 list \<Rightarrow> nat \<Rightarrow> token \<Rightarrow> token \<Rightarrow> bool" where
  "grown buf a t t' \<longleftrightarrow> tok_begin t' = tok_begin t \<and> tok_type t' = tok_type t \<and> tok_length t \<le> tok_length t' \<and> reach buf a (tok_end t')"

lemma grown_reach: "grown buf a t t' \<Longrightarrow> reach buf a (tok_end t')"
  unfolding grown_def by (elim conjE)

lemma grown_trans: "grown buf a t u \<Longrightarrow> grown buf a u w \<Longrightarrow> grown buf a t w"
  by (auto simp: grown_def)

lemma grown_longer: "text_buf buf \<Longrightarrow> reach buf a (tok_end t) \<Longrightarrow> buf ! tok_end t \<noteq> 0 \<Longrightarrow> grown buf a t (longer 1 t)"
  using reach_Suc by (auto simp: grown_def)

lemma ReadInt_loop_ok:
  assumes "text_buf buf"
  shows "reach buf a (tok_end t) \<Longrightarrow> c = buf ! tok_end t \<Longrightarrow> \<exists>t' k. ReadInt_loop buf t len c = Some (t', k) \<and>
    grown buf a t t' \<and> len \<le> k \<and> tok_length t' = tok_length t + (k - len)"
proof (induction "length buf - tok_end t" arbitrary: t len c rule: less_induct)
  case less
  show ?case
  proof (cases "c \<noteq> 0 \<and> is_dec c")
    case True
    from True less.prems have g: "grown buf a t (longer 1 t)" by (intro grown_longer [OF assms]) auto
    then have r: "reach buf a (tok_end (longer 1 t))" by (rule grown_reach)
    have "length buf - tok_end (longer 1 t) < length buf - tok_end t" using r less.prems(1) by (auto simp: reach_def)
    from less.hyps [OF this r refl, of "len + 1"] obtain t' k where
      "ReadInt_loop buf (longer 1 t) (len + 1) (buf ! tok_end (longer 1 t)) = Some (t', k)"
      "grown buf a (longer 1 t) t'" "len + 1 \<le> k" "tok_length t' = tok_length (longer 1 t) + (k - (len + 1))" by blast
    then show ?thesis using True g NextChar_ok [OF r] by (subst ReadInt_loop.simps) (auto intro: grown_trans)
  next
    case False
    then show ?thesis using less.prems by (subst ReadInt_loop.simps) (auto simp: grown_def)
  qed
qed

lemma ReadInt_ok:
  assumes "text_buf buf" "reach buf a (tok_end t)"
  shows "\<exists>ok t'. ReadInt buf t z = Some (ok, t') \<and> grown buf a t t' \<and> (ok \<longrightarrow> tok_length t < tok_length t')"
  using ReadInt_loop_ok [OF assms refl, of 0] NextChar_ok [OF assms(2)] by (auto simp: ReadInt_def)

definition number_token :: "u32 list \<Rightarrow> nat \<Rightarrow> token \<Rightarrow> token \<Rightarrow> bool" where
  "number_token buf a t t' \<longleftrightarrow> t' = kInvalidToken \<or> grown buf a t t'"

lemma ParseNumber_exponent_ok:
  assumes "text_buf buf" "reach buf a (tok_end t)" "c = buf ! tok_end t"
  shows "\<exists>t'. ParseNumber_exponent buf t c = Some t' \<and> number_token buf a t t'"
proof (cases "c = 101 \<or> c = 69")
  case True
  let ?t1 = "longer 1 t"
  have g1: "grown buf a t ?t1" using True assms by (intro grown_longer) auto
  then have r1: "reach buf a (tok_end ?t1)" by (rule grown_reach)
  let ?c1 = "buf ! tok_end ?t1"
  define t2 where "t2 = (if ?c1 = 45 \<or> ?c1 = 43 then longer 1 ?t1 else ?t1)"
  have g2: "grown buf a ?t1 t2" using grown_longer [OF assms(1) r1] r1 by (auto simp: t2_def) (auto simp: grown_def)
  then have "reach buf a (tok_end t2)" by (rule grown_reach)
  from ReadInt_ok [OF assms(1) this, of True] obtain ok t3 where
    "ReadInt buf t2 True = Some (ok, t3)" "grown buf a t2 t3" by blast
  moreover have "ParseNumber_exponent buf t c = (do { (ok, t3) \<leftarrow> ReadInt buf t2 True; Some (if ok then t3 else kInvalidToken) })"
    using True NextChar_ok [OF r1] by (simp add: ParseNumber_exponent_def t2_def)
  ultimately show ?thesis using g1 g2 by (auto simp: number_token_def intro: grown_trans)
next
  case False
  then show ?thesis using assms(2) by (simp add: ParseNumber_exponent_def number_token_def grown_def)
qed

lemma ParseNumberToken_ok:
  assumes "text_buf buf" "reach buf a (json_pos s)"
  shows "\<exists>t. ParseNumberToken buf s = Some t \<and> (t = kInvalidToken \<or>
    tok_type t = NUMBER \<and> tok_begin t = json_pos s \<and> 0 < tok_length t \<and> reach buf a (tok_end t))"
proof -
  let ?t0 = "Token NUMBER (json_pos s) 0"
  have r0: "reach buf a (tok_end ?t0)" using assms(2) by simp
  let ?c = "buf ! json_pos s"
  define t1 where "t1 = (if ?c = 45 then longer 1 ?t0 else ?t0)"
  have g1: "grown buf a ?t0 t1" using grown_longer [OF assms(1) r0] r0 by (auto simp: t1_def) (auto simp: grown_def)
  then have r1: "reach buf a (tok_end t1)" by (rule grown_reach)
  from ReadInt_ok [OF assms(1) r1, of False] obtain ok t2 where
    t2: "ReadInt buf t1 False = Some (ok, t2)" and g2: "grown buf a t1 t2" "ok \<longrightarrow> tok_length t1 < tok_length t2" by blast
  from g2(1) have r2: "reach buf a (tok_end t2)" by (rule grown_reach)
  have unfolded: "ParseNumberToken buf s = (do {
     (ok, token2) \<leftarrow> ReadInt buf t1 False;
     if \<not> ok then Some kInvalidToken
     else do {
       c2 \<leftarrow> NextChar buf token2;
       if c2 = 46
       then do {
         (ok3, token3) \<leftarrow> ReadInt buf (longer 1 token2) True;
         if \<not> ok3 then Some kInvalidToken
         else do { c3 \<leftarrow> NextChar buf token3; ParseNumber_exponent buf token3 c3 } }
       else ParseNumber_exponent buf token2 c2 } })"
    by (simp add: ParseNumberToken_def t1_def reach_unit [OF assms(2)])
  have *: "\<exists>t. ParseNumberToken buf s = Some t \<and> number_token buf a t2 t" if ok
  proof (cases "buf ! tok_end t2 = 46")
    case False
    with ParseNumber_exponent_ok [OF assms(1) r2 refl] t2 that show ?thesis
      by (simp add: unfolded NextChar_ok [OF r2])
  next
    case True
    then have g: "grown buf a t2 (longer 1 t2)" by (intro grown_longer [OF assms(1) r2]) simp
    then have "reach buf a (tok_end (longer 1 t2))" by (rule grown_reach)
    from ReadInt_ok [OF assms(1) this, of True] obtain ok3 t3 where
      t3: "ReadInt buf (longer 1 t2) True = Some (ok3, t3)" and g3: "grown buf a (longer 1 t2) t3" by blast
    from g3 have r3: "reach buf a (tok_end t3)" by (rule grown_reach)
    from ParseNumber_exponent_ok [OF assms(1) r3 refl] obtain t4 where
      "ParseNumber_exponent buf t3 (buf ! tok_end t3) = Some t4" "number_token buf a t3 t4" by blast
    with True t2 t3 that g g3 show ?thesis
      by (auto simp: unfolded NextChar_ok [OF r2] NextChar_ok [OF r3]
        number_token_def intro: grown_trans)
  qed
  show ?thesis
  proof (cases ok)
    case True
    with * g1 g2 show ?thesis by (auto simp: number_token_def grown_def)
  next
    case False
    with t2 show ?thesis by (simp add: unfolded)
  qed
qed

lemma DecodeNumber_ok: "\<exists>r. DecodeNumber strtod buf t = Some r \<and>
    (case r of None \<Rightarrow> True | Some v \<Rightarrow> (\<exists>i. v = IntegerValue i) \<or> (\<exists>d. v = RealValue d \<and> IsFinite d))"
proof -
  obtain ok cs where "WideToUTF8 (token_text buf t) = Some (ok, concat (map WriteUnicodeCharacter8 cs))"
    using utf32.convert_total [of WriteUnicodeCharacter8] unfolding WideToUTF8_def by blast
  then show ?thesis by (auto simp: DecodeNumber_def split: prod.splits)
qed

section \<open>Strings\<close>

definition text_ok :: "str \<Rightarrow> bool" where
  "text_ok s \<longleftrightarrow> (case UTF8ToWide s of Some (ok, w) \<Rightarrow> ok | None \<Rightarrow> False)"

lemma text_ok_encoded: "list_all IsValidCodepoint cs \<Longrightarrow> text_ok (concat (map WriteUnicodeCharacter8 cs))"
  using utf8.convert_encoded [of cs WriteUnicodeCharacter32] by (simp add: text_ok_def UTF8ToWide_def utf8.encode_def)

lemma DecodeString_conversions:
  "\<exists>u. (do { (ok, utf16) \<leftarrow> WideToUTF16 w; (ok', utf8) \<leftarrow> UTF16ToUTF8 utf16; Some utf8 }) = Some u \<and> text_ok u"
proof -
  obtain ok cs where w: "WideToUTF16 w = Some (ok, concat (map WriteUnicodeCharacter16 cs))"
    using utf32.convert_total [of WriteUnicodeCharacter16] unfolding WideToUTF16_def by blast
  obtain ok' cs' where "UTF16ToUTF8 (concat (map WriteUnicodeCharacter16 cs)) = Some (ok', concat (map WriteUnicodeCharacter8 cs'))"
    "list_all IsValidCodepoint cs'"
    using utf16.convert_total [of WriteUnicodeCharacter8] unfolding UTF16ToUTF8_def by blast
  with w show ?thesis by (simp add: text_ok_encoded)
qed

lemma hex_digits_at_ok:
  assumes "text_buf buf"
  shows "reach buf a p \<Longrightarrow> \<exists>ok. hex_digits_at buf p n = Some ok \<and> (ok \<longrightarrow> reach buf a (p + n) \<and>
    (\<forall>i < n. IsHexDigit (buf ! (p + i))))"
proof (induction n arbitrary: p)
  case (Suc n)
  show ?case
  proof (cases "buf ! p = 0 \<or> \<not> IsHexDigit (buf ! p)")
    case True
    then show ?thesis using reach_unit [OF Suc.prems] by auto
  next
    case False
    then have "reach buf a (Suc p)" using reach_Suc [OF assms Suc.prems] by simp
    from Suc.IH [OF this] obtain ok where ok: "hex_digits_at buf (Suc p) n = Some ok"
      "ok \<longrightarrow> reach buf a (Suc p + n) \<and> (\<forall>i < n. IsHexDigit (buf ! (Suc p + i)))" by blast
    then show ?thesis using False reach_unit [OF Suc.prems] by (auto simp: less_Suc_eq_0_disj)
  qed
qed auto

lemma ReadHexDigits_ok:
  assumes "text_buf buf" "reach buf a (tok_end t)" "buf ! tok_end t \<noteq> 0"
  shows "\<exists>ok. ReadHexDigits buf t n = Some (ok, if ok then longer n t else t) \<and>
    (ok \<longrightarrow> reach buf a (tok_end (longer n t) + 1) \<and> (\<forall>i < n. IsHexDigit (buf ! (tok_end t + 1 + i))))"
proof -
  from hex_digits_at_ok [OF assms(1) reach_Suc [OF assms], of n] obtain ok where
    "hex_digits_at buf (tok_end t + 1) n = Some ok"
    "ok \<longrightarrow> reach buf a (tok_end t + 1 + n) \<and> (\<forall>i < n. IsHexDigit (buf ! (tok_end t + 1 + i)))" by auto
  moreover have "tok_end (longer n t) + 1 = tok_end t + 1 + n" by simp
  ultimately show ?thesis unfolding ReadHexDigits_def by (simp add: add.assoc)
qed

lemma hex_at_ok: "reach buf a p \<Longrightarrow> i < p \<Longrightarrow> IsHexDigit (buf ! i) \<Longrightarrow> \<exists>h. hex_at buf i = Some h"
  by (auto simp: hex_at_def unit_at_def reach_def HexDigitToInt_def)

text \<open>An escape is either reported as invalid, or the character it stands for can be decoded.\<close>

lemma parse_escape_ok:
  assumes "text_buf buf" "reach buf a (tok_end t)" "c = buf ! tok_end t"
  shows "\<exists>r. parse_escape buf t c = Some r \<and> (case r of
      Inl t' \<Rightarrow> t' = t
    | Inr t' \<Rightarrow> \<exists>n w. t' = longer n t \<and> decode_escape buf (tok_end t) c = Some (w, n) \<and> reach buf a (tok_end t' + 1))"
proof (cases "c = 120 \<or> c = 117")
  case True
  then have nz: "buf ! tok_end t \<noteq> 0" using assms(3) by auto
  define n where "n = (if c = 120 then 2 else 4 :: nat)"
  from ReadHexDigits_ok [OF assms(1,2) nz, of n] obtain ok where
    ok: "ReadHexDigits buf t n = Some (ok, if ok then longer n t else t)"
    "ok \<longrightarrow> reach buf a (tok_end (longer n t) + 1) \<and> (\<forall>i < n. IsHexDigit (buf ! (tok_end t + 1 + i)))" by blast
  have "\<exists>w. decode_escape buf (tok_end t) c = Some (w, n)" if ok
  proof -
    have h: "\<exists>h. hex_at buf (tok_end t + 1 + i) = Some h" if "i < n" for i
      using ok(2) \<open>ok\<close> that by (intro hex_at_ok [of buf a "tok_end (longer n t) + 1"]) auto
    have e: "tok_end t + 1 + 0 = tok_end t + 1" "tok_end t + 1 + 1 = tok_end t + 2" "tok_end t + 1 + 2 = tok_end t + 3"
      "tok_end t + 1 + 3 = tok_end t + 4" by simp_all
    note h' = h [of 0, unfolded e] h [of 1, unfolded e] h [of 2, unfolded e] h [of 3, unfolded e]
    from True show ?thesis
    proof
      assume c: "c = 120"
      then obtain h1 h2 where "hex_at buf (tok_end t + 1) = Some h1" "hex_at buf (tok_end t + 2) = Some h2"
        using h' unfolding n_def by (auto simp del: One_nat_def)
      with c show ?thesis by (simp add: decode_escape_def n_def)
    next
      assume c: "c = 117"
      then obtain h1 h2 h3 h4 where "hex_at buf (tok_end t + 1) = Some h1" "hex_at buf (tok_end t + 2) = Some h2"
        "hex_at buf (tok_end t + 3) = Some h3" "hex_at buf (tok_end t + 4) = Some h4"
        using h' unfolding n_def by (auto simp del: One_nat_def)
      with c show ?thesis by (simp add: decode_escape_def n_def)
    qed
  qed
  moreover have "parse_escape buf t c = Some (if ok then Inr (longer n t) else Inl t)"
    using True ok(1) by (auto simp: parse_escape_def n_def split: if_splits)
  ultimately show ?thesis using ok(2) by (cases ok) auto
next
  case False
  show ?thesis
  proof (cases "c \<in> {92, 47, 98, 102, 110, 114, 116, 118, 34}")
    case True
    then have "buf ! tok_end t \<noteq> 0" using assms(3) by auto
    from reach_Suc [OF assms(1,2) this] True False show ?thesis
      by (intro exI [of _ "Inr t"]) (auto simp: parse_escape_def decode_escape_def longer_def intro!: exI [of _ "0 :: nat"])
  qed (use False in \<open>auto simp: parse_escape_def\<close>)
qed

text \<open>What the loop over a string gives: the invalid token, or a token whose text can be decoded to the end.\<close>

definition string_result :: "u32 list \<Rightarrow> json_reader \<Rightarrow> token \<Rightarrow> token \<times> json_reader \<Rightarrow> bool" where
  "string_result buf s t r \<longleftrightarrow>
    fst r = kInvalidToken \<and> (snd r = s \<or> error_at JSON_INVALID_ESCAPE s (snd r)) \<or>
    snd r = s \<and> grown buf (start_pos s) t (fst r) \<and> tok_length t < tok_length (fst r) \<and>
      (\<forall>d. \<exists>w. DecodeString_loop buf (fst r) (tok_length t) d = Some w)"

lemma string_result_char:
  assumes "string_result buf s (longer 1 t) r" "reach buf (start_pos s) (tok_end t)" "buf ! tok_end t \<noteq> 92"
  shows "string_result buf s t r"
  using assms reach_unit [OF assms(2)] unfolding string_result_def
  by (subst DecodeString_loop.simps) (auto simp: grown_def)

lemma string_result_escape:
  assumes "string_result buf s (longer (1 + k + 1) t) r" "reach buf (start_pos s) (tok_end t)" "buf ! tok_end t = 92"
    "unit_at buf (tok_end t + 1) = Some c1" "decode_escape buf (tok_end t + 1) c1 = Some (w, k)"
  shows "string_result buf s t r"
proof -
  have "\<exists>w. DecodeString_loop buf (fst r) (tok_length t) d = Some w"
    if r: "\<forall>d. \<exists>w. DecodeString_loop buf (fst r) (tok_length (longer (1 + k + 1) t)) d = Some w"
      "grown buf (start_pos s) (longer (1 + k + 1) t) (fst r)" "tok_length (longer (1 + k + 1) t) < tok_length (fst r)" for d
  proof -
    have b: "tok_begin (fst r) + tok_length t = tok_end t" "tok_begin (fst r) + (tok_length t + 1) = tok_end t + 1"
      "tok_length t + 1 + k + 1 = tok_length (longer (1 + k + 1) t)" "tok_length t + 1 < tok_length (fst r)"
      using r(2,3) by (auto simp: grown_def)
    show ?thesis using r(1) reach_unit [OF assms(2)] assms(3-5)
      by (subst DecodeString_loop.simps) (use b in simp)
  qed
  then show ?thesis using assms(1) unfolding string_result_def by (auto simp: grown_def)
qed

lemma ParseString_loop_ok:
  assumes "text_buf buf"
  shows "json_pos s = tok_begin t \<Longrightarrow> reach buf (start_pos s) (tok_end t) \<Longrightarrow> c = buf ! tok_end t \<Longrightarrow> length buf - tok_end t < n \<Longrightarrow>
    \<exists>r. ParseString_loop n buf t c s = Some r \<and> string_result buf s t r"
proof (induction n arbitrary: t c)
  case (Suc n)
  note r = Suc.prems(2)
  let ?t1 = "longer 1 t"
  consider (nul) "c = 0" | (esc) "c = 92" | (quote) "c = 34" | (char) "c \<notin> {0, 92, 34}" by auto
  then show ?case
  proof cases
    case nul
    then show ?thesis by (simp add: string_result_def)
  next
    case quote
    with Suc.prems have "grown buf (start_pos s) t ?t1" by (intro grown_longer [OF assms]) auto
    then show ?thesis using quote by (auto simp: string_result_def DecodeString_loop.simps [of _ _ "tok_length t"])
  next
    case char
    with Suc.prems have "grown buf (start_pos s) t ?t1" by (intro grown_longer [OF assms]) auto
    then have r1: "reach buf (start_pos s) (tok_end ?t1)" by (rule grown_reach)
    have "\<exists>x. ParseString_loop n buf ?t1 (buf ! tok_end ?t1) s = Some x \<and> string_result buf s ?t1 x"
      using Suc.prems r1 by (intro Suc.IH) (auto simp: reach_def)
    then show ?thesis using char NextChar_ok [OF r1] string_result_char [OF _ r] Suc.prems(3) by auto
  next
    case esc
    with Suc.prems have "grown buf (start_pos s) t ?t1" by (intro grown_longer [OF assms]) auto
    then have r1: "reach buf (start_pos s) (tok_end ?t1)" by (rule grown_reach)
    let ?c1 = "buf ! tok_end ?t1"
    from parse_escape_ok [OF assms r1 refl] obtain x where x: "parse_escape buf ?t1 ?c1 = Some x"
      "case x of Inl t' \<Rightarrow> t' = ?t1 | Inr t' \<Rightarrow> \<exists>k w. t' = longer k ?t1 \<and>
        decode_escape buf (tok_end ?t1) ?c1 = Some (w, k) \<and> reach buf (start_pos s) (tok_end t' + 1)" by blast
    show ?thesis
    proof (cases x)
      case (Inl t2)
      with SetErrorCode_ok [OF r1, of JSON_INVALID_ESCAPE] obtain s' where
        "SetErrorCode buf JSON_INVALID_ESCAPE (tok_end ?t1) s = Some s'" "error_at JSON_INVALID_ESCAPE s s'" by blast
      then show ?thesis using esc x Inl NextChar_ok [OF r1] Suc.prems(1) by (auto simp: string_result_def)
    next
      case (Inr t2)
      with x(2) obtain k w where k: "t2 = longer k ?t1" "decode_escape buf (tok_end ?t1) ?c1 = Some (w, k)"
        "reach buf (start_pos s) (tok_end t2 + 1)" by auto
      have e: "longer 1 t2 = longer (1 + k + 1) t" by (simp add: k(1) longer_def)
      have r3: "reach buf (start_pos s) (tok_end (longer 1 t2))" using k(3) by (simp add: add.assoc)
      have "\<exists>y. ParseString_loop n buf (longer 1 t2) (buf ! tok_end (longer 1 t2)) s = Some y \<and> string_result buf s (longer 1 t2) y"
        using Suc.prems r3 k(1) by (intro Suc.IH) (auto simp: reach_def)
      then obtain y where y: "ParseString_loop n buf (longer 1 t2) (buf ! tok_end (longer 1 t2)) s = Some y"
        "string_result buf s (longer (1 + k + 1) t) y" unfolding e by blast
      have "string_result buf s t y"
        using string_result_escape [OF y(2) r] esc Suc.prems(3) reach_unit [OF r1] k(2) by (simp add: add.assoc)
      then show ?thesis using esc x Inr NextChar_ok [OF r1] NextChar_ok [OF r3] y(1) by simp
    qed
  qed
qed simp

section \<open>The next token\<close>

definition moved :: "u32 list \<Rightarrow> json_reader \<Rightarrow> json_reader \<Rightarrow> bool" where
  "moved buf s s' \<longleftrightarrow> start_pos s' = start_pos s \<and> stack_depth s' = stack_depth s \<and>
     allow_trailing_comma s' = allow_trailing_comma s \<and> json_pos s \<le> json_pos s' \<and> reach buf (start_pos s') (json_pos s')"

definition token_at :: "u32 list \<Rightarrow> token \<Rightarrow> json_reader \<Rightarrow> bool" where
  "token_at buf t s \<longleftrightarrow> tok_type t \<in> {INVALID_TOKEN, END_OF_INPUT} \<and> tok_length t = 0 \<or>
     tok_begin t = json_pos s \<and> 0 < tok_length t \<and> reach buf (start_pos s) (tok_end t) \<and>
     tok_type t \<notin> {INVALID_TOKEN, END_OF_INPUT} \<and>
     (tok_type t = STRING \<longrightarrow> (\<exists>str. DecodeString buf t = Some str \<and> text_ok str))"

lemma invalid_token_at [simp]: "token_at buf kInvalidToken s"
  by (simp add: token_at_def kInvalidToken_def)

lemma moved_error: "error_at e s s' \<Longrightarrow> moved buf r s \<Longrightarrow> moved buf r s'"
  by (auto simp: error_at_def moved_def)

lemma ParseStringToken_ok:
  assumes "text_buf buf" "reach buf (start_pos s) (json_pos s)" "buf ! json_pos s = 34"
  shows "\<exists>t s'. ParseStringToken buf s = Some (t, s') \<and> moved buf s s' \<and> token_at buf t s'"
proof -
  let ?t = "Token STRING (json_pos s) 1"
  have r: "reach buf (start_pos s) (tok_end ?t)" using reach_Suc [OF assms(1,2)] assms(3) by simp
  have "\<exists>x. ParseString_loop (length buf) buf ?t (buf ! tok_end ?t) s = Some x \<and> string_result buf s ?t x"
    using r by (intro ParseString_loop_ok [OF assms(1)]) (auto simp: reach_def)
  then obtain t s' where x: "ParseStringToken buf s = Some (t, s')" "string_result buf s ?t (t, s')"
    using NextChar_ok [OF r] by (auto simp: ParseStringToken_def)
  have m: "moved buf s s" using assms(2) by (simp add: moved_def)
  have "\<exists>str. DecodeString buf t = Some str \<and> text_ok str" if "\<forall>d. \<exists>w. DecodeString_loop buf t 1 d = Some w"
    using that [rule_format, of "[]"] DecodeString_conversions by (fastforce simp: DecodeString_def)
  with x(2) m moved_error [OF _ m] have "moved buf s s' \<and> token_at buf t s'"
    by (auto simp: string_result_def token_at_def grown_def kInvalidToken_def)
  with x(1) show ?thesis by blast
qed

lemma NextStringMatch_from_ok:
  assumes "text_buf buf"
  shows "reach buf a p \<Longrightarrow> reach buf a (p + i) \<Longrightarrow> 0 \<notin> set str \<Longrightarrow> \<exists>b. NextStringMatch_from buf p i str = Some b \<and>
    (b \<longrightarrow> reach buf a (p + i + length str))"
proof (induction str arbitrary: i)
  case (Cons c str)
  show ?case
  proof (cases "buf ! p \<noteq> 0 \<and> buf ! (p + i) = ucast c")
    case True
    have "(ucast c :: u32) \<noteq> 0" using Cons.prems(3) unat_ucast_up [of c] by (auto simp: word_unat_eq_iff)
    with True have "reach buf a (p + Suc i)" using reach_Suc [OF assms Cons.prems(2)] by simp
    with Cons.IH [of "Suc i"] Cons.prems True show ?thesis by (auto simp: reach_unit)
  next
    case False
    then show ?thesis using Cons.prems(1,2) by (auto simp: reach_unit)
  qed
qed auto

lemma match_word_ok:
  assumes "text_buf buf" "reach buf (start_pos s) (json_pos s)" "0 \<notin> set (ascii str)" "str \<noteq> []"
    "ty \<notin> {INVALID_TOKEN, END_OF_INPUT, STRING}"
  shows "\<exists>t. match_word buf s str ty = Some (t, s) \<and> token_at buf t s"
  using NextStringMatch_from_ok [OF assms(1,2), of 0 "ascii str"] assms(2-5)
  by (auto simp: match_word_def NextStringMatch_def token_at_def ascii_def kInvalidToken_def)

lemma ParseToken_ok:
  assumes "text_buf buf" "reach buf (start_pos s0) (json_pos s0)"
  shows "\<exists>t s. ParseToken buf s0 = Some (t, s) \<and> moved buf s0 s \<and> token_at buf t s"
proof -
  from eat_space_ok [OF assms] obtain q where q: "eat_space buf (json_pos s0) = Some q" "reach buf (start_pos s0) q" "json_pos s0 \<le> q"
    by blast
  define s where "s = s0\<lparr>json_pos := q\<rparr>"
  have e: "EatWhitespaceAndComments buf s0 = Some s" using q by (simp add: EatWhitespaceAndComments_def s_def)
  have r: "reach buf (start_pos s) (json_pos s)" and m: "moved buf s0 s" using q by (simp_all add: s_def moved_def)
  let ?c = "buf ! json_pos s"
  have one: "token_at buf (Token ty (json_pos s) 1) s" if "?c \<noteq> 0" "ty \<notin> {INVALID_TOKEN, END_OF_INPUT, STRING}" for ty
    using reach_Suc [OF assms(1) r that(1)] that(2) by (auto simp: token_at_def)
  have words: "\<exists>t. match_word buf s ''null'' NULL_TOKEN = Some (t, s) \<and> token_at buf t s"
    "\<exists>t. match_word buf s ''true'' BOOL_TRUE = Some (t, s) \<and> token_at buf t s"
    "\<exists>t. match_word buf s ''false'' BOOL_FALSE = Some (t, s) \<and> token_at buf t s"
    by (rule match_word_ok [OF assms(1) r]; simp add: ascii_def)+
  have number: "\<exists>t. ParseNumberToken buf s = Some t \<and> token_at buf t s"
    using ParseNumberToken_ok [OF assms(1) r] by (auto simp: token_at_def kInvalidToken_def)
  have string: "\<exists>t s'. ParseStringToken buf s = Some (t, s') \<and> moved buf s0 s' \<and> token_at buf t s'" if "?c = 34"
    using ParseStringToken_ok [OF assms(1) r that] m by (auto simp: moved_def)
  show ?thesis
  proof (cases "?c = 0 \<or> ?c = 34 \<or> is_dec ?c \<or> ?c = 45 \<or> ?c = 110 \<or> ?c = 116 \<or> ?c = 102")
    case True
    have "is_dec ?c \<Longrightarrow> ?c \<notin> {0, 34, 44, 58, 91, 93, 102, 110, 116, 123, 125}" by (auto simp: is_dec_def)
    then show ?thesis using True words number string m
      by (auto simp: ParseToken_def e reach_unit [OF r] token_at_def [of _ "Token END_OF_INPUT 0 0"])
  next
    case False
    then show ?thesis using m one by (auto simp: ParseToken_def e reach_unit [OF r])
  qed
qed

section \<open>The values that are built\<close>

text \<open>
  The type of a value read from JSON: nested at most as deep as given, keys in order, texts in UTF-8, reals
  finite, nothing binary.
\<close>

fun json_typed :: "nat \<Rightarrow> Value \<Rightarrow> bool" where
  "json_typed 0 v = False"
| "json_typed (Suc k) NullValue = True"
| "json_typed (Suc k) (BooleanValue b) = True"
| "json_typed (Suc k) (IntegerValue i) = True"
| "json_typed (Suc k) (RealValue r) = IsFinite r"
| "json_typed (Suc k) (StringValue s) = text_ok s"
| "json_typed (Suc k) (BinaryValue b) = False"
| "json_typed (Suc k) (ListValue l) = list_all (json_typed k) l"
| "json_typed (Suc k) (DictionaryValue d) = (sorted_keys d \<and> list_all (\<lambda>e. text_ok (fst e) \<and> json_typed k (snd e)) d)"

lemma advance_ok:
  assumes "token_at buf t s" "tok_type t \<notin> {INVALID_TOKEN, END_OF_INPUT}" "moved buf s0 s"
  shows "reach buf (start_pos (advance t s)) (json_pos (advance t s))" "moved buf s0 (advance t s)" "json_pos s < json_pos (advance t s)"
  using assms by (auto simp: token_at_def advance_def moved_def)

lemma moved_reach: "moved buf s s' \<Longrightarrow> reach buf (start_pos s') (json_pos s')"
  unfolding moved_def by (elim conjE)

lemma moved_refl: "moved buf s s' \<Longrightarrow> moved buf s' s'"
  using moved_reach by (simp add: moved_def)

lemma moved_trans: "moved buf s s' \<Longrightarrow> moved buf s' s'' \<Longrightarrow> moved buf s s''"
  by (auto simp: moved_def)

definition stays :: "u32 list \<Rightarrow> json_reader \<Rightarrow> json_reader \<Rightarrow> bool" where
  "stays buf s s' \<longleftrightarrow> start_pos s' = start_pos s \<and> reach buf (start_pos s') (json_pos s')"

lemma moved_stays: "moved buf s s' \<Longrightarrow> stays buf s s'"
  unfolding moved_def stays_def by blast

lemma fail_with_ok: "moved buf s0 s \<Longrightarrow> \<exists>s'. fail_with buf e s = Some (None, s') \<and> stays buf s0 s'"
  using SetErrorCode_ok [of buf s "json_pos s" e] by (auto simp: fail_with_def moved_def stays_def error_at_def)

definition builder_ok :: "u32 list \<Rightarrow> nat \<Rightarrow> nat \<Rightarrow> value_builder \<Rightarrow> bool" where
  "builder_ok buf depth k build \<longleftrightarrow> (\<forall>s. reach buf (start_pos s) (json_pos s) \<and> stack_depth s = depth \<longrightarrow>
     (\<exists>r s'. build s = Some (r, s') \<and> (case r of None \<Rightarrow> stays buf s s'
        | Some v \<Rightarrow> moved buf s s' \<and> json_pos s < json_pos s' \<and> json_typed k v)))"

lemma array_ok:
  assumes "text_buf buf" "builder_ok buf depth k build"
  shows "list_all (json_typed k) items \<Longrightarrow> moved buf s0 s \<Longrightarrow> stack_depth s = depth \<Longrightarrow> token_at buf t s \<Longrightarrow>
    length buf - json_pos s < n \<Longrightarrow>
    \<exists>r s'. BuildValue_array n build buf t items s = Some (r, s') \<and> (case r of None \<Rightarrow> stays buf s0 s'
      | Some (items', t') \<Rightarrow> moved buf s0 s' \<and> list_all (json_typed k) items' \<and> token_at buf t' s' \<and> tok_type t' = ARRAY_END)"
proof (induction n arbitrary: t items s)
  case (Suc n)
  note m = Suc.prems(2) and d = Suc.prems(3)
  have r: "reach buf (start_pos s) (json_pos s)" by (rule moved_reach [OF m])
  show ?case
  proof (cases "tok_type t = ARRAY_END")
    case True
    then show ?thesis using Suc.prems by simp
  next
    case False
    from assms(2) r d obtain x s1 where b: "build s = Some (x, s1)" "case x of None \<Rightarrow> stays buf s s1
        | Some v \<Rightarrow> moved buf s s1 \<and> json_pos s < json_pos s1 \<and> json_typed k v" unfolding builder_ok_def by blast
    show ?thesis
    proof (cases x)
      case None
      then show ?thesis using b False m by (auto simp: stays_def moved_def)
    next
      case (Some v)
      with b(2) have m1: "moved buf s0 s1" "json_pos s < json_pos s1" and v: "json_typed k v" using m by (auto intro: moved_trans)
      have r1: "reach buf (start_pos s1) (json_pos s1)" by (rule moved_reach [OF m1(1)])
      from ParseToken_ok [OF assms(1) r1] obtain t1 s2 where t1: "ParseToken buf s1 = Some (t1, s2)" "moved buf s1 s2" "token_at buf t1 s2" by blast
      have m2: "moved buf s0 s2" by (rule moved_trans [OF m1(1) t1(2)])
      have items: "list_all (json_typed k) (List_Append v items)" using Suc.prems(1) v by (simp add: List_Append_def)
      have depth2: "stack_depth s2 = depth" using m2 m d by (simp add: moved_def)
      have less: "length buf - json_pos s' < n" if "moved buf s2 s'" for s'
        using that t1(2) m1(2) Suc.prems(5) r by (auto simp: moved_def reach_def)
      show ?thesis
      proof (cases "tok_type t1 = LIST_SEPARATOR")
        case sep: True
        note adv = advance_ok [OF t1(3) _ m2, simplified sep, simplified]
        from ParseToken_ok [OF assms(1) adv(1)] obtain t2 s3 where t2: "ParseToken buf (advance t1 s2) = Some (t2, s3)"
          "moved buf (advance t1 s2) s3" "token_at buf t2 s3" by blast
        have m3: "moved buf s0 s3" by (rule moved_trans [OF adv(2) t2(2)])
        have "moved buf s2 (advance t1 s2)" using advance_ok(2) [OF t1(3) _ moved_refl [OF m2]] sep by simp
        then have m23: "moved buf s2 s3" using t2(2) by (rule moved_trans)
        show ?thesis
        proof (cases "tok_type t2 = ARRAY_END")
          case True
          then show ?thesis using False b Some t1(1) t2(1,3) sep m3 items fail_with_ok [OF m3, of JSON_TRAILING_COMMA, where 'a = "Value list \<times> token"]
            by (cases "allow_trailing_comma s3") auto
        next
          case go: False
          have "stack_depth s3 = depth" using m23 depth2 by (simp add: moved_def)
          from Suc.IH [OF items m3 this t2(3) less [OF m23]] go False b Some t1(1) t2(1) sep show ?thesis by simp
        qed
      next
        case nosep: False
        from Suc.IH [OF items m2 depth2 t1(3) less [OF moved_refl [OF m2]]] nosep False b Some t1(1) m2 show ?thesis
          by (cases "tok_type t1 = ARRAY_END") (auto intro: moved_stays)
      qed
    qed
  qed
qed simp

definition entries_typed :: "nat \<Rightarrow> value_map \<Rightarrow> bool" where
  "entries_typed k d \<longleftrightarrow> sorted_keys d \<and> list_all (\<lambda>e. text_ok (fst e) \<and> json_typed k (snd e)) d"

lemma entries_typed_insert:
  "entries_typed k d \<Longrightarrow> text_ok key \<Longrightarrow> json_typed k v \<Longrightarrow> entries_typed k (SetWithoutPathExpansion key v d)"
  using set_map_insert [of key v d]
  by (auto simp: entries_typed_def SetWithoutPathExpansion_def sorted_map_insert list_all_iff)

lemma object_ok:
  assumes "text_buf buf" "builder_ok buf depth k build"
  shows "entries_typed k dict \<Longrightarrow> moved buf s0 s \<Longrightarrow> stack_depth s = depth \<Longrightarrow> token_at buf t s \<Longrightarrow>
    length buf - json_pos s < n \<Longrightarrow>
    \<exists>r s'. BuildValue_object n build buf t dict s = Some (r, s') \<and> (case r of None \<Rightarrow> stays buf s0 s'
      | Some (dict', t') \<Rightarrow> moved buf s0 s' \<and> entries_typed k dict' \<and> token_at buf t' s' \<and> tok_type t' = OBJECT_END)"
proof (induction n arbitrary: t dict s)
  case (Suc n)
  note m = Suc.prems(2) and d = Suc.prems(3)
  consider (stop) "tok_type t = OBJECT_END" | (bad) "tok_type t \<notin> {OBJECT_END, STRING}" | (key) "tok_type t = STRING" by auto
  then show ?case
  proof cases
    case stop
    then show ?thesis using Suc.prems by simp
  next
    case bad
    then show ?thesis using fail_with_ok [OF m, of JSON_UNQUOTED_DICTIONARY_KEY, where 'a = "value_map \<times> token"] by auto
  next
    case key
    with Suc.prems(4) obtain str where str: "DecodeString buf t = Some str" "text_ok str" by (auto simp: token_at_def)
    from key have "tok_type t \<notin> {INVALID_TOKEN, END_OF_INPUT}" by simp
    note adv = advance_ok [OF Suc.prems(4) this m]
    from ParseToken_ok [OF assms(1) adv(1)] obtain t1 s1 where t1: "ParseToken buf (advance t s) = Some (t1, s1)"
      "moved buf (advance t s) s1" "token_at buf t1 s1" by blast
    have m1: "moved buf s0 s1" by (rule moved_trans [OF adv(2) t1(2)])
    show ?thesis
    proof (cases "tok_type t1 = OBJECT_PAIR_SEPARATOR")
      case False
      then show ?thesis using key str t1(1) moved_stays [OF m1] by auto
    next
      case colon: True
      then have "tok_type t1 \<notin> {INVALID_TOKEN, END_OF_INPUT}" by simp
      note adv1 = advance_ok [OF t1(3) this m1]
      from ParseToken_ok [OF assms(1) adv1(1)] obtain t2 s2 where t2: "ParseToken buf (advance t1 s1) = Some (t2, s2)"
        "moved buf (advance t1 s1) s2" "token_at buf t2 s2" by blast
      have m2: "moved buf s0 s2" by (rule moved_trans [OF adv1(2) t2(2)])
      have d2: "stack_depth s2 = depth" using m2 m d by (simp add: moved_def)
      from assms(2) moved_reach [OF m2] d2 obtain x s3 where b: "build s2 = Some (x, s3)" "case x of None \<Rightarrow> stays buf s2 s3
        | Some v \<Rightarrow> moved buf s2 s3 \<and> json_pos s2 < json_pos s3 \<and> json_typed k v" unfolding builder_ok_def by blast
      show ?thesis
      proof (cases x)
        case None
        then show ?thesis using b key str t1(1) colon t2(1) m2 by (auto simp: stays_def moved_def)
      next
        case (Some v)
        with b(2) have m3: "moved buf s0 s3" and v: "json_typed k v" using m2 by (auto intro: moved_trans)
        from ParseToken_ok [OF assms(1) moved_reach [OF m3]] obtain t3 s4 where t3: "ParseToken buf s3 = Some (t3, s4)"
          "moved buf s3 s4" "token_at buf t3 s4" by blast
        have m4: "moved buf s0 s4" by (rule moved_trans [OF m3 t3(2)])
        have dict: "entries_typed k (SetWithoutPathExpansion str v dict)" by (rule entries_typed_insert [OF Suc.prems(1) str(2) v])
        have d4: "stack_depth s4 = depth" using m4 m d by (simp add: moved_def)
        have "json_pos s < json_pos s4" using adv(3) t1(2) adv1(3) t2(2) b(2) Some t3(2) by (simp add: moved_def)
        then have less: "length buf - json_pos s' < n" if "moved buf s4 s'" for s'
          using that Suc.prems(5) moved_reach [OF m] by (auto simp: moved_def reach_def)
        show ?thesis
        proof (cases "tok_type t3 = LIST_SEPARATOR")
          case sep: True
          then have nt: "tok_type t3 \<notin> {INVALID_TOKEN, END_OF_INPUT}" by simp
          note adv3 = advance_ok [OF t3(3) nt m4]
          from ParseToken_ok [OF assms(1) adv3(1)] obtain t4 s5 where t4: "ParseToken buf (advance t3 s4) = Some (t4, s5)"
            "moved buf (advance t3 s4) s5" "token_at buf t4 s5" by blast
          have m5: "moved buf s0 s5" by (rule moved_trans [OF adv3(2) t4(2)])
          have m45: "moved buf s4 s5" by (rule moved_trans [OF advance_ok(2) [OF t3(3) nt moved_refl [OF m4]] t4(2)])
          show ?thesis
          proof (cases "tok_type t4 = OBJECT_END")
            case True
            then show ?thesis using key str t1(1) colon t2(1) b(1) Some t3(1) sep t4(1,3) m5 dict
                fail_with_ok [OF m5, of JSON_TRAILING_COMMA, where 'a = "value_map \<times> token"]
              by (cases "allow_trailing_comma s5") auto
          next
            case go: False
            have "stack_depth s5 = depth" using m45 d4 by (simp add: moved_def)
            from Suc.IH [OF dict m5 this t4(3) less [OF m45]] go key str t1(1) colon t2(1) b(1) Some t3(1) sep t4(1)
            show ?thesis by simp
          qed
        next
          case nosep: False
          from Suc.IH [OF dict m4 d4 t3(3) less [OF moved_refl [OF m4]]] nosep key str t1(1) colon t2(1) b(1) Some t3(1)
            moved_stays [OF m4] show ?thesis
            by (cases "tok_type t3 = OBJECT_END") auto
        qed
      qed
    qed
  qed
qed simp

lemma finish_value_ok:
  assumes "moved buf (s0\<lparr>stack_depth := stack_depth s0 + 1\<rparr>) s" "token_at buf t s" "tok_type t \<notin> {INVALID_TOKEN, END_OF_INPUT}"
  shows "\<exists>s'. finish_value v t s = (Some v, s') \<and> moved buf s0 s' \<and> json_pos s0 < json_pos s'"
  using advance_ok [OF assms(2,3,1)] assms(1) by (auto simp: finish_value_def moved_def)

lemma BuildValue_ok:
  assumes "text_buf buf"
  shows "depth + k = kStackLimit \<Longrightarrow> builder_ok buf depth k (BuildValue (Suc k) strtod buf is_root)"
proof (induction k arbitrary: depth is_root)
  case 0
  show ?case unfolding builder_ok_def
  proof (intro allI impI)
    fix s :: json_reader
    assume s: "reach buf (start_pos s) (json_pos s) \<and> stack_depth s = depth"
    let ?s = "s\<lparr>stack_depth := stack_depth s + 1\<rparr>"
    have "moved buf ?s ?s" using s by (simp add: moved_def)
    from fail_with_ok [OF this, of JSON_TOO_MUCH_NESTING, where 'a = Value] s 0 show
      "\<exists>r s'. BuildValue (Suc 0) strtod buf is_root s = Some (r, s') \<and> (case r of None \<Rightarrow> stays buf s s'
        | Some v \<Rightarrow> moved buf s s' \<and> json_pos s < json_pos s' \<and> json_typed 0 v)"
      by (auto simp: stays_def)
  qed
next
  case (Suc k)
  show ?case unfolding builder_ok_def
  proof (intro allI impI)
    fix s :: json_reader
    assume s: "reach buf (start_pos s) (json_pos s) \<and> stack_depth s = depth"
    define s1 where "s1 = s\<lparr>stack_depth := stack_depth s + 1\<rparr>"
    have lim: "\<not> kStackLimit < stack_depth s1" using s Suc.prems by (simp add: s1_def)
    have "reach buf (start_pos s1) (json_pos s1)" using s by (simp add: s1_def)
    from ParseToken_ok [OF assms this] obtain t s2 where t: "ParseToken buf s1 = Some (t, s2)" "moved buf s1 s2" "token_at buf t s2" by blast
    note fin = finish_value_ok [OF t(2) [unfolded s1_def] t(3)]
    have stay: "stays buf s s2" using moved_stays [OF t(2)] by (auto simp: stays_def s1_def)
    have ih: "builder_ok buf (depth + 1) k (BuildValue (Suc k) strtod buf False)" using Suc.prems by (intro Suc.IH) simp
    define P where "P x \<longleftrightarrow> (\<exists>r s'. x = Some (r, s') \<and> (case r of None \<Rightarrow> stays buf s s'
        | Some v \<Rightarrow> moved buf s s' \<and> json_pos s < json_pos s' \<and> json_typed (Suc k) v))" for x
    have P_fin: "P (Some (finish_value v t s2))" if "json_typed (Suc k) v" "tok_type t \<notin> {INVALID_TOKEN, END_OF_INPUT}" for v
      using fin [OF that(2), of v] that(1) by (auto simp: P_def)
    have P_stay: "P (Some (None, s2))" using stay by (simp add: P_def)
    have P_root: "P (fail_with buf JSON_BAD_ROOT_ELEMENT_TYPE s2)"
      using fail_with_ok [OF t(2), of JSON_BAD_ROOT_ELEMENT_TYPE, where 'a = Value] by (auto simp: P_def stays_def s1_def)
    have P_number: "P (do { node \<leftarrow> DecodeNumber strtod buf t; Some (case node of None \<Rightarrow> (None, s2) | Some v \<Rightarrow> finish_value v t s2) })"
      if "tok_type t = NUMBER"
      using DecodeNumber_ok [of strtod buf t] P_stay P_fin that by (auto split: option.splits)
    have P_string: "P (do { str \<leftarrow> DecodeString buf t; Some (finish_value (StringValue str) t s2) })" if "tok_type t = STRING"
      using t(3) that P_fin by (auto simp: token_at_def)
    have P_array: "P (do { (token1, s2') \<leftarrow> ParseToken buf (advance t s2);
        (r, s3) \<leftarrow> BuildValue_array (length buf) (BuildValue (Suc k) strtod buf False) buf token1 [] s2';
        Some (case r of None \<Rightarrow> (None, s3) | Some (items, token2) \<Rightarrow> finish_value (ListValue items) token2 s3) })"
      if "tok_type t = ARRAY_BEGIN"
    proof -
      from that have nt: "tok_type t \<notin> {INVALID_TOKEN, END_OF_INPUT}" by simp
      note adv = advance_ok [OF t(3) nt t(2)]
      from ParseToken_ok [OF assms adv(1)] obtain t1 s3 where t1: "ParseToken buf (advance t s2) = Some (t1, s3)"
        "moved buf (advance t s2) s3" "token_at buf t1 s3" by blast
      have m3: "moved buf s1 s3" by (rule moved_trans [OF adv(2) t1(2)])
      have d3: "stack_depth s3 = depth + 1" using m3 s by (simp add: moved_def s1_def)
      have less: "length buf - json_pos s3 < length buf"
        using adv(3) t1(2) moved_reach [OF m3] by (auto simp: moved_def reach_def)
      from array_ok [OF assms ih, of "[]" s1 s3 t1 "length buf"] m3 d3 t1(3) less obtain r s4 where
        r: "BuildValue_array (length buf) (BuildValue (Suc k) strtod buf False) buf t1 [] s3 = Some (r, s4)"
        "case r of None \<Rightarrow> stays buf s1 s4 | Some (x, t') \<Rightarrow> moved buf s1 s4 \<and> list_all (json_typed k) x \<and> token_at buf t' s4 \<and> tok_type t' = ARRAY_END"
        by (auto simp: entries_typed_def sorted_keys_def)
      show ?thesis
      proof (cases r)
        case None
        then show ?thesis using r t1(1) by (auto simp: P_def stays_def s1_def)
      next
        case (Some xt)
        obtain x t' where xt: "xt = (x, t')" by fastforce
        with r(2) Some have x: "moved buf s1 s4" "list_all (json_typed k) x" "token_at buf t' s4" "tok_type t' \<notin> {INVALID_TOKEN, END_OF_INPUT}" by auto
        from finish_value_ok [OF x(1) [unfolded s1_def] x(3,4), of "ListValue x"] x(2) show ?thesis
          using r(1) t1(1) Some xt by (auto simp: P_def entries_typed_def)
      qed
    qed
    have P_object: "P (do { (token1, s2') \<leftarrow> ParseToken buf (advance t s2);
        (r, s3) \<leftarrow> BuildValue_object (length buf) (BuildValue (Suc k) strtod buf False) buf token1 [] s2';
        Some (case r of None \<Rightarrow> (None, s3) | Some (dict, token2) \<Rightarrow> finish_value (DictionaryValue dict) token2 s3) })"
      if "tok_type t = OBJECT_BEGIN"
    proof -
      from that have nt: "tok_type t \<notin> {INVALID_TOKEN, END_OF_INPUT}" by simp
      note adv = advance_ok [OF t(3) nt t(2)]
      from ParseToken_ok [OF assms adv(1)] obtain t1 s3 where t1: "ParseToken buf (advance t s2) = Some (t1, s3)"
        "moved buf (advance t s2) s3" "token_at buf t1 s3" by blast
      have m3: "moved buf s1 s3" by (rule moved_trans [OF adv(2) t1(2)])
      have d3: "stack_depth s3 = depth + 1" using m3 s by (simp add: moved_def s1_def)
      have less: "length buf - json_pos s3 < length buf"
        using adv(3) t1(2) moved_reach [OF m3] by (auto simp: moved_def reach_def)
      from object_ok [OF assms ih, of "[]" s1 s3 t1 "length buf"] m3 d3 t1(3) less obtain r s4 where
        r: "BuildValue_object (length buf) (BuildValue (Suc k) strtod buf False) buf t1 [] s3 = Some (r, s4)"
        "case r of None \<Rightarrow> stays buf s1 s4 | Some (x, t') \<Rightarrow> moved buf s1 s4 \<and> entries_typed k x \<and> token_at buf t' s4 \<and> tok_type t' = OBJECT_END"
        by (auto simp: entries_typed_def sorted_keys_def)
      show ?thesis
      proof (cases r)
        case None
        then show ?thesis using r t1(1) by (auto simp: P_def stays_def s1_def)
      next
        case (Some xt)
        obtain x t' where xt: "xt = (x, t')" by fastforce
        with r(2) Some have x: "moved buf s1 s4" "entries_typed k x" "token_at buf t' s4" "tok_type t' \<notin> {INVALID_TOKEN, END_OF_INPUT}" by auto
        from finish_value_ok [OF x(1) [unfolded s1_def] x(3,4), of "DictionaryValue x"] x(2) show ?thesis
          using r(1) t1(1) Some xt by (auto simp: P_def entries_typed_def)
      qed
    qed
    have "P (BuildValue (Suc (Suc k)) strtod buf is_root s)"
      unfolding BuildValue.simps(2) [of "Suc k"] Let_def s1_def [symmetric] if_not_P [OF lim] t(1)
      using P_root P_stay P_number P_string P_array P_object P_fin
      by (cases "tok_type t") (simp_all del: BuildValue.simps)
    then show "\<exists>r s'. BuildValue (Suc (Suc k)) strtod buf is_root s = Some (r, s') \<and> (case r of None \<Rightarrow> stays buf s s'
        | Some v \<Rightarrow> moved buf s s' \<and> json_pos s < json_pos s' \<and> json_typed (Suc k) v)" by (simp only: P_def)
  qed
qed

section \<open>Whole texts\<close>

lemma root_type: "BuildValue (Suc k) strtod buf True s = Some (Some v, s') \<Longrightarrow> GetType v \<in> {TYPE_LIST, TYPE_DICTIONARY}"
  by (auto simp: Let_def fail_with_def finish_value_def bind_eq_Some_conv split: if_splits token_type.splits option.splits)

lemma UTF8ToWide_total: "\<exists>ok cs. UTF8ToWide s = Some (ok, cs)"
  using utf8.convert_total [of WriteUnicodeCharacter32 s] by (auto simp: UTF8ToWide_def)

text \<open>What \<open>JsonToValue\<close> gives on any bytes.\<close>

lemma JsonToValue_result:
  "\<exists>r s. JsonToValue strtod json check_root allow s0 = Some (r, s) \<and> (case r of
      None \<Rightarrow> error_code s \<noteq> JSON_NO_ERROR
    | Some v \<Rightarrow> json_typed kStackLimit v \<and> (check_root \<longrightarrow> GetType v \<in> {TYPE_LIST, TYPE_DICTIONARY}))"
proof -
  obtain utf8 where u: "IsStringUTF8 (takeWhile (\<lambda>c. c \<noteq> 0) json) = Some utf8" using IsStringUTF8_total by blast
  obtain ok w where w: "UTF8ToWide json = Some (ok, w)" using UTF8ToWide_total by blast
  show ?thesis
  proof (cases utf8)
    case False
    then show ?thesis using u by (simp add: JsonToValue_def)
  next
    case True
    define buf start s where "buf = w @ [0]" and "start = (if w \<noteq> [] \<and> w ! 0 = 0xFEFF then 1 else 0 :: nat)"
      and "s = s0\<lparr>start_pos := start, json_pos := start, allow_trailing_comma := allow, stack_depth := 0,
        error_code := JSON_NO_ERROR\<rparr>"
    have buf: "text_buf buf" by (simp add: buf_def text_buf_def)
    have "reach buf start start" by (cases w) (auto simp: reach_def start_def buf_def)
    moreover have "builder_ok buf 0 kStackLimit (BuildValue (Suc kStackLimit) strtod buf check_root)"
      by (rule BuildValue_ok [OF buf]) simp
    moreover have "start_pos s = start" "json_pos s = start" "stack_depth s = 0" by (simp_all add: s_def)
    ultimately have "\<exists>r s'. BuildValue (Suc kStackLimit) strtod buf check_root s = Some (r, s') \<and> (case r of None \<Rightarrow> stays buf s s'
        | Some v \<Rightarrow> moved buf s s' \<and> json_pos s < json_pos s' \<and> json_typed kStackLimit v)" unfolding builder_ok_def by simp
    then obtain root s1 where b: "BuildValue (kStackLimit + 1) strtod buf check_root s = Some (root, s1)"
      "case root of None \<Rightarrow> stays buf s s1 | Some v \<Rightarrow> moved buf s s1 \<and> json_pos s < json_pos s1 \<and> json_typed kStackLimit v"
      by (auto simp del: BuildValue.simps)
    have st: "stays buf s s1" using b(2) by (auto intro: moved_stays split: option.splits)
    then have r1: "reach buf (start_pos s1) (json_pos s1)" unfolding stays_def by (elim conjE)
    have sets: "\<exists>s3. SetErrorCode buf e (json_pos s2) s2 = Some s3 \<and> error_code s3 = e" if "reach buf (start_pos s2) (json_pos s2)" for s2 e
      using SetErrorCode_ok [OF that, of e] by (auto simp: error_at_def)
    have unfolded: "JsonToValue strtod json check_root allow s0 = do {
       (returned, s2) \<leftarrow> (case root of
           None \<Rightarrow> Some (False, s1)
         | Some v \<Rightarrow> do {
             (token, s2) \<leftarrow> ParseToken buf s1;
             if tok_type token = END_OF_INPUT then Some (True, s2)
             else do { s3 \<leftarrow> SetErrorCode buf JSON_UNEXPECTED_DATA_AFTER_ROOT (json_pos s2) s2; Some (False, s3) } });
       if returned then Some (root, s2)
       else if error_code s2 = JSON_NO_ERROR
       then do { s3 \<leftarrow> SetErrorCode buf JSON_SYNTAX_ERROR (json_pos s2) s2; Some (None, s3) }
       else Some (None, s2) }"
      unfolding buf_def using u w True b(1) [unfolded buf_def start_def s_def]
      by (simp add: JsonToValue_def Let_def del: BuildValue.simps)
    show ?thesis
    proof (cases root)
      case None
      then show ?thesis using sets [OF r1, of JSON_SYNTAX_ERROR] by (auto simp: unfolded)
    next
      case (Some v)
      from ParseToken_ok [OF buf r1] obtain t s2 where t: "ParseToken buf s1 = Some (t, s2)" "moved buf s1 s2" by blast
      have root: "check_root \<longrightarrow> GetType v \<in> {TYPE_LIST, TYPE_DICTIONARY}"
        using root_type [of kStackLimit strtod buf s v s1] b(1) Some by (auto simp del: BuildValue.simps)
      from sets [OF moved_reach [OF t(2)], of JSON_UNEXPECTED_DATA_AFTER_ROOT] t(1) b(2) Some root show ?thesis
        by (cases "tok_type t = END_OF_INPUT") (auto simp: unfolded)
    qed
  qed
qed

text \<open>
  C10: on any bytes the JSON reader comes to an end: it never reads outside the text, never comes to a
  \<open>NOTREACHED\<close>, and when it gives no value it reports an error.
\<close>

theorem json_reader_total:
  "\<exists>r s. JsonToValue strtod json check_root allow s0 = Some (r, s) \<and>
     (case r of None \<Rightarrow> error_code s \<noteq> JSON_NO_ERROR | Some v \<Rightarrow> True)"
  using JsonToValue_result [of strtod json check_root allow s0] by (force split: option.splits)

text \<open>
  C9: every value that the reader gives, on any bytes, has the type of JSON values: nested at most a hundred deep,
  the keys of dictionaries in order and without repetition, keys and strings in UTF-8, reals finite, and no binary
  value; with \<open>check_root\<close> it is a list or a dictionary.
\<close>

theorem json_value_typed:
  assumes "JsonToValue strtod json check_root allow s0 = Some (Some v, s)"
  shows "json_typed kStackLimit v \<and> (check_root \<longrightarrow> GetType v = TYPE_LIST \<or> GetType v = TYPE_DICTIONARY)"
  using JsonToValue_result [of strtod json check_root allow s0] assms by auto

definition no_doubles :: "u8 list \<Rightarrow> u64 \<times> nat \<times> bool" where
  "no_doubles s = (0, 0, False)"

definition sample_json :: "u8 list" where
  "sample_json = [91, 123, 34, 97, 34, 58, 45, 55, 125, 93]"

lemma sample_json_read: "map_option fst (JsonToValue no_doubles sample_json True False JSONReader_new) =
    Some (Some (ListValue [DictionaryValue [([97], IntegerValue (- 7))]]))"
  by code_simp

theorem json_value_typed_witness:
  "json_typed kStackLimit (ListValue [DictionaryValue [([97], IntegerValue (- 7))]])"
proof -
  obtain s where "JsonToValue no_doubles sample_json True False JSONReader_new =
      Some (Some (ListValue [DictionaryValue [([97], IntegerValue (- 7))]]), s)"
    using sample_json_read by (auto simp: map_option_eq_Some)
  from json_value_typed [OF this] show ?thesis by simp
qed

end
