(* ===== verification/Spec2Isabelle.thy ===== *)
theory Spec2Isabelle imports SyncMessage ValueProps ChannelSafe ChannelPair SyncFilterProps FdShuffle MessageLoopRuns JsonSafe begin

text \<open>
  A verification library for the inter-process communication of this repository (\<open>ipc/\<close>) and for
  the parts of \<open>base/\<close> it stands on. Paths are relative to \<open>src/\<close>. Definitions keep the names of the
  functions they model; a method \<open>C::f\<close> is \<open>f\<close>, or \<open>C_f\<close> where the name would be ambiguous.

  \<^bold>\<open>The program and its parts.\<close> A message is a pickle (\<open>base/pickle.cc\<close>) with a 20-byte header
  (\<open>ipc/ipc_message.cc\<close>) and, beside it, a set of descriptors (\<open>ipc/file_descriptor_set_posix.cc\<close>). Parameter
  traits (\<open>ipc/ipc_message_utils.h\<close>) write typed parameters into it and read them back, among them value
  trees (\<open>base/values.cc\<close>). A channel (\<open>ipc/ipc_channel_posix.cc\<close>) sends messages over a socket and
  reassembles them from the bytes that arrive. A proxy (\<open>ipc/ipc_channel_proxy.cc\<close>) runs a channel on the
  IPC thread for a listener on another one; a synchronous channel (\<open>ipc/ipc_sync_channel.cc\<close>) and the
  filter of \<open>ipc/ipc_sync_message_filter.cc\<close> add blocking calls on top of \<open>ipc/ipc_sync_message.cc\<close>. Tasks run in
  a message loop (\<open>base/message_loop.cc\<close>). Descriptors of a new process are moved to their places by
  \<open>base/file_descriptor_shuffle.cc\<close>. Text is converted by \<open>base/string_number_conversions.cc\<close>, between the Unicode encodings by
  \<open>base/utf_string_conversions.cc\<close>, and to and from JSON by \<open>base/json/\<close>.

  \<^bold>\<open>Theories, bottom up.\<close>
  \<^item> \<^theory_text>\<open>Prelude\<close>: machine types, little-endian images, checked loads and stores, and the locale
    \<open>machine\<close> of step functions that run a list of events, with invariants and simulation.
  \<^item> \<^theory_text>\<open>Pickle\<close>, \<^theory_text>\<open>PickleFrame\<close>: \<open>base/pickle.h\<close> and \<open>.cc\<close>. A pickle is its block of memory, the header size
    and the capacity; \<open>None\<close> is a failed check or an access outside the block. Shown: every writer appends
    exactly its aligned image, every reader reads it back, and readers stay inside the block of a pickle
    over arbitrary bytes.
  \<^item> \<^theory_text>\<open>Values\<close>: \<open>base/values.cc\<close>. \<open>Value\<close> is the tree, a dictionary the list of its entries in key order.
    Shown: the map laws of dictionaries, dotted paths, copies, comparison, merging, differing paths.
  \<^item> \<^theory_text>\<open>FdSet\<close>, \<^theory_text>\<open>Message\<close>: descriptors beside a message with their high-water mark, and the message itself.
  \<^item> \<^theory_text>\<open>Codec\<close>, \<^theory_text>\<open>ParamTraits\<close>, \<^theory_text>\<open>ValueTraits\<close>, \<^theory_text>\<open>FdTraits\<close>: the \<open>Read\<close> and \<open>Write\<close> of every \<open>ParamTraits\<close>. The
    locale \<open>param_reader\<close> states that a reader never leaves the message, \<open>param_traits\<close> that reading what
    was written gives it back; vectors, sets, maps, pairs and tuples inherit the laws from their element
    types through \<open>sublocale\<close>, and each specialisation of the code is an interpretation.
  \<^item> \<^theory_text>\<open>SyncMessage\<close>: the sync header, replies, and the generic classes \<open>MessageWithTuple\<close> and
    \<open>MessageWithReply\<close>; the locale \<open>rpc\<close> is a message class with parameter and reply traits.
  \<^item> \<^theory_text>\<open>ValueProps\<close>: the properties of values, alone and through a message.
  \<^item> \<^theory_text>\<open>Channel\<close>: \<open>ipc/ipc_channel_posix.cc\<close>. The record \<open>state\<close> has the members of \<open>ChannelImpl\<close> and the pipe
    map; system calls are the fields of the record \<open>os\<close>, functions on the state of the world, and what the
    listener is told is a list. \<^theory_text>\<open>ChannelClose\<close> treats closing, \<^theory_text>\<open>ChannelOut\<close> the queue and partial writes,
    \<^theory_text>\<open>Framing\<close> and \<^theory_text>\<open>ChannelIn\<close> the reassembly against the reference \<open>frames\<close>, \<^theory_text>\<open>ChannelSafe\<close> hostile peers,
    \<^theory_text>\<open>ChannelPair\<close> two channels joined by a pipe.
  \<^item> \<^theory_text>\<open>Proxy\<close>, \<^theory_text>\<open>ProxyProps\<close>: \<open>ipc/ipc_channel_proxy.cc\<close> as steps of three threads over the members of \<open>Context\<close>
    and the task queues between them; the properties hold in every interleaving.
  \<^item> \<^theory_text>\<open>SyncChannel\<close>, \<^theory_text>\<open>SyncProps\<close>, \<^theory_text>\<open>SyncQueue\<close>, \<^theory_text>\<open>SyncRuns\<close>: \<open>ipc/ipc_sync_channel.cc\<close>: several channels of one
    listener thread, their stacks of pending sends, the shared queue of received synchronous messages
    and the dispatch event. \<^theory_text>\<open>SyncFilter\<close>, \<^theory_text>\<open>SyncFilterProps\<close>: sends from other threads.
  \<^item> \<^theory_text>\<open>MessageLoop\<close>, \<^theory_text>\<open>MessageLoopProps\<close>, \<^theory_text>\<open>MessageLoopRuns\<close>: \<open>base/message_loop.cc\<close> and the pump of
    \<open>base/message_pump_default.cc\<close>: queues, nested runs, delayed and deferred tasks, destruction. The
    detailed steps refine a small machine that only moves tasks between queues.
  \<^item> \<^theory_text>\<open>FdShuffle\<close>: the sequential shuffle against the simultaneous assignment; the locale \<open>posix_fds\<close> states
    the documented behaviour of \<open>dup\<close>, \<open>dup2\<close> and \<open>close\<close> and is interpreted on a descriptor table.
  \<^item> \<^theory_text>\<open>NumberConv\<close>, \<^theory_text>\<open>NumberProps\<close>: integers as text, at their width, against decimal notation.
  \<^item> \<^theory_text>\<open>Utf\<close>, \<^theory_text>\<open>UtfProps\<close>: \<open>base/utf_string_conversions.cc\<close> down to the decoder of \<open>base/third_party/icu/icu_utf.cc\<close>,
    against the definition of the encodings in unbounded arithmetic; the locale \<open>unicode_form\<close> states what the
    converter needs of an encoding and is interpreted for UTF-8, UTF-16 and UTF-32.
  \<^item> \<^theory_text>\<open>JsonWriter\<close>, \<^theory_text>\<open>JsonReader\<close>: \<open>base/json/\<close>, values as JSON text and back. The reader is its record of
    members over a buffer of wide characters that ends in a NUL. \<^theory_text>\<open>JsonSafe\<close>: on any bytes it ends, stays inside
    the buffer, reports an error when it gives no value, and gives only values of a stated shape.

  \<^bold>\<open>Errors, bounds and fuel.\<close> \<open>None\<close> is always a behaviour the code must not have: an access outside a
  buffer, a failed \<open>CHECK\<close>. Failures the code reports are values. Integers have their width; the target
  has 32-bit pointers. The rounds of the loop over the messages in a buffer are bounded by one more than
  its bytes, enough since a message has at least 20; those of the sending loop by the length of the
  queue, of which each round takes one; \<open>ProcessIncomingMessages\<close> has the number of reads as its argument,
  and the theorems show that one more than the number of chunks that are pending is enough. The recursion of
  \<open>ReadValue\<close> and \<open>WriteValue\<close> is bounded by the code's own limit, the rounds of the destructor of a loop by
  its hundred, the temporary copies of a shuffle by \<open>kMaxExtraFDs\<close>, descriptors of a message by
  \<open>MAX_DESCRIPTORS_PER_MESSAGE\<close>.
  The conversions of text and the check of UTF-8 take one round more than there are units. The recursion of
  \<open>BuildValue\<close> is bounded by one more than \<open>kStackLimit\<close>, the rounds of its loops and of \<open>ParseStringToken\<close> by the
  size of the buffer; \<^theory_text>\<open>JsonSafe\<close> proves that this is enough for every text.

  \<^bold>\<open>Parameters.\<close> The operating system (sockets, descriptors, clocks), the allocator's addresses and the
  contents of fresh memory, the counter of message ids, the listeners, filters and tasks of clients, and
  the third-party conversion of doubles are arguments of the definitions; laws they need are named
  hypotheses or locale assumptions, and every property with one has a witness at concrete functions.

  \<^bold>\<open>Not modelled.\<close> In \<open>ipc/\<close>: the \<open>Log\<close> functions and \<open>ipc/ipc_logging.cc\<close>, which format messages for people in
  logging builds; the channels of Windows, another transport, and of Native Client, a stub whose functions
  only report that they are not implemented; the message macros, which generate the classes whose generic
  behaviour \<^theory_text>\<open>SyncMessage\<close> has; reference counts and thread-local registration. In \<open>base/\<close>: the pumps of
  user interfaces and of libevent, observers and histograms of the message loop; threads, locks and
  events themselves, whose documented behaviour the interleavings use; files, processes, crypto, tracing, metrics,
  time and internationalisation, which are calls into the operating system or other libraries. Tests, \<open>build/\<close>, \<open>testing/\<close>, vendored libraries
  and the code of other projects are outside the scope of this library.
\<close>

section \<open>Two channels\<close>



end
